(* ===== verification/Prelude.thy ===== *)
theory Prelude
  imports Main "HOL-Library.Sublist" "HOL-Library.Word"
begin

text \<open>
  Shared vocabulary of the development: the representation of time, generic lemmas on
  lists searched by a predicate (\<^verbatim>\<open>std::find_if\<close> followed by an update, an erase or a
  relocation through the iterator it returned), and on association lists keyed by names.
\<close>

section \<open>Collections of facts\<close>

named_theorems nfd_defs \<open>definitions that are unfolded together\<close>
named_theorems nfd_inv \<open>preservation lemmas of component invariants\<close>

section \<open>Time\<close>

text \<open>
  Points of \<^verbatim>\<open>time::steady_clock\<close> and durations are integers counting nanoseconds, the
  tick of that clock. \<^verbatim>\<open>duration_cast\<close> truncates towards zero.
\<close>

type_synonym time = int
type_synonym duration = int

definition ms :: "int \<Rightarrow> duration" where
  "ms n = n * 1000000"

definition duration_cast_ms :: "duration \<Rightarrow> int" where
  "duration_cast_ms d = (if d < 0 then - ((- d) div 1000000) else d div 1000000)"

lemma ms_mono: "a \<le> b \<Longrightarrow> ms a \<le> ms b"
  by (simp add: ms_def)

lemma ms_nonneg [simp]: "0 \<le> ms n \<longleftrightarrow> 0 \<le> n"
  by (simp add: ms_def zero_le_mult_iff)

lemma duration_cast_ms_ms [simp]: "duration_cast_ms (ms n) = n"
proof -
  have "(- (n * 1000000)) div 1000000 = - n"
    by (metis mult_minus_left nonzero_mult_div_cancel_right zero_neq_numeral)
  then show ?thesis by (simp add: duration_cast_ms_def ms_def)
qed

lemma ms_duration_cast_le: "0 \<le> d \<Longrightarrow> ms (duration_cast_ms d) \<le> d"
  by (simp add: ms_def duration_cast_ms_def)

section \<open>Updating and removing the first element that satisfies a predicate\<close>

text \<open>
  The code finds an element with \<^verbatim>\<open>std::find_if\<close> and then mutates or erases it through the
  iterator: only the first hit is affected.
\<close>

fun updateFirst :: "('a \<Rightarrow> bool) \<Rightarrow> ('a \<Rightarrow> 'a) \<Rightarrow> 'a list \<Rightarrow> 'a list" where
  "updateFirst p f [] = []"
| "updateFirst p f (x # xs) = (if p x then f x # xs else x # updateFirst p f xs)"

fun removeFirst :: "('a \<Rightarrow> bool) \<Rightarrow> 'a list \<Rightarrow> 'a list" where
  "removeFirst p [] = []"
| "removeFirst p (x # xs) = (if p x then xs else x # removeFirst p xs)"

lemma length_updateFirst [simp]: "length (updateFirst p f xs) = length xs"
  by (induction xs) auto

lemma map_updateFirst:
  "(\<And>x. p x \<Longrightarrow> g (f x) = g x) \<Longrightarrow> map g (updateFirst p f xs) = map g xs"
  by (induction xs) auto

lemma updateFirst_none: "\<not> (\<exists>x \<in> set xs. p x) \<Longrightarrow> updateFirst p f xs = xs"
  by (induction xs) auto

lemma set_removeFirst_subset: "set (removeFirst p xs) \<subseteq> set xs"
  by (induction xs) auto

lemma removeFirst_none: "\<not> (\<exists>x \<in> set xs. p x) \<Longrightarrow> removeFirst p xs = xs"
  by (induction xs) auto

lemma distinct_map_removeFirst:
  "distinct (map g xs) \<Longrightarrow> distinct (map g (removeFirst p xs))"
  by (induction xs) (auto dest: set_removeFirst_subset [THEN subsetD])

lemma length_removeFirst:
  "length (removeFirst p xs) = (if \<exists>x \<in> set xs. p x then length xs - 1 else length xs)"
  by (induction xs) (auto simp: Suc_diff_Suc neq_Nil_conv dest!: split_list)

text \<open>On a list with pairwise distinct keys the first hit of a key is its only hit.\<close>

lemma removeFirst_key_filter:
  "distinct (map g xs) \<Longrightarrow> removeFirst (\<lambda>x. g x = k) xs = filter (\<lambda>x. g x \<noteq> k) xs"
proof (induction xs)
  case (Cons x xs)
  then have "g x = k \<Longrightarrow> filter (\<lambda>y. g y \<noteq> k) xs = xs"
    by (auto simp: filter_id_conv image_iff)
  with Cons show ?case by auto
qed simp

lemma updateFirst_key_map:
  "distinct (map g xs) \<Longrightarrow>
     updateFirst (\<lambda>x. g x = k) f xs = map (\<lambda>x. if g x = k then f x else x) xs"
proof (induction xs)
  case (Cons x xs)
  then have "g x = k \<Longrightarrow> map (\<lambda>y. if g y = k then f y else y) xs = xs"
    by (auto simp: image_iff intro!: map_idI)
  with Cons show ?case by auto
qed simp

lemma sorted_wrt_removeFirst: "sorted_wrt R xs \<Longrightarrow> sorted_wrt R (removeFirst p xs)"
  by (induction xs) (auto dest: set_removeFirst_subset [THEN subsetD])

section \<open>Searching lists\<close>

lemma find_Some_iff2: "find p xs = Some x \<Longrightarrow> x \<in> set xs \<and> p x"
  by (auto simp: find_Some_iff)

lemma find_key_unique:
  "distinct (map g xs) \<Longrightarrow> x \<in> set xs \<Longrightarrow> find (\<lambda>y. g y = g x) xs = Some x"
  by (induction xs) (auto simp: image_iff)

lemma find_key_Some_iff:
  "distinct (map g xs) \<Longrightarrow> find (\<lambda>y. g y = k) xs = Some x \<longleftrightarrow> x \<in> set xs \<and> g x = k"
  by (induction xs) (auto simp: image_iff)

lemma distinct_set_singleton: "distinct xs \<Longrightarrow> set xs = {x} \<Longrightarrow> xs = [x]"
  by (cases xs; cases "tl xs") auto

text \<open>Decrementing a \<^verbatim>\<open>size_t\<close> that counts a non-empty collection.\<close>

lemma counter_pred: "k = of_nat (Suc c) \<Longrightarrow> k - 1 = (of_nat c :: 64 word)"
  by simp

text \<open>The number of keys of a finite map after one key is set or cleared.\<close>

lemma card_keys_split:
  assumes "finite {m. f m \<noteq> None}"
  shows "card {m. f m \<noteq> None} = card ({m. f m \<noteq> None} - {n}) + (if f n = None then 0 else 1)"
  using card.remove [OF assms, of n] by auto

lemma card_keys_update:
  assumes "finite {m. f m \<noteq> None}" and g: "\<And>m. g m = (if m = n then x else f m)"
  shows "card {m. g m \<noteq> None} + (if f n = None then 0 else 1) =
    card {m. f m \<noteq> None} + (if x = None then 0 else 1)"
proof -
  have "{m. g m \<noteq> None} \<subseteq> insert n {m. f m \<noteq> None}" by (auto simp: g)
  then have "finite {m. g m \<noteq> None}" by (rule finite_subset) (use assms(1) in simp)
  moreover have "{m. g m \<noteq> None} - {n} = {m. f m \<noteq> None} - {n}" by (auto simp: g)
  ultimately show ?thesis
    using card_keys_split [of g n] card_keys_split [OF assms(1), of n] g [of n] by simp
qed

end
