(* ===== verification/NdnTypes.thy ===== *)
theory NdnTypes
  imports Prelude
begin

text \<open>
  The values the daemon receives from the packet library (ndn-cxx, which is not part of this
  repository) and the faces it sends them on. Names, Interests, Data and Nacks are records of
  exactly the fields the daemon reads or writes. A name is a finite sequence of components;
  what the daemon asks of a component or a packet beyond its fields is not defined here but
  collected in the record \<open>ndn_lib\<close>, which every operation that needs it takes as a parameter.
  The locale \<open>ndn_lib_laws\<close> states the documented behaviour of those operations that proofs use.
\<close>

section \<open>Names\<close>

datatype component = Component (tlvType: nat) (tlvValue: string)

type_synonym name = "component list"

text \<open>
  \<^verbatim>\<open>daemon/fw/scope-prefix.cpp\<close>: the two scope-controlled prefixes. TLV-TYPE 8 is a generic
  name component. \<^verbatim>\<open>Name::isPrefixOf\<close> is the list prefix order \<^const>\<open>prefix\<close>.
\<close>

definition LOCALHOST :: name where
  "LOCALHOST = [Component 8 ''localhost'']"

definition LOCALHOP :: name where
  "LOCALHOP = [Component 8 ''localhop'']"

section \<open>Packets\<close>

type_synonym nonce = "32 word"
type_synonym faceId = nat

record interest =
  i_name :: name
  i_canBePrefix :: bool
  i_mustBeFresh :: bool
  i_nonce :: nonce
  i_lifetime :: int \<comment> \<open>milliseconds\<close>
  i_hopLimit :: "8 word option"
  i_forwardingHint :: "name list"
  i_nextHopFaceId :: "faceId option" \<comment> \<open>NextHopFaceIdTag\<close>
  i_incomingFaceId :: "faceId option" \<comment> \<open>IncomingFaceIdTag\<close>
  i_pitToken :: "nat list option" \<comment> \<open>PitToken tag\<close>

record data =
  d_name :: name
  d_digest :: component \<comment> \<open>last component of the full name\<close>
  d_freshnessPeriod :: int \<comment> \<open>milliseconds\<close>
  d_noCache :: bool \<comment> \<open>CachePolicyTag with NO\_CACHE\<close>
  d_incomingFaceId :: "faceId option"
  d_pitToken :: "nat list option"

definition d_fullName :: "data \<Rightarrow> name" where
  "d_fullName d = d_name d @ [d_digest d]"

datatype nackReason = NONE | CONGESTION | DUPLICATE | NO_ROUTE

record nack =
  n_interest :: interest
  n_reason :: nackReason

section \<open>Faces\<close>

datatype faceScope = FACE_SCOPE_LOCAL | FACE_SCOPE_NON_LOCAL

datatype linkType = LINK_TYPE_POINT_TO_POINT | LINK_TYPE_MULTI_ACCESS | LINK_TYPE_AD_HOC

text \<open>
  A face object is identified by its address, so that \<^verbatim>\<open>&a == &b\<close> in the code is equality of
  \<open>faceRef\<close>s; what the forwarding plane reads of the object is the record \<open>face\<close>.
  \<^verbatim>\<open>daemon/face/face-common.hpp\<close> gives the reserved identifiers.
\<close>

type_synonym faceRef = nat

record face =
  f_id :: faceId
  f_scope :: faceScope
  f_linkType :: linkType

definition INVALID_FACEID :: faceId where
  "INVALID_FACEID = 0"

definition FACEID_CONTENT_STORE :: faceId where
  "FACEID_CONTENT_STORE = 254"

definition FACEID_RESERVED_MAX :: faceId where
  "FACEID_RESERVED_MAX = 255"

section \<open>Operations of the packet library\<close>

record ndn_lib =
  isImplicitSha256Digest :: "component \<Rightarrow> bool"
  compareName :: "name \<Rightarrow> name \<Rightarrow> int"
  matchesData :: "interest \<Rightarrow> data \<Rightarrow> bool"
  isVersion :: "component \<Rightarrow> bool"
  getSuccessor :: "name \<Rightarrow> name"

text \<open>
  Documented laws: \<open>compareName\<close> is a total order on names (negative, zero or positive), in
  which a name precedes its extensions and the names that start with a given prefix are
  contiguous; an Interest can only be matched by a Data packet whose name it is a prefix of,
  or whose full name, with the implicit digest at the end, it has; between a name and its
  successor are exactly the names it is a prefix of.
\<close>

locale ndn_lib_laws =
  fixes L :: ndn_lib
  assumes compare_eq: "compareName L a b = 0 \<longleftrightarrow> a = b"
    and compare_antisym: "compareName L a b < 0 \<longleftrightarrow> 0 < compareName L b a"
    and compare_trans: "compareName L a b < 0 \<Longrightarrow> compareName L b c < 0 \<Longrightarrow> compareName L a c < 0"
    and compare_prefix: "strict_prefix a b \<Longrightarrow> compareName L a b < 0"
    and compare_extend: "compareName L a b < 0 \<Longrightarrow> \<not> prefix a b \<Longrightarrow> compareName L (a @ c) (b @ d) < 0"
    and matches_name: "matchesData L i pkt \<Longrightarrow> prefix (i_name i) (d_name pkt) \<or>
          i_name i = d_fullName pkt \<and> isImplicitSha256Digest L (d_digest pkt)"
    and successor: "n \<noteq> [] \<Longrightarrow> compareName L a (getSuccessor L n) < 0 \<longleftrightarrow>
          compareName L a n < 0 \<or> prefix n a"
begin

lemma matches_prefix: "matchesData L i pkt \<Longrightarrow> prefix (i_name i) (d_fullName pkt)"
  using matches_name [of i pkt] by (auto simp: d_fullName_def)

lemma compare_refl [simp]: "compareName L a a = 0"
  by (simp add: compare_eq)

lemma compare_total: "compareName L a b < 0 \<or> a = b \<or> compareName L b a < 0"
  using compare_eq [of a b] compare_antisym [of b a] by linarith

lemma compare_asym: "compareName L a b < 0 \<Longrightarrow> \<not> compareName L b a < 0"
  using compare_antisym [of a b] by linarith

lemma compare_le_trans:
  "compareName L a b \<le> 0 \<Longrightarrow> compareName L b c < 0 \<Longrightarrow> compareName L a c < 0"
  using compare_trans [of a b c] compare_eq [of a b] by (cases "a = b") force+

text \<open>The names with a given prefix are contiguous.\<close>

lemma prefix_contiguous:
  assumes "prefix p a" and "prefix p c" and ab: "\<not> compareName L b a < 0" and bc: "\<not> compareName L c b < 0"
  shows "prefix p b"
proof (rule ccontr)
  assume np: "\<not> prefix p b"
  obtain x y where a: "a = p @ x" and c: "c = p @ y" using assms(1,2) by (auto elim!: prefixE)
  have "p \<noteq> b" using np by auto
  then consider "compareName L p b < 0" | "compareName L b p < 0" using compare_total by blast
  then show False
  proof cases
    case 1
    then show False using compare_extend [OF 1 np, of y "[]"] bc c by simp
  next
    case 2
    show False
    proof (cases "prefix b p")
      case True
      then have "strict_prefix b a" using a np by (auto simp: strict_prefix_def)
      then show False using compare_prefix ab by blast
    next
      case False
      then show False using compare_extend [OF 2 False, of "[]" x] ab a by simp
    qed
  qed
qed

end

section \<open>Three-way comparisons and the canonical order\<close>

text \<open>
  A three-way comparison as \<^verbatim>\<open>compare()\<close> returns it, and its lexicographic lifting to
  sequences. The laws of \<open>ndn_lib_laws\<close> hold of the NDN canonical order: components by type,
  then by length, then byte by byte; names component by component.
\<close>

locale three_way =
  fixes cmp :: "'a \<Rightarrow> 'a \<Rightarrow> int"
  assumes cmp_eq: "cmp a b = 0 \<longleftrightarrow> a = b"
    and cmp_antisym: "cmp a b < 0 \<longleftrightarrow> 0 < cmp b a"
    and cmp_trans: "cmp a b < 0 \<Longrightarrow> cmp b c < 0 \<Longrightarrow> cmp a c < 0"

fun lexCompare :: "('a \<Rightarrow> 'a \<Rightarrow> int) \<Rightarrow> 'a list \<Rightarrow> 'a list \<Rightarrow> int" where
  "lexCompare cmp [] [] = 0"
| "lexCompare cmp [] (y # ys) = -1"
| "lexCompare cmp (x # xs) [] = 1"
| "lexCompare cmp (x # xs) (y # ys) = (if cmp x y \<noteq> 0 then cmp x y else lexCompare cmp xs ys)"

definition thenCompare :: "('a \<Rightarrow> nat) \<Rightarrow> ('a \<Rightarrow> 'a \<Rightarrow> int) \<Rightarrow> 'a \<Rightarrow> 'a \<Rightarrow> int" where
  "thenCompare key cmp a b = (if key a \<noteq> key b then int (key a) - int (key b) else cmp a b)"

context three_way begin

lemma lex_eq: "lexCompare cmp xs ys = 0 \<longleftrightarrow> xs = ys"
proof (induction xs arbitrary: ys)
  case Nil
  show ?case by (cases ys) auto
next
  case (Cons x xs)
  then show ?case by (cases ys) (auto simp: cmp_eq)
qed

lemma lex_antisym: "lexCompare cmp xs ys < 0 \<longleftrightarrow> 0 < lexCompare cmp ys xs"
proof (induction xs arbitrary: ys)
  case Nil
  show ?case by (cases ys) auto
next
  case (Cons x xs)
  show ?case
  proof (cases ys)
    case (Cons y ys')
    with Cons.IH [of ys'] cmp_antisym [of x y] cmp_eq [of x y] cmp_eq [of y x]
    show ?thesis by (cases "x = y") auto
  qed simp
qed

lemma lex_trans:
  "lexCompare cmp xs ys < 0 \<Longrightarrow> lexCompare cmp ys zs < 0 \<Longrightarrow> lexCompare cmp xs zs < 0"
proof (induction xs arbitrary: ys zs)
  case Nil
  then show ?case by (cases ys; cases zs) auto
next
  case (Cons x xs)
  obtain y ys' where ys: "ys = y # ys'"
    using Cons.prems by (cases ys) auto
  obtain z zs' where zs: "zs = z # zs'"
    using Cons.prems ys by (cases zs) auto
  have "cmp x y < 0 \<or> x = y \<and> lexCompare cmp xs ys' < 0"
    using Cons.prems ys cmp_eq [of x y] by (auto split: if_splits)
  moreover have "cmp y z < 0 \<or> y = z \<and> lexCompare cmp ys' zs' < 0"
    using Cons.prems ys zs cmp_eq [of y z] by (auto split: if_splits)
  ultimately have "cmp x z < 0 \<or> x = z \<and> lexCompare cmp xs zs' < 0"
    using Cons.IH [of ys' zs'] cmp_trans [of x y z] by metis
  then show ?case
    using zs cmp_eq [of x z] by auto
qed

lemma lex_prefix: "strict_prefix xs ys \<Longrightarrow> lexCompare cmp xs ys < 0"
proof (induction xs arbitrary: ys)
  case Nil
  then show ?case by (cases ys) auto
next
  case (Cons x xs)
  then show ?case by (cases ys) (auto simp: cmp_eq)
qed

lemma lex_extend:
  "lexCompare cmp xs ys < 0 \<Longrightarrow> \<not> prefix xs ys \<Longrightarrow> lexCompare cmp (xs @ us) (ys @ vs) < 0"
proof (induction xs arbitrary: ys)
  case (Cons x xs)
  then show ?case
    by (cases ys) (auto simp: cmp_eq split: if_splits)
qed simp

end

interpretation natCompare: three_way "\<lambda>a b. int a - int b"
  by unfold_locales auto

definition charCompare :: "char \<Rightarrow> char \<Rightarrow> int" where
  "charCompare a b = int (of_char a) - int (of_char b)"

interpretation charCompare: three_way charCompare
  by unfold_locales (auto simp: charCompare_def)

definition componentCompare :: "component \<Rightarrow> component \<Rightarrow> int" where
  "componentCompare =
     thenCompare tlvType (thenCompare (length \<circ> tlvValue)
       (\<lambda>a b. lexCompare charCompare (tlvValue a) (tlvValue b)))"

interpretation componentCompare: three_way componentCompare
proof
  fix a b c :: component
  show "componentCompare a b = 0 \<longleftrightarrow> a = b"
    by (cases a; cases b) (auto simp: componentCompare_def thenCompare_def charCompare.lex_eq)
  show "componentCompare a b < 0 \<longleftrightarrow> 0 < componentCompare b a"
    by (auto simp: componentCompare_def thenCompare_def charCompare.lex_antisym)
  show "componentCompare a b < 0 \<Longrightarrow> componentCompare b c < 0 \<Longrightarrow> componentCompare a c < 0"
    using charCompare.lex_trans [of "tlvValue a" "tlvValue b" "tlvValue c"]
    by (auto simp: componentCompare_def thenCompare_def split: if_splits)
qed

text \<open>
  The successor of a name has its last component advanced to the next possible value: the
  value plus one, read as a big-endian number, or zeros of one more byte after all ones.
\<close>

fun incrementBytes :: "string \<Rightarrow> string option" where
  "incrementBytes [] = None"
| "incrementBytes (c # cs) =
     (case incrementBytes cs of
        Some ds \<Rightarrow> Some (c # ds)
      | None \<Rightarrow> if of_char c = (255 :: nat) then None
                else Some (char_of (of_char c + 1 :: nat) # replicate (length cs) (CHR 0x00)))"

definition componentSuccessor :: "component \<Rightarrow> component" where
  "componentSuccessor c = Component (tlvType c)
     (case incrementBytes (tlvValue c) of
        Some v \<Rightarrow> v | None \<Rightarrow> replicate (Suc (length (tlvValue c))) (CHR 0x00))"

definition nameSuccessor :: "name \<Rightarrow> name" where
  "nameSuccessor n = (if n = [] then [Component 8 []] else butlast n @ [componentSuccessor (last n)])"

lemma charCompare_zero: "charCompare a (CHR 0x00) = int (of_char a)"
  by (simp add: charCompare_def)

lemma lexCompare_zeros: "\<not> lexCompare charCompare a (replicate (length a) (CHR 0x00)) < 0"
  by (induction a) (simp_all add: charCompare_zero)

lemma length_incrementBytes: "incrementBytes v = Some w \<Longrightarrow> length w = length v"
  by (induction v arbitrary: w) (auto split: option.splits if_splits)

lemma incrementBytes_None:
  "incrementBytes v = None \<Longrightarrow> length a = length v \<Longrightarrow> lexCompare charCompare a v \<le> 0"
proof (induction v arbitrary: a)
  case (Cons c cs)
  then obtain x xs where a: "a = x # xs" by (cases a) auto
  have c: "of_char c = (255 :: nat)" "incrementBytes cs = None"
    using Cons.prems by (auto split: option.splits if_splits)
  have "charCompare x c \<le> 0" unfolding charCompare_def using nat_of_char_less_256 [of x] c(1) by linarith
  then show ?case using Cons a c(2) by auto
qed simp

lemma incrementBytes_Some:
  "incrementBytes v = Some w \<Longrightarrow> length a = length v \<Longrightarrow>
   lexCompare charCompare a w < 0 \<longleftrightarrow> lexCompare charCompare a v \<le> 0"
proof (induction v arbitrary: a w)
  case (Cons c cs)
  then obtain x xs where a: "a = x # xs" and len: "length xs = length cs" by (cases a) auto
  show ?case
  proof (cases "incrementBytes cs")
    case (Some ds)
    then show ?thesis using Cons a len by auto
  next
    case None
    then have c: "of_char c \<noteq> (255 :: nat)"
      and w: "w = char_of (of_char c + 1 :: nat) # replicate (length cs) (CHR 0x00)"
      using Cons.prems by (auto split: if_splits)
    have "of_char c + 1 < (256 :: nat)" using nat_of_char_less_256 [of c] c by linarith
    then have oc: "of_char (char_of (of_char c + 1 :: nat)) = (of_char c + 1 :: nat)"
      unfolding of_char_of by (rule mod_less)
    have z: "\<not> lexCompare charCompare xs (replicate (length cs) (CHR 0x00)) < 0"
      using lexCompare_zeros [of xs] len by simp
    have cc: "charCompare x (char_of (of_char c + 1 :: nat)) = charCompare x c - 1"
      unfolding charCompare_def oc by simp
    show ?thesis
      using incrementBytes_None [OF None len] z unfolding a w lexCompare.simps cc
      by (cases "charCompare x c < 0"; cases "charCompare x c = 0"; cases "charCompare x c = 1") auto
  qed
qed simp

lemma componentSuccessor_law:
  "componentCompare b (componentSuccessor c) < 0 \<longleftrightarrow> componentCompare b c \<le> 0"
proof (cases "tlvType b = tlvType c")
  case False
  then show ?thesis
    by (simp add: componentCompare_def thenCompare_def componentSuccessor_def le_less)
next
  case True
  show ?thesis
  proof (cases "incrementBytes (tlvValue c)")
    case None
    show ?thesis
    proof (cases "length (tlvValue b) = Suc (length (tlvValue c))")
      case True
      then show ?thesis
        using \<open>tlvType b = tlvType c\<close> None lexCompare_zeros [of "tlvValue b"]
        by (simp add: componentCompare_def thenCompare_def componentSuccessor_def)
    next
      case False
      then show ?thesis
        using \<open>tlvType b = tlvType c\<close> None incrementBytes_None [OF None, of "tlvValue b"]
        by (simp add: componentCompare_def thenCompare_def componentSuccessor_def) linarith
    qed
  next
    case (Some w)
    then show ?thesis
      using True incrementBytes_Some [OF Some, of "tlvValue b"] length_incrementBytes [OF Some]
      by (auto simp: componentCompare_def thenCompare_def componentSuccessor_def)
  qed
qed

lemma lexCompare_Nil_right: "\<not> lexCompare cmp xs [] < 0"
  by (cases xs) auto

lemma nameSuccessor_law:
  assumes "n \<noteq> []"
  shows "lexCompare componentCompare a (nameSuccessor n) < 0 \<longleftrightarrow>
    lexCompare componentCompare a n < 0 \<or> prefix n a"
proof -
  have "lexCompare componentCompare a (m @ [componentSuccessor c]) < 0 \<longleftrightarrow>
      lexCompare componentCompare a (m @ [c]) < 0 \<or> prefix (m @ [c]) a" for m c
  proof (induction m arbitrary: a)
    case Nil
    show ?case
    proof (cases a)
      case (Cons x xs)
      have "componentCompare x (componentSuccessor c) < 0 \<longleftrightarrow> componentCompare x c < 0 \<or> x = c"
        using componentSuccessor_law [of x c] componentCompare.cmp_eq [of x c] by linarith
      then show ?thesis
        using Cons lexCompare_Nil_right [of componentCompare xs] componentCompare.cmp_eq [of x c] by auto
    qed simp
  next
    case (Cons y ys)
    then show ?case
      using componentCompare.cmp_eq by (cases a) auto
  qed
  from this [of "butlast n" "last n"] show ?thesis
    using assms by (simp add: nameSuccessor_def)
qed

definition canonicalLib :: ndn_lib where
  "canonicalLib = \<lparr>
     isImplicitSha256Digest = (\<lambda>c. tlvType c = 1),
     compareName = lexCompare componentCompare,
     matchesData = (\<lambda>i d. i_name i = d_name d \<or>
                          i_name i = d_fullName d \<and> tlvType (d_digest d) = 1 \<or>
                          i_canBePrefix i \<and> prefix (i_name i) (d_name d)),
     isVersion = (\<lambda>c. tlvType c = 54),
     getSuccessor = nameSuccessor\<rparr>"

interpretation canonical: ndn_lib_laws canonicalLib
proof
  fix a b c d :: name
  note [simp] = canonicalLib_def
  show "compareName canonicalLib a b = 0 \<longleftrightarrow> a = b"
    by (simp add: componentCompare.lex_eq)
  show "compareName canonicalLib a b < 0 \<longleftrightarrow> 0 < compareName canonicalLib b a"
    by (simp add: componentCompare.lex_antisym)
  show "compareName canonicalLib a b < 0 \<Longrightarrow> compareName canonicalLib b c < 0 \<Longrightarrow>
        compareName canonicalLib a c < 0"
    using componentCompare.lex_trans by simp
  show "strict_prefix a b \<Longrightarrow> compareName canonicalLib a b < 0"
    using componentCompare.lex_prefix by simp
  show "compareName canonicalLib a b < 0 \<Longrightarrow> \<not> prefix a b \<Longrightarrow>
        compareName canonicalLib (a @ c) (b @ d) < 0"
    using componentCompare.lex_extend by simp
  show "n \<noteq> [] \<Longrightarrow> compareName canonicalLib a (getSuccessor canonicalLib n) < 0 \<longleftrightarrow>
        compareName canonicalLib a n < 0 \<or> prefix n a" for n
    using nameSuccessor_law by simp
qed (auto simp: canonicalLib_def d_fullName_def)

end
