(* ===== verification/NameTreeHashtable.thy ===== *)
theory NameTreeHashtable
  imports NdnTypes "HOL-Library.Multiset"
begin

text \<open>
  \<^verbatim>\<open>daemon/table/name-tree-hashtable.cpp\<close>: the name prefix hash table below the name tree.
  A bucket's doubly linked list of nodes is a list whose head is the bucket pointer; a node is
  found in its bucket by hash value and name. The operations are polymorphic in what a node
  stores. The theory shows that the table, resizing included, implements a finite map from
  names (locale \<open>name_index\<close>), which is how the name tree uses it.
\<close>

section \<open>Hash values\<close>

text \<open>
  \<open>hc\<close> stands for \<^verbatim>\<open>HashFunc::compute(comp.wire(), comp.size())\<close>: the hash of the wire
  encoding of one component, whose encoding belongs to the packet library.
\<close>

type_synonym hashValue = "64 word"

unbundle bit_operations_syntax

fun hashPrefix :: "(component \<Rightarrow> hashValue) \<Rightarrow> hashValue \<Rightarrow> component list \<Rightarrow> hashValue" where
  "hashPrefix hc h [] = h"
| "hashPrefix hc h (c # cs) = hashPrefix hc (h XOR hc c) cs"

definition computeHash :: "(component \<Rightarrow> hashValue) \<Rightarrow> name \<Rightarrow> nat \<Rightarrow> hashValue" where
  "computeHash hc name prefixLen = hashPrefix hc 0 (take (min prefixLen (length name)) name)"

fun hashSequence :: "(component \<Rightarrow> hashValue) \<Rightarrow> hashValue \<Rightarrow> component list \<Rightarrow> hashValue list" where
  "hashSequence hc h [] = []"
| "hashSequence hc h (c # cs) = (let h' = h XOR hc c in h' # hashSequence hc h' cs)"

definition computeHashes :: "(component \<Rightarrow> hashValue) \<Rightarrow> name \<Rightarrow> nat \<Rightarrow> hashValue list" where
  "computeHashes hc name prefixLen =
     0 # hashSequence hc 0 (take (min prefixLen (length name)) name)"

section \<open>The table\<close>

text \<open>
  The load and resize factors are fractions: \<open>scaleBy (p, q) n\<close> is
  \<^verbatim>\<open>static_cast<size_t>(p/q * n)\<close>.
\<close>

type_synonym factor = "nat \<times> nat"

definition scaleBy :: "factor \<Rightarrow> nat \<Rightarrow> nat" where
  "scaleBy f n = fst f * n div snd f"

record ht_options =
  initialSize :: nat
  minSize :: nat
  expandLoadFactor :: factor
  expandFactor :: factor
  shrinkLoadFactor :: factor
  shrinkFactor :: factor

definition HashtableOptions :: "nat \<Rightarrow> ht_options" where
  "HashtableOptions sz = \<lparr>initialSize = sz, minSize = sz,
     expandLoadFactor = (1, 2), expandFactor = (2, 1),
     shrinkLoadFactor = (1, 10), shrinkFactor = (1, 2)\<rparr>"

record 'e ht_node =
  nd_hash :: hashValue
  nd_name :: name
  nd_entry :: 'e

record 'e hashtable =
  m_buckets :: "'e ht_node list list"
  m_options :: ht_options
  m_size :: nat
  m_expandThreshold :: nat
  m_shrinkThreshold :: nat

definition getNBuckets :: "'e hashtable \<Rightarrow> nat" where
  "getNBuckets ht = length (m_buckets ht)"

definition computeBucketIndex :: "'e hashtable \<Rightarrow> hashValue \<Rightarrow> nat" where
  "computeBucketIndex ht h = unat h mod getNBuckets ht"

definition computeThresholds :: "'e hashtable \<Rightarrow> 'e hashtable" where
  "computeThresholds ht = ht\<lparr>
     m_expandThreshold := scaleBy (expandLoadFactor (m_options ht)) (getNBuckets ht),
     m_shrinkThreshold := scaleBy (shrinkLoadFactor (m_options ht)) (getNBuckets ht)\<rparr>"

definition Hashtable :: "ht_options \<Rightarrow> 'e hashtable" where
  "Hashtable opts = computeThresholds
     \<lparr>m_buckets = replicate (initialSize opts) [], m_options = opts, m_size = 0,
      m_expandThreshold = 0, m_shrinkThreshold = 0\<rparr>"

definition ht_attach :: "nat \<Rightarrow> 'e ht_node \<Rightarrow> 'e hashtable \<Rightarrow> 'e hashtable" where
  "ht_attach bucket node ht =
     ht\<lparr>m_buckets := (m_buckets ht)[bucket := node # m_buckets ht ! bucket]\<rparr>"

definition ht_detach :: "nat \<Rightarrow> name \<Rightarrow> 'e hashtable \<Rightarrow> 'e hashtable" where
  "ht_detach bucket n ht =
     ht\<lparr>m_buckets := (m_buckets ht)[bucket := removeFirst (\<lambda>nd. nd_name nd = n) (m_buckets ht ! bucket)]\<rparr>"

text \<open>\<open>foreachNode\<close> over every old bucket, in order, attaching to the new buckets.\<close>

definition ht_reattach :: "'e ht_node \<Rightarrow> 'e hashtable \<Rightarrow> 'e hashtable" where
  "ht_reattach node ht = ht_attach (computeBucketIndex ht (nd_hash node)) node ht"

definition ht_resize :: "nat \<Rightarrow> 'e hashtable \<Rightarrow> 'e hashtable" where
  "ht_resize newNBuckets ht =
     (if getNBuckets ht = newNBuckets then ht
      else computeThresholds
        (fold ht_reattach (concat (m_buckets ht)) (ht\<lparr>m_buckets := replicate newNBuckets []\<rparr>)))"

definition ht_findOrInsert ::
  "(name \<Rightarrow> 'e) \<Rightarrow> name \<Rightarrow> nat \<Rightarrow> hashValue \<Rightarrow> bool \<Rightarrow> 'e hashtable
     \<Rightarrow> ('e ht_node option \<times> bool) \<times> 'e hashtable" where
  "ht_findOrInsert new name prefixLen h allowInsert ht =
     (let bucket = computeBucketIndex ht h in
      case find (\<lambda>nd. nd_hash nd = h \<and> take prefixLen name = nd_name nd) (m_buckets ht ! bucket) of
        Some node \<Rightarrow> ((Some node, False), ht)
      | None \<Rightarrow>
          if \<not> allowInsert then ((None, False), ht)
          else
            let node = \<lparr>nd_hash = h, nd_name = take prefixLen name, nd_entry = new (take prefixLen name)\<rparr>;
                ht1 = ht_attach bucket node ht;
                ht2 = ht1\<lparr>m_size := m_size ht1 + 1\<rparr>;
                ht3 = (if m_size ht2 > m_expandThreshold ht2
                       then ht_resize (scaleBy (expandFactor (m_options ht2)) (getNBuckets ht2)) ht2
                       else ht2)
            in ((Some node, True), ht3))"

definition ht_find :: "(component \<Rightarrow> hashValue) \<Rightarrow> (name \<Rightarrow> 'e) \<Rightarrow> name \<Rightarrow> nat \<Rightarrow> 'e hashtable \<Rightarrow> 'e ht_node option" where
  "ht_find hc new name prefixLen ht =
     fst (fst (ht_findOrInsert new name prefixLen (computeHash hc name prefixLen) False ht))"

definition ht_find_hashes :: "(name \<Rightarrow> 'e) \<Rightarrow> name \<Rightarrow> nat \<Rightarrow> hashValue list \<Rightarrow> 'e hashtable \<Rightarrow> 'e ht_node option" where
  "ht_find_hashes new name prefixLen hashes ht =
     fst (fst (ht_findOrInsert new name prefixLen (hashes ! prefixLen) False ht))"

definition ht_insert ::
  "(name \<Rightarrow> 'e) \<Rightarrow> name \<Rightarrow> nat \<Rightarrow> hashValue list \<Rightarrow> 'e hashtable
     \<Rightarrow> ('e ht_node option \<times> bool) \<times> 'e hashtable" where
  "ht_insert new name prefixLen hashes ht =
     ht_findOrInsert new name prefixLen (hashes ! prefixLen) True ht"

definition ht_erase :: "'e ht_node \<Rightarrow> 'e hashtable \<Rightarrow> 'e hashtable" where
  "ht_erase node ht =
     (let ht1 = ht_detach (computeBucketIndex ht (nd_hash node)) (nd_name node) ht;
          ht2 = ht1\<lparr>m_size := m_size ht1 - 1\<rparr>
      in if m_size ht2 < m_shrinkThreshold ht2
         then ht_resize (max (minSize (m_options ht2))
                             (scaleBy (shrinkFactor (m_options ht2)) (getNBuckets ht2))) ht2
         else ht2)"

section \<open>Hash sequences\<close>

lemma hashSequence_nth:
  "i < length cs \<Longrightarrow> hashSequence hc h cs ! i = hashPrefix hc h (take (Suc i) cs)"
proof (induction cs arbitrary: h i)
  case (Cons c cs)
  then show ?case by (cases i) (auto simp: Let_def)
qed simp

lemma length_hashSequence [simp]: "length (hashSequence hc h cs) = length cs"
  by (induction cs arbitrary: h) (auto simp: Let_def)

lemma computeHashes_nth_aux:
  assumes "i \<le> prefixLen" and "i \<le> length name"
  shows "computeHashes hc name prefixLen ! i = computeHash hc name i"
proof (cases i)
  case 0
  then show ?thesis by (simp add: computeHashes_def computeHash_def)
next
  case (Suc j)
  then have "j < length (take (min prefixLen (length name)) name)"
    using assms by simp
  then have "hashSequence hc 0 (take (min prefixLen (length name)) name) ! j
      = hashPrefix hc 0 (take (Suc j) (take (min prefixLen (length name)) name))"
    by (rule hashSequence_nth)
  then show ?thesis
    using Suc assms by (simp add: computeHashes_def computeHash_def min_def)
qed

lemma computeHash_take: "computeHash hc (take k name) k = computeHash hc name k"
  by (simp add: computeHash_def min_def)

section \<open>Well-formed tables\<close>

definition nameHash :: "(component \<Rightarrow> hashValue) \<Rightarrow> name \<Rightarrow> hashValue" where
  "nameHash hc n = computeHash hc n (length n)"

definition options_ok :: "ht_options \<Rightarrow> bool" where
  "options_ok opts \<longleftrightarrow> 0 < minSize opts \<and> minSize opts \<le> initialSize opts \<and>
     0 < snd (expandFactor opts) \<and> snd (expandFactor opts) \<le> fst (expandFactor opts)"

definition bucketsPlaced :: "(component \<Rightarrow> hashValue) \<Rightarrow> 'e hashtable \<Rightarrow> bool" where
  "bucketsPlaced hc ht \<longleftrightarrow> (\<forall>i < getNBuckets ht. \<forall>nd \<in> set (m_buckets ht ! i).
     nd_hash nd = nameHash hc (nd_name nd) \<and> computeBucketIndex ht (nd_hash nd) = i)"

definition ht_nodes :: "'e hashtable \<Rightarrow> 'e ht_node list" where
  "ht_nodes ht = concat (m_buckets ht)"

definition ht_inv :: "(component \<Rightarrow> hashValue) \<Rightarrow> 'e hashtable \<Rightarrow> bool" where
  "ht_inv hc ht \<longleftrightarrow> 0 < getNBuckets ht \<and> options_ok (m_options ht) \<and> bucketsPlaced hc ht \<and>
     distinct (map nd_name (ht_nodes ht)) \<and> m_size ht = length (ht_nodes ht)"

lemma computeThresholds_simps [simp]:
  "m_buckets (computeThresholds ht) = m_buckets ht"
  "m_options (computeThresholds ht) = m_options ht"
  "m_size (computeThresholds ht) = m_size ht"
  "getNBuckets (computeThresholds ht) = getNBuckets ht"
  "computeBucketIndex (computeThresholds ht) h = computeBucketIndex ht h"
  "ht_nodes (computeThresholds ht) = ht_nodes ht"
  by (simp_all add: computeThresholds_def getNBuckets_def computeBucketIndex_def ht_nodes_def)

lemma bucketsPlaced_cong:
  "m_buckets ht = m_buckets ht' \<Longrightarrow> bucketsPlaced hc ht = bucketsPlaced hc ht'"
  by (simp add: bucketsPlaced_def getNBuckets_def computeBucketIndex_def)

lemma computeBucketIndex_less: "0 < getNBuckets ht \<Longrightarrow> computeBucketIndex ht h < getNBuckets ht"
  by (simp add: computeBucketIndex_def)

lemma mset_concat_update:
  assumes "b < length xss"
  shows "mset (concat (xss[b := ys])) + mset (xss ! b) = mset ys + mset (concat xss)"
proof -
  let ?A = "mset (concat (take b xss))" and ?B = "mset (concat (drop (Suc b) xss))"
  have "mset (concat (xss[b := ys])) = ?A + (mset ys + ?B)"
    using assms by (simp add: upd_conv_take_nth_drop)
  moreover have "mset (concat xss) = ?A + (mset (xss ! b) + ?B)"
    by (subst id_take_nth_drop [OF assms]) (simp only: concat_append concat.simps mset_append)
  ultimately show ?thesis by (simp only: ac_simps)
qed

lemma in_ht_nodes:
  "nd \<in> set (ht_nodes ht) \<longleftrightarrow> (\<exists>i < getNBuckets ht. nd \<in> set (m_buckets ht ! i))"
  by (auto simp: ht_nodes_def getNBuckets_def set_conv_nth [of "m_buckets ht"])

lemma bucketsPlacedD:
  "bucketsPlaced hc ht \<Longrightarrow> i < getNBuckets ht \<Longrightarrow> nd \<in> set (m_buckets ht ! i) \<Longrightarrow>
     nd_hash nd = nameHash hc (nd_name nd) \<and> computeBucketIndex ht (nd_hash nd) = i"
  unfolding bucketsPlaced_def by blast

lemma placed_bucket:
  assumes "bucketsPlaced hc ht" and "nd \<in> set (ht_nodes ht)"
  shows "nd \<in> set (m_buckets ht ! computeBucketIndex ht (nameHash hc (nd_name nd)))"
    and "nd_hash nd = nameHash hc (nd_name nd)"
proof -
  obtain i where i: "i < getNBuckets ht" "nd \<in> set (m_buckets ht ! i)"
    using assms(2) in_ht_nodes by blast
  note h = bucketsPlacedD [OF assms(1) i]
  then show "nd_hash nd = nameHash hc (nd_name nd)" ..
  show "nd \<in> set (m_buckets ht ! computeBucketIndex ht (nameHash hc (nd_name nd)))"
    using h i by metis
qed

subsection \<open>Attaching, detaching, resizing\<close>

lemma ht_attach_frame [simp]:
  "m_options (ht_attach b nd ht) = m_options ht"
  "m_size (ht_attach b nd ht) = m_size ht"
  "getNBuckets (ht_attach b nd ht) = getNBuckets ht"
  "computeBucketIndex (ht_attach b nd ht) h = computeBucketIndex ht h"
  by (simp_all add: ht_attach_def getNBuckets_def computeBucketIndex_def)

lemma mset_ht_attach:
  assumes "b < getNBuckets ht"
  shows "mset (ht_nodes (ht_attach b nd ht)) = add_mset nd (mset (ht_nodes ht))"
  using mset_concat_update [of b "m_buckets ht" "nd # m_buckets ht ! b"] assms
  by (simp add: ht_nodes_def ht_attach_def getNBuckets_def)

lemma placed_ht_attach:
  assumes "bucketsPlaced hc ht" and "nd_hash nd = nameHash hc (nd_name nd)"
    and "b = computeBucketIndex ht (nd_hash nd)"
  shows "bucketsPlaced hc (ht_attach b nd ht)"
  unfolding bucketsPlaced_def
proof (intro allI impI ballI)
  fix i nd'
  assume i: "i < getNBuckets (ht_attach b nd ht)" and nd': "nd' \<in> set (m_buckets (ht_attach b nd ht) ! i)"
  show "nd_hash nd' = nameHash hc (nd_name nd') \<and> computeBucketIndex (ht_attach b nd ht) (nd_hash nd') = i"
  proof (cases "i = b \<and> nd' = nd")
    case True
    with assms show ?thesis by simp
  next
    case False
    with i nd' have "nd' \<in> set (m_buckets ht ! i)"
      by (cases "i = b") (auto simp: ht_attach_def getNBuckets_def)
    with i assms(1) bucketsPlacedD show ?thesis by (metis ht_attach_frame(3,4))
  qed
qed

lemma fold_ht_reattach:
  assumes "0 < getNBuckets ht" and "bucketsPlaced hc ht"
    and "\<forall>nd \<in> set nds. nd_hash nd = nameHash hc (nd_name nd)"
  shows "getNBuckets (fold ht_reattach nds ht) = getNBuckets ht \<and>
         bucketsPlaced hc (fold ht_reattach nds ht) \<and>
         mset (ht_nodes (fold ht_reattach nds ht)) = mset nds + mset (ht_nodes ht) \<and>
         m_options (fold ht_reattach nds ht) = m_options ht \<and>
         m_size (fold ht_reattach nds ht) = m_size ht"
  using assms
proof (induction nds arbitrary: ht)
  case (Cons nd nds)
  let ?ht = "ht_reattach nd ht"
  have "bucketsPlaced hc ?ht" and "0 < getNBuckets ?ht"
    using Cons.prems by (auto simp: ht_reattach_def intro: placed_ht_attach)
  then show ?case
    using Cons.IH [of ?ht] Cons.prems
    by (simp add: ht_reattach_def mset_ht_attach computeBucketIndex_less)
qed simp

lemma ht_resize_aux:
  assumes "ht_inv hc ht" and "0 < n"
  shows "ht_inv hc (ht_resize n ht) \<and> mset (ht_nodes (ht_resize n ht)) = mset (ht_nodes ht)"
proof (cases "getNBuckets ht = n")
  case True
  then show ?thesis using assms by (simp add: ht_resize_def)
next
  case False
  define ht0 where "ht0 = ht\<lparr>m_buckets := replicate n []\<rparr>"
  have hashes: "\<forall>nd \<in> set (ht_nodes ht). nd_hash nd = nameHash hc (nd_name nd)"
    using assms(1) placed_bucket(2) ht_inv_def by blast
  have empty: "ht_nodes ht0 = []" "getNBuckets ht0 = n" "bucketsPlaced hc ht0"
    by (auto simp: ht0_def ht_nodes_def getNBuckets_def bucketsPlaced_def)
  have r: "ht_resize n ht = computeThresholds (fold ht_reattach (ht_nodes ht) ht0)"
    using False by (simp add: ht_resize_def ht0_def ht_nodes_def)
  have pos: "0 < getNBuckets ht0"
    using empty(2) assms(2) by simp
  note f = fold_ht_reattach [OF pos empty(3) hashes]
  have m: "mset (ht_nodes (ht_resize n ht)) = mset (ht_nodes ht)"
    using f empty(1) by (simp add: r)
  have "distinct (map nd_name (ht_nodes (ht_resize n ht))) \<longleftrightarrow> distinct (map nd_name (ht_nodes ht))"
    using m by (intro mset_eq_imp_distinct_iff) (simp only: mset_map)
  moreover have "m_size (ht_resize n ht) = m_size ht"
    using f by (simp add: r ht0_def)
  moreover have "length (ht_nodes (ht_resize n ht)) = length (ht_nodes ht)"
    using m by (rule mset_eq_length)
  moreover have "bucketsPlaced hc (ht_resize n ht)"
    unfolding r using f bucketsPlaced_cong [OF computeThresholds_simps(1)] by blast
  moreover have "getNBuckets (ht_resize n ht) = n" "m_options (ht_resize n ht) = m_options ht"
    using f empty(2) by (simp_all add: r ht0_def)
  ultimately show ?thesis
    using assms m by (simp add: ht_inv_def)
qed

subsection \<open>Lookup\<close>

definition nodeOf :: "name \<Rightarrow> 'e hashtable \<Rightarrow> 'e ht_node option" where
  "nodeOf n ht = find (\<lambda>nd. nd_name nd = n) (ht_nodes ht)"

lemma find_key_set_cong:
  assumes "distinct (map g xs)" and "distinct (map g ys)" and "set xs = set ys"
  shows "find (\<lambda>x. g x = k) xs = find (\<lambda>x. g x = k) ys"
  using assms find_key_Some_iff [of g xs k] find_key_Some_iff [of g ys k]
  by (metis (no_types, lifting) not_None_eq)

lemma nodeOf_Some: "ht_inv hc ht \<Longrightarrow> nodeOf n ht = Some nd \<longleftrightarrow> nd \<in> set (ht_nodes ht) \<and> nd_name nd = n"
  by (simp add: nodeOf_def ht_inv_def find_key_Some_iff)

lemma bucket_search:
  assumes inv: "ht_inv hc ht"
  shows "find (\<lambda>nd. nd_hash nd = nameHash hc n \<and> n = nd_name nd)
           (m_buckets ht ! computeBucketIndex ht (nameHash hc n)) = nodeOf n ht"
    (is "find ?P ?bucket = _")
proof -
  have placed: "bucketsPlaced hc ht" and pos: "0 < getNBuckets ht"
    using inv by (simp_all add: ht_inv_def)
  have sub: "set ?bucket \<subseteq> set (ht_nodes ht)"
    using computeBucketIndex_less [OF pos] in_ht_nodes by blast
  have hit: "nodeOf n ht = Some nd" if "find ?P ?bucket = Some nd" for nd
    using that sub nodeOf_Some [OF inv] by (auto dest!: find_Some_iff2)
  have miss: "find ?P ?bucket \<noteq> None" if "nodeOf n ht = Some nd" for nd
  proof -
    have nd: "nd \<in> set (ht_nodes ht)" and n: "n = nd_name nd"
      using that [unfolded nodeOf_Some [OF inv]] by simp_all
    have "nd \<in> set ?bucket" and "?P nd"
      unfolding n using placed_bucket [OF placed nd] by blast+
    then show ?thesis unfolding find_None_iff by blast
  qed
  show ?thesis
  proof (cases "find ?P ?bucket")
    case None
    then have "nodeOf n ht = None"
      using miss by (cases "nodeOf n ht") simp_all
    with None show ?thesis by simp
  next
    case (Some nd)
    with hit [OF this] show ?thesis by simp
  qed
qed

lemma hash_take: "k \<le> length name \<Longrightarrow> computeHash hc name k = nameHash hc (take k name)"
  by (simp add: nameHash_def computeHash_def min_def)

lemma ht_find_nodeOf:
  assumes "ht_inv hc ht" and "k \<le> length name"
  shows "ht_find hc new name k ht = nodeOf (take k name) ht"
  using bucket_search [OF assms(1), of "take k name"] assms(2)
  by (simp add: ht_find_def ht_findOrInsert_def hash_take Let_def split: option.split)

lemma ht_find_hashes_eq:
  assumes "k \<le> length name"
  shows "ht_find_hashes new name k (computeHashes hc name (length name)) ht = ht_find hc new name k ht"
  using assms by (simp add: ht_find_hashes_def ht_find_def computeHashes_nth_aux)

subsection \<open>Insertion and removal\<close>

lemma options_ok_expand:
  assumes "options_ok opts" and "0 < n"
  shows "0 < scaleBy (expandFactor opts) n"
proof -
  obtain p q where f: "expandFactor opts = (p, q)" by (cases "expandFactor opts")
  then have "0 < q" and "q \<le> p"
    using assms(1) by (simp_all add: options_ok_def)
  moreover have "p * 1 \<le> p * n"
    using assms(2) by (intro mult_le_mono) simp_all
  ultimately have "0 < q" and "q \<le> p * n" by linarith+
  then show ?thesis
    by (simp add: scaleBy_def f div_greater_zero_iff)
qed

lemma nodeOf_mset_cong:
  assumes "ht_inv hc ht" and "ht_inv hc ht'" and "mset (ht_nodes ht) = mset (ht_nodes ht')"
  shows "nodeOf n ht = nodeOf n ht'"
  unfolding nodeOf_def
  by (rule find_key_set_cong) (use assms mset_eq_setD in \<open>auto simp: ht_inv_def\<close>)

lemma ht_attach_inv:
  assumes inv: "ht_inv hc ht" and hash: "nd_hash nd = nameHash hc (nd_name nd)"
    and new: "nodeOf (nd_name nd) ht = None"
  defines "ht' \<equiv> (ht_attach (computeBucketIndex ht (nd_hash nd)) nd ht)\<lparr>m_size := m_size ht + 1\<rparr>"
  shows "ht_inv hc ht'" and "nodeOf n ht' = (if n = nd_name nd then Some nd else nodeOf n ht)"
proof -
  have pos: "0 < getNBuckets ht" using inv by (simp add: ht_inv_def)
  have nodes: "mset (ht_nodes ht') = add_mset nd (mset (ht_nodes ht))"
    using mset_ht_attach [OF computeBucketIndex_less [OF pos]] by (simp add: ht'_def ht_nodes_def)
  have fresh: "nd_name nd \<notin> set (map nd_name (ht_nodes ht))"
    using new by (auto simp: nodeOf_def find_None_iff)
  have "distinct (map nd_name (ht_nodes ht')) \<longleftrightarrow> distinct (map nd_name (nd # ht_nodes ht))"
    using nodes by (intro mset_eq_imp_distinct_iff) (simp only: mset_map mset.simps)
  then have dist: "distinct (map nd_name (ht_nodes ht'))"
    using fresh inv by (simp add: ht_inv_def)
  have "length (ht_nodes ht') = Suc (length (ht_nodes ht))"
    using nodes by (metis size_mset size_add_mset)
  moreover have "bucketsPlaced hc ht'"
    using placed_ht_attach [OF _ hash refl] inv
      bucketsPlaced_cong [of ht' "ht_attach (computeBucketIndex ht (nd_hash nd)) nd ht" hc]
    by (simp add: ht'_def ht_inv_def)
  ultimately show inv': "ht_inv hc ht'"
    using dist inv by (simp add: ht_inv_def ht'_def getNBuckets_def ht_attach_def)
  have "set (ht_nodes ht') = insert nd (set (ht_nodes ht))"
    using nodes by (metis set_mset_add_mset_insert set_mset_mset)
  then have "nodeOf n ht' = Some x \<longleftrightarrow> (if n = nd_name nd then Some nd else nodeOf n ht) = Some x" for x
    using nodeOf_Some [OF inv', of n x] nodeOf_Some [OF inv, of n x] fresh
    by (auto simp: image_iff)
  then show "nodeOf n ht' = (if n = nd_name nd then Some nd else nodeOf n ht)"
    by (metis option.exhaust)
qed

lemma ht_detach_inv:
  assumes inv: "ht_inv hc ht" and nd: "nodeOf n ht = Some nd"
  defines "ht' \<equiv> (ht_detach (computeBucketIndex ht (nd_hash nd)) n ht)\<lparr>m_size := m_size ht - 1\<rparr>"
  shows "ht_inv hc ht'" and "nodeOf m ht' = (if m = n then None else nodeOf m ht)"
proof -
  let ?b = "computeBucketIndex ht (nd_hash nd)"
  let ?bucket = "m_buckets ht ! ?b"
  have pos: "0 < getNBuckets ht" and placed: "bucketsPlaced hc ht"
    and dist: "distinct (map nd_name (ht_nodes ht))" and size: "m_size ht = length (ht_nodes ht)"
    using inv by (simp_all add: ht_inv_def)
  have b: "?b < length (m_buckets ht)"
    using computeBucketIndex_less [OF pos] by (simp add: getNBuckets_def)
  have in_nodes: "nd \<in> set (ht_nodes ht)" and n: "nd_name nd = n"
    using nd [unfolded nodeOf_Some [OF inv]] by simp_all
  have in_bucket: "nd \<in> set ?bucket"
    using placed_bucket [OF placed in_nodes] by simp
  have hash: "nd_hash nd = nameHash hc n"
    using placed_bucket(2) [OF placed in_nodes] n by simp
  have buckets: "m_buckets ht' = (m_buckets ht)[?b := removeFirst (\<lambda>x. nd_name x = n) ?bucket]"
    by (simp add: ht'_def ht_detach_def)
  have "ht_nodes ht = concat (take ?b (m_buckets ht)) @ ?bucket @ concat (drop (Suc ?b) (m_buckets ht))"
    unfolding ht_nodes_def by (subst id_take_nth_drop [OF b]) simp
  then have "distinct (map nd_name ?bucket)"
    using dist by simp
  then have rem: "removeFirst (\<lambda>x. nd_name x = n) ?bucket = filter (\<lambda>x. nd_name x \<noteq> n) ?bucket"
    by (rule removeFirst_key_filter)
  have filtered: "m_buckets ht' = map (filter (\<lambda>x. nd_name x \<noteq> n)) (m_buckets ht)"
  proof (rule nth_equalityI)
    fix i assume "i < length (m_buckets ht')"
    then have i: "i < getNBuckets ht" by (simp add: buckets getNBuckets_def)
    have "filter (\<lambda>x. nd_name x \<noteq> n) (m_buckets ht ! i) = m_buckets ht ! i" if "i \<noteq> ?b"
    proof (rule filter_True, rule ballI, rule notI)
      fix x assume x: "x \<in> set (m_buckets ht ! i)" and "nd_name x = n"
      then show False
        using bucketsPlacedD [OF placed i x] hash that by auto
    qed
    then show "m_buckets ht' ! i = map (filter (\<lambda>x. nd_name x \<noteq> n)) (m_buckets ht) ! i"
      using i by (cases "i = ?b") (simp_all add: buckets rem getNBuckets_def)
  qed (simp add: buckets)
  have nodes: "ht_nodes ht' = filter (\<lambda>x. nd_name x \<noteq> n) (ht_nodes ht)"
    by (simp add: ht_nodes_def filtered filter_concat)
  have nB: "getNBuckets ht' = getNBuckets ht"
    by (simp add: getNBuckets_def filtered)
  have "length (ht_nodes ht') = length (ht_nodes ht) - 1"
    unfolding nodes removeFirst_key_filter [OF dist, symmetric] length_removeFirst
    using in_nodes n by auto
  moreover have "bucketsPlaced hc ht'"
    unfolding bucketsPlaced_def
  proof (intro allI impI ballI)
    fix i x assume i: "i < getNBuckets ht'" and x: "x \<in> set (m_buckets ht' ! i)"
    have i': "i < getNBuckets ht" using i nB by simp
    then have "x \<in> set (m_buckets ht ! i)"
      using x by (simp add: filtered getNBuckets_def)
    from bucketsPlacedD [OF placed i' this]
    show "nd_hash x = nameHash hc (nd_name x) \<and> computeBucketIndex ht' (nd_hash x) = i"
      unfolding computeBucketIndex_def nB .
  qed
  moreover have "m_size ht' = m_size ht - 1" "m_options ht' = m_options ht"
    by (simp_all add: ht'_def ht_detach_def)
  ultimately show inv': "ht_inv hc ht'"
    using inv nB dist by (simp add: ht_inv_def nodes distinct_map_filter)
  have "nodeOf m ht' = Some x \<longleftrightarrow> (if m = n then None else nodeOf m ht) = Some x" for x
    using nodeOf_Some [OF inv', of m x] nodeOf_Some [OF inv, of m x] nodes by auto
  then show "nodeOf m ht' = (if m = n then None else nodeOf m ht)"
    by (metis option.exhaust)
qed

lemma ht_insert_aux:
  fixes new :: "name \<Rightarrow> 'e" and ht :: "'e hashtable"
  assumes inv: "ht_inv hc ht" and k: "k \<le> length name"
  defines "n \<equiv> take k name"
    and "r \<equiv> ht_insert new name k (computeHashes hc name (length name)) ht"
  shows "ht_inv hc (snd r)"
    and "nodeOf m (snd r) =
           (if m = n then fst (fst r) else nodeOf m ht)"
    and "fst r = (case nodeOf n ht of
           Some nd \<Rightarrow> (Some nd, False)
         | None \<Rightarrow> (Some \<lparr>nd_hash = nameHash hc n, nd_name = n, nd_entry = new n\<rparr>, True))"
proof -
  let ?h = "nameHash hc n" and ?nd = "\<lparr>nd_hash = nameHash hc n, nd_name = n, nd_entry = new n\<rparr>"
  let ?b = "computeBucketIndex ht ?h"
  have search: "find (\<lambda>nd. nd_hash nd = ?h \<and> take k name = nd_name nd) (m_buckets ht ! ?b) = nodeOf n ht"
    using bucket_search [OF inv, of n] by (simp add: n_def)
  have r: "r = ht_findOrInsert new name k ?h True ht"
    by (simp add: r_def ht_insert_def computeHashes_nth_aux k hash_take n_def)
  show fst: "fst r = (case nodeOf n ht of Some nd \<Rightarrow> (Some nd, False) | None \<Rightarrow> (Some ?nd, True))"
    unfolding r ht_findOrInsert_def Let_def search by (simp add: n_def split: option.split)
  have "ht_inv hc (snd r) \<and> nodeOf m (snd r) = (if m = n then fst (fst r) else nodeOf m ht)"
  proof (cases "nodeOf n ht")
    case (Some nd)
    then have "snd r = ht"
      unfolding r ht_findOrInsert_def Let_def search by simp
    with Some inv fst show ?thesis by simp
  next
    case None
    define ht2 where "ht2 = (ht_attach ?b ?nd ht)\<lparr>m_size := m_size ht + 1\<rparr>"
    define big where "big = scaleBy (expandFactor (m_options ht2)) (getNBuckets ht2)"
    have at: "ht_inv hc ht2" "\<And>m. nodeOf m ht2 = (if m = n then Some ?nd else nodeOf m ht)"
      using ht_attach_inv [OF inv, of ?nd] None by (simp_all add: ht2_def)
    have snd: "snd r = (if m_expandThreshold ht2 < m_size ht2 then ht_resize big ht2 else ht2)"
      unfolding r ht_findOrInsert_def Let_def search using None
      by (simp add: ht2_def big_def n_def)
    have "0 < big"
      using at(1) options_ok_expand by (simp add: big_def ht_inv_def)
    from ht_resize_aux [OF at(1) this]
    have rz: "ht_inv hc (ht_resize big ht2)" "nodeOf m (ht_resize big ht2) = nodeOf m ht2"
      using nodeOf_mset_cong at(1) by blast+
    show ?thesis
      using at rz fst None by (cases "m = n") (simp_all add: snd)
  qed
  then show "ht_inv hc (snd r)" and "nodeOf m (snd r) = (if m = n then fst (fst r) else nodeOf m ht)"
    by blast+
qed

lemma ht_erase_aux:
  assumes inv: "ht_inv hc ht" and nd: "nodeOf n ht = Some nd"
  shows "ht_inv hc (ht_erase nd ht)"
    and "nodeOf m (ht_erase nd ht) = (if m = n then None else nodeOf m ht)"
proof -
  have n: "nd_name nd = n"
    using nd [unfolded nodeOf_Some [OF inv]] by simp
  define ht2 where "ht2 = (ht_detach (computeBucketIndex ht (nd_hash nd)) n ht)\<lparr>m_size := m_size ht - 1\<rparr>"
  define small where "small = max (minSize (m_options ht2)) (scaleBy (shrinkFactor (m_options ht2)) (getNBuckets ht2))"
  have de: "ht_inv hc ht2" "nodeOf m ht2 = (if m = n then None else nodeOf m ht)"
    using ht_detach_inv [OF inv nd] by (simp_all add: ht2_def)
  have e: "ht_erase nd ht = (if m_size ht2 < m_shrinkThreshold ht2 then ht_resize small ht2 else ht2)"
    by (simp add: ht_erase_def Let_def n ht2_def small_def ht_detach_def)
  have "0 < small"
    using de(1) by (auto simp: small_def ht_inv_def options_ok_def less_max_iff_disj)
  from ht_resize_aux [OF de(1) this]
  have rz: "ht_inv hc (ht_resize small ht2)" "nodeOf m (ht_resize small ht2) = nodeOf m ht2"
    using nodeOf_mset_cong de(1) by blast+
  show "ht_inv hc (ht_erase nd ht)"
    using de(1) rz(1) by (simp add: e)
  show "nodeOf m (ht_erase nd ht) = (if m = n then None else nodeOf m ht)"
    using de(2) rz(2) by (auto simp: e)
qed

lemma Hashtable_inv:
  assumes "options_ok opts"
  shows "ht_inv hc (Hashtable opts :: 'e hashtable)" and "nodeOf n (Hashtable opts :: 'e hashtable) = None"
proof -
  have nodes: "ht_nodes (Hashtable opts :: 'e hashtable) = []"
    by (simp add: Hashtable_def ht_nodes_def)
  have "bucketsPlaced hc (Hashtable opts :: 'e hashtable)"
    by (simp add: bucketsPlaced_def Hashtable_def getNBuckets_def)
  then show "ht_inv hc (Hashtable opts :: 'e hashtable)"
    using assms nodes by (simp add: ht_inv_def options_ok_def Hashtable_def getNBuckets_def)
  show "nodeOf n (Hashtable opts :: 'e hashtable) = None"
    by (simp add: nodeOf_def nodes)
qed

section \<open>The interface to the name tree\<close>

text \<open>
  What the name tree relies on: entries are found under the name they were inserted with,
  inserting never disturbs another entry, erasing removes exactly one entry.
\<close>

locale name_index =
  fixes get :: "name \<Rightarrow> 't \<Rightarrow> 'e option"
    and put :: "name \<Rightarrow> 't \<Rightarrow> 't"
    and del :: "name \<Rightarrow> 't \<Rightarrow> 't"
    and fresh :: "name \<Rightarrow> 'e"
    and count :: "'t \<Rightarrow> nat"
    and invar :: "'t \<Rightarrow> bool"
  assumes get_put: "invar t \<Longrightarrow>
            get m (put n t) = (if m = n then Some (case get n t of None \<Rightarrow> fresh n | Some e \<Rightarrow> e) else get m t)"
    and get_del: "invar t \<Longrightarrow> get m (del n t) = (if m = n then None else get m t)"
    and invar_put: "invar t \<Longrightarrow> invar (put n t)"
    and invar_del: "invar t \<Longrightarrow> invar (del n t)"
    and count_get: "invar t \<Longrightarrow> count t = card {n. get n t \<noteq> None} \<and> finite {n. get n t \<noteq> None}"

datatype index_op = Put name | Drop name

fun index_run :: "(name \<Rightarrow> 't \<Rightarrow> 't) \<Rightarrow> (name \<Rightarrow> 't \<Rightarrow> 't) \<Rightarrow> index_op list \<Rightarrow> 't \<Rightarrow> 't" where
  "index_run put del [] t = t"
| "index_run put del (Put n # ops) t = index_run put del ops (put n t)"
| "index_run put del (Drop n # ops) t = index_run put del ops (del n t)"

definition names_run :: "index_op list \<Rightarrow> name set \<Rightarrow> name set" where
  "names_run ops = index_run insert (\<lambda>n N. N - {n}) ops"

context name_index begin

lemma invar_run: "invar t \<Longrightarrow> invar (index_run put del ops t)"
proof (induction ops arbitrary: t)
  case (Cons op ops)
  then show ?case by (cases op) (auto intro: invar_put invar_del)
qed simp

lemma dom_run:
  "invar t \<Longrightarrow> {n. get n (index_run put del ops t) \<noteq> None} = names_run ops {n. get n t \<noteq> None}"
proof (induction ops arbitrary: t)
  case (Cons op ops)
  show ?case
  proof (cases op)
    case (Put n)
    have "{m. get m (put n t) \<noteq> None} = insert n {m. get m t \<noteq> None}"
      using get_put [OF Cons.prems] by auto
    then show ?thesis
      using Put Cons.IH [OF invar_put [OF Cons.prems]] by (simp add: names_run_def)
  next
    case (Drop n)
    have "{m. get m (del n t) \<noteq> None} = {m. get m t \<noteq> None} - {n}"
      using get_del [OF Cons.prems] by auto
    then show ?thesis
      using Drop Cons.IH [OF invar_del [OF Cons.prems]] by (simp add: names_run_def)
  qed
qed (simp add: names_run_def)

lemma run_refines:
  assumes "invar t" and "\<And>n. get n t = None"
  shows "get n (index_run put del ops t) \<noteq> None \<longleftrightarrow> n \<in> names_run ops {}"
    and "count (index_run put del ops t) = card (names_run ops {})"
proof -
  note d = dom_run [OF assms(1), of ops]
  have e: "{n. get n t \<noteq> None} = {}" using assms(2) by simp
  show "get n (index_run put del ops t) \<noteq> None \<longleftrightarrow> n \<in> names_run ops {}"
    using d unfolding e by blast
  show "count (index_run put del ops t) = card (names_run ops {})"
    using count_get [OF invar_run [OF assms(1)], of ops] d unfolding e by simp
qed

end

text \<open>The table through that interface: a name is its own prefix of full length.\<close>

definition ht_get :: "(component \<Rightarrow> hashValue) \<Rightarrow> (name \<Rightarrow> 'e) \<Rightarrow> name \<Rightarrow> 'e hashtable \<Rightarrow> 'e option" where
  "ht_get hc new n ht = map_option nd_entry (ht_find hc new n (length n) ht)"

definition ht_put :: "(component \<Rightarrow> hashValue) \<Rightarrow> (name \<Rightarrow> 'e) \<Rightarrow> name \<Rightarrow> 'e hashtable \<Rightarrow> 'e hashtable" where
  "ht_put hc new n ht = snd (ht_insert new n (length n) (computeHashes hc n (length n)) ht)"

definition ht_drop :: "(component \<Rightarrow> hashValue) \<Rightarrow> (name \<Rightarrow> 'e) \<Rightarrow> name \<Rightarrow> 'e hashtable \<Rightarrow> 'e hashtable" where
  "ht_drop hc new n ht = (case ht_find hc new n (length n) ht of None \<Rightarrow> ht | Some nd \<Rightarrow> ht_erase nd ht)"

lemma ht_get_nodeOf: "ht_inv hc ht \<Longrightarrow> ht_get hc new n ht = map_option nd_entry (nodeOf n ht)"
  by (simp add: ht_get_def ht_find_nodeOf)

lemma ht_size_card:
  assumes "ht_inv hc ht"
  shows "m_size ht = card {n. nodeOf n ht \<noteq> None} \<and> finite {n. nodeOf n ht \<noteq> None}"
proof -
  have "{n. nodeOf n ht \<noteq> None} = set (map nd_name (ht_nodes ht))"
    by (auto simp: nodeOf_def find_None_iff)
  then show ?thesis
    using assms distinct_card [of "map nd_name (ht_nodes ht)"] by (simp add: ht_inv_def)
qed

interpretation hashtable: name_index "ht_get hc new" "ht_put hc new" "ht_drop hc new" new m_size "ht_inv hc"
  for hc :: "component \<Rightarrow> hashValue" and new :: "name \<Rightarrow> 'e"
proof
  fix t :: "'e hashtable" and m n :: name
  assume inv: "ht_inv hc t"
  note ins = ht_insert_aux [OF inv, where k = "length n" and name = n and new = new]
  show put: "ht_inv hc (ht_put hc new n t)"
    using ins(1) by (simp add: ht_put_def)
  show "ht_get hc new m (ht_put hc new n t) =
      (if m = n then Some (case ht_get hc new n t of None \<Rightarrow> new n | Some e \<Rightarrow> e) else ht_get hc new m t)"
    using ins(2,3) ht_get_nodeOf [OF put] ht_get_nodeOf [OF inv]
    by (simp add: ht_put_def split: option.split)
  have drop: "ht_inv hc (ht_drop hc new n t) \<and>
      nodeOf m (ht_drop hc new n t) = (if m = n then None else nodeOf m t)" for m
    using ht_erase_aux [OF inv] inv
    by (auto simp: ht_drop_def ht_find_nodeOf [OF inv] split: option.split)
  then show "ht_inv hc (ht_drop hc new n t)" by blast
  show "ht_get hc new m (ht_drop hc new n t) = (if m = n then None else ht_get hc new m t)"
    using drop ht_get_nodeOf [OF inv] ht_get_nodeOf [of hc "ht_drop hc new n t"] by simp
  show "m_size t = card {n. ht_get hc new n t \<noteq> None} \<and> finite {n. ht_get hc new n t \<noteq> None}"
    using ht_size_card [OF inv] ht_get_nodeOf [OF inv, of new] by simp
qed

section \<open>Properties\<close>

text \<open>
  C7: the prefix hash table implements a set of names. Whatever sequence of insertions and
  removals is run on a table constructed with sane options, including every expansion and
  shrink it triggers, a name is found exactly if the same sequence on a plain set leaves it
  there, and \<^verbatim>\<open>size()\<close> is the number of names.
\<close>

theorem hashtable_implements_name_set:
  assumes "options_ok opts"
  shows "(ht_find hc new n (length n) (index_run (ht_put hc new) (ht_drop hc new) ops (Hashtable opts)) \<noteq> None)
           = (n \<in> names_run ops {})
       \<and> m_size (index_run (ht_put hc new) (ht_drop hc new) ops (Hashtable opts)) = card (names_run ops {})"
proof -
  have e: "\<And>n. ht_get hc new n (Hashtable opts) = None"
    using Hashtable_inv [OF assms] ht_get_nodeOf by (metis map_option_is_None)
  show ?thesis
    using hashtable.run_refines [OF Hashtable_inv(1) [OF assms] e, where ops = ops]
    by (simp add: ht_get_def)
qed

definition exampleHash :: "component \<Rightarrow> hashValue" where
  "exampleHash c = of_nat (tlvType c)"

theorem hashtable_implements_name_set_witness:
  "options_ok (HashtableOptions 2) \<and>
   (ht_find exampleHash (\<lambda>_. ()) [Component 8 ''a''] 1
      (index_run (ht_put exampleHash (\<lambda>_. ())) (ht_drop exampleHash (\<lambda>_. ()))
        [Put [], Put [Component 8 ''a''], Put [Component 8 ''b''], Drop []] (Hashtable (HashtableOptions 2))) \<noteq> None)"
proof -
  have o: "options_ok (HashtableOptions 2)"
    by (simp add: options_ok_def HashtableOptions_def)
  show ?thesis
    using hashtable_implements_name_set [OF o, of exampleHash "\<lambda>_. ()" "[Component 8 ''a'']"
        "[Put [], Put [Component 8 ''a''], Put [Component 8 ''b''], Drop []]"] o
    by (simp add: names_run_def)
qed

text \<open>
  C8: the hash sequence a lookup computes once for all prefixes agrees with the hash computed
  for each prefix alone, so that searching with either finds the same node.
\<close>

theorem computeHashes_agrees:
  assumes "i \<le> prefixLen" and "i \<le> length name"
  shows "computeHashes hc name prefixLen ! i = computeHash hc name i
       \<and> ht_find_hashes new name i (computeHashes hc name (length name)) ht = ht_find hc new name i ht"
  using assms by (simp add: computeHashes_nth_aux ht_find_hashes_eq)

theorem computeHashes_agrees_witness:
  "computeHashes exampleHash [Component 8 ''a'', Component 9 ''b''] 2 ! 1 = 8"
  using computeHashes_agrees [of 1 2 "[Component 8 ''a'', Component 9 ''b'']" exampleHash
      "\<lambda>_. ()" "Hashtable (HashtableOptions 2)"]
  by (simp add: computeHash_def exampleHash_def)

end
