(* ===== verification/FibEntry.thy ===== *)
theory FibEntry
  imports NdnTypes
begin

text \<open>
  \<^verbatim>\<open>daemon/table/fib-nexthop.hpp\<close> and \<^verbatim>\<open>daemon/table/fib-entry.cpp\<close>: a FIB entry is a prefix
  with a vector of next hops, at most one per face, kept sorted by cost. An iterator into the
  vector is an index. \<^verbatim>\<open>std::sort\<close> leaves the order of equal costs open; the model keeps
  insertion order among them, and no lemma depends on that choice.
\<close>

record nextHop =
  nh_face :: faceRef
  nh_cost :: nat

record fib_entry =
  fe_prefix :: name
  fe_nextHops :: "nextHop list"

definition newFibEntry :: "name \<Rightarrow> fib_entry" where
  "newFibEntry p = \<lparr>fe_prefix = p, fe_nextHops = []\<rparr>"

fun indexOf :: "('a \<Rightarrow> bool) \<Rightarrow> 'a list \<Rightarrow> nat" where
  "indexOf p [] = 0"
| "indexOf p (x # xs) = (if p x then 0 else Suc (indexOf p xs))"

definition fe_findNextHop :: "faceRef \<Rightarrow> fib_entry \<Rightarrow> nat" where
  "fe_findNextHop f e = indexOf (\<lambda>nh. nh_face nh = f) (fe_nextHops e)"

definition fe_hasNextHop :: "faceRef \<Rightarrow> fib_entry \<Rightarrow> bool" where
  "fe_hasNextHop f e \<longleftrightarrow> fe_findNextHop f e \<noteq> length (fe_nextHops e)"

definition fe_hasNextHops :: "fib_entry \<Rightarrow> bool" where
  "fe_hasNextHops e \<longleftrightarrow> fe_nextHops e \<noteq> []"

definition fe_sortNextHops :: "fib_entry \<Rightarrow> fib_entry" where
  "fe_sortNextHops e = e\<lparr>fe_nextHops := sort_key nh_cost (fe_nextHops e)\<rparr>"

text \<open>The result is the entry, the iterator the code returns (as an index) and \<^verbatim>\<open>isNew\<close>.\<close>

definition fe_addOrUpdateNextHop :: "faceRef \<Rightarrow> nat \<Rightarrow> fib_entry \<Rightarrow> fib_entry \<times> nat \<times> bool" where
  "fe_addOrUpdateNextHop f cost e =
     (let it = fe_findNextHop f e;
          isNew = (it = length (fe_nextHops e));
          hops = (if isNew then fe_nextHops e @ [\<lparr>nh_face = f, nh_cost = 0\<rparr>] else fe_nextHops e);
          hops' = hops[it := (hops ! it)\<lparr>nh_cost := cost\<rparr>]
      in (fe_sortNextHops (e\<lparr>fe_nextHops := hops'\<rparr>), it, isNew))"

definition fe_removeNextHop :: "faceRef \<Rightarrow> fib_entry \<Rightarrow> fib_entry \<times> bool" where
  "fe_removeNextHop f e =
     (let it = fe_findNextHop f e
      in if it \<noteq> length (fe_nextHops e)
         then (e\<lparr>fe_nextHops := take it (fe_nextHops e) @ drop (Suc it) (fe_nextHops e)\<rparr>, True)
         else (e, False))"

section \<open>Well-formed entries\<close>

definition fe_inv :: "fib_entry \<Rightarrow> bool" where
  "fe_inv e \<longleftrightarrow> distinct (map nh_face (fe_nextHops e)) \<and> sorted (map nh_cost (fe_nextHops e))"

text \<open>What an entry means: which faces the prefix is routed to, at what cost.\<close>

definition fe_costs :: "fib_entry \<Rightarrow> faceRef \<rightharpoonup> nat" where
  "fe_costs e = map_of (map (\<lambda>nh. (nh_face nh, nh_cost nh)) (fe_nextHops e))"

lemma indexOf_le: "indexOf p xs \<le> length xs"
  by (induction xs) auto

lemma indexOf_length: "indexOf p xs = length xs \<longleftrightarrow> \<not> (\<exists>x \<in> set xs. p x)"
  by (induction xs) auto

lemma indexOf_hit: "indexOf p xs \<noteq> length xs \<Longrightarrow> p (xs ! indexOf p xs)"
  by (induction xs) auto

lemma indexOf_update:
  "indexOf p xs \<noteq> length xs \<Longrightarrow> xs[indexOf p xs := f (xs ! indexOf p xs)] = updateFirst p f xs"
  by (induction xs) auto

lemma indexOf_remove:
  "indexOf p xs \<noteq> length xs \<Longrightarrow> take (indexOf p xs) xs @ drop (Suc (indexOf p xs)) xs = removeFirst p xs"
  by (induction xs) auto

lemma fe_inv_new: "fe_inv (newFibEntry p)"
  by (simp add: fe_inv_def newFibEntry_def)

lemma fe_hasNextHop_iff: "fe_hasNextHop f e \<longleftrightarrow> f \<in> set (map nh_face (fe_nextHops e))"
  by (auto simp: fe_hasNextHop_def fe_findNextHop_def indexOf_length)

lemma fe_costs_Some_iff:
  assumes "fe_inv e"
  shows "fe_costs e f = Some c \<longleftrightarrow> (\<exists>nh \<in> set (fe_nextHops e). nh_face nh = f \<and> nh_cost nh = c)"
  using assms map_of_eq_Some_iff [of "map (\<lambda>nh. (nh_face nh, nh_cost nh)) (fe_nextHops e)" f c]
  by (auto simp: fe_costs_def fe_inv_def comp_def)

lemma distinct_map_sort_key: "distinct (map g (sort_key k xs)) \<longleftrightarrow> distinct (map g xs)"
  by (simp add: distinct_map)

lemma fe_addOrUpdate_hops:
  "fe_nextHops (fst (fe_addOrUpdateNextHop f cost e)) =
     sort_key nh_cost
       (if fe_hasNextHop f e
        then updateFirst (\<lambda>nh. nh_face nh = f) (nh_cost_update (\<lambda>_. cost)) (fe_nextHops e)
        else fe_nextHops e @ [\<lparr>nh_face = f, nh_cost = cost\<rparr>])"
  by (simp add: fe_addOrUpdateNextHop_def fe_hasNextHop_def Let_def fe_sortNextHops_def
      fe_findNextHop_def indexOf_update)

lemma fe_removeNextHop_hops:
  "fe_nextHops (fst (fe_removeNextHop f e)) = removeFirst (\<lambda>nh. nh_face nh = f) (fe_nextHops e)"
proof (cases "fe_findNextHop f e = length (fe_nextHops e)")
  case True
  then have "\<not> (\<exists>nh \<in> set (fe_nextHops e). nh_face nh = f)"
    unfolding fe_findNextHop_def indexOf_length .
  then show ?thesis
    using True by (simp add: fe_removeNextHop_def Let_def removeFirst_none)
next
  case False
  then show ?thesis
    by (simp add: fe_removeNextHop_def Let_def fe_findNextHop_def indexOf_remove)
qed

lemma fe_inv_addOrUpdate:
  assumes "fe_inv e"
  shows "fe_inv (fst (fe_addOrUpdateNextHop f cost e))"
proof -
  have "distinct (map nh_face (if fe_hasNextHop f e
        then updateFirst (\<lambda>nh. nh_face nh = f) (nh_cost_update (\<lambda>_. cost)) (fe_nextHops e)
        else fe_nextHops e @ [\<lparr>nh_face = f, nh_cost = cost\<rparr>]))"
    using assms by (auto simp: fe_inv_def fe_hasNextHop_iff map_updateFirst)
  then show ?thesis
    unfolding fe_inv_def fe_addOrUpdate_hops by (simp only: distinct_map_sort_key sorted_sort_key)
qed

lemma fe_inv_remove: "fe_inv e \<Longrightarrow> fe_inv (fst (fe_removeNextHop f e))"
  unfolding fe_inv_def fe_removeNextHop_hops
  by (simp add: distinct_map_removeFirst)
    (simp add: sorted_map sorted_wrt_removeFirst)

lemma fe_prefix_ops [simp]:
  "fe_prefix (fst (fe_addOrUpdateNextHop f c e)) = fe_prefix e"
  "fe_prefix (fst (fe_removeNextHop f e)) = fe_prefix e"
  by (simp_all add: fe_addOrUpdateNextHop_def fe_removeNextHop_def Let_def fe_sortNextHops_def)

lemma fe_costs_addOrUpdate_aux:
  assumes inv: "fe_inv e"
  shows "fe_costs (fst (fe_addOrUpdateNextHop f cost e)) = (fe_costs e)(f \<mapsto> cost)"
proof (rule ext)
  fix g
  let ?e' = "fst (fe_addOrUpdateNextHop f cost e)"
  have d: "distinct (map nh_face (fe_nextHops e))" using inv by (simp add: fe_inv_def)
  have "fe_costs ?e' g = Some c \<longleftrightarrow> ((fe_costs e)(f \<mapsto> cost)) g = Some c" for c
    unfolding fe_costs_Some_iff [OF fe_inv_addOrUpdate [OF inv]] fe_addOrUpdate_hops
    using fe_costs_Some_iff [OF inv, of g c]
    by (auto simp: updateFirst_key_map [OF d] fe_hasNextHop_iff bex_Un)
  then show "fe_costs ?e' g = ((fe_costs e)(f \<mapsto> cost)) g"
    by (metis option.exhaust)
qed

lemma fe_costs_remove_aux:
  assumes inv: "fe_inv e"
  shows "fe_costs (fst (fe_removeNextHop f e)) = (fe_costs e)(f := None)"
proof (rule ext)
  fix g
  let ?e' = "fst (fe_removeNextHop f e)"
  have d: "distinct (map nh_face (fe_nextHops e))" using inv by (simp add: fe_inv_def)
  have "fe_costs ?e' g = Some c \<longleftrightarrow> ((fe_costs e)(f := None)) g = Some c" for c
    unfolding fe_costs_Some_iff [OF fe_inv_remove [OF inv]] fe_removeNextHop_hops
    using fe_costs_Some_iff [OF inv, of g c] by (auto simp: removeFirst_key_filter [OF d])
  then show "fe_costs ?e' g = ((fe_costs e)(f := None)) g"
    by (metis option.exhaust)
qed

end
