(* ===== verification/PitEntry.thy ===== *)
theory PitEntry
  imports NdnTypes
begin

text \<open>
  \<^verbatim>\<open>daemon/table/strategy-info-host.hpp\<close>, \<^verbatim>\<open>pit-face-record\<close>, \<^verbatim>\<open>pit-in-record\<close>,
  \<^verbatim>\<open>pit-out-record\<close> and \<^verbatim>\<open>pit-entry\<close> (.hpp and .cpp): the per-face records of a PIT entry and
  the entry itself. C++ inheritance of the records from \<^verbatim>\<open>FaceRecord\<close> is record extension.
  \<^verbatim>\<open>time::steady_clock::now()\<close> is the argument \<open>now\<close>.
\<close>

section \<open>StrategyInfo items\<close>

text \<open>
  A \<^verbatim>\<open>StrategyInfoHost\<close> maps the type identifier of an item to the item. The items are those of
  the strategies in the development: \<^verbatim>\<open>RetxSuppressionExponential::PitInfo\<close>, whose single
  member is \<^verbatim>\<open>suppressionInterval\<close>; \<^verbatim>\<open>AccessStrategy::PitInfo\<close>, whose timer is the time at which
  \<^verbatim>\<open>afterRtoTimeout\<close> runs with its two face identifiers; and \<^verbatim>\<open>AccessStrategy::MtInfo\<close>. An
  \<^verbatim>\<open>RttEstimator\<close> (ndn-cxx) is the history of its \<^verbatim>\<open>addMeasurement\<close> calls.
\<close>

type_synonym rttEstimator = "duration list"

datatype strategyInfo =
    RetxPitInfo duration
  | AccessPitInfo "(time \<times> faceId \<times> faceId) option"
  | AccessMtInfo faceId rttEstimator

type_synonym infoHost = "(int \<times> strategyInfo) list"

definition getStrategyInfo :: "int \<Rightarrow> infoHost \<Rightarrow> strategyInfo option" where
  "getStrategyInfo t h = map_of h t"

definition insertStrategyInfo :: "int \<Rightarrow> strategyInfo \<Rightarrow> infoHost \<Rightarrow> infoHost \<times> strategyInfo \<times> bool" where
  "insertStrategyInfo t item h =
     (case map_of h t of
        None \<Rightarrow> ((t, item) # h, item, True)
      | Some old \<Rightarrow> (h, old, False))"

definition setStrategyInfo :: "int \<Rightarrow> strategyInfo \<Rightarrow> infoHost \<Rightarrow> infoHost" where
  "setStrategyInfo t item h = updateFirst (\<lambda>x. fst x = t) (\<lambda>_. (t, item)) h"

definition eraseStrategyInfo :: "int \<Rightarrow> infoHost \<Rightarrow> infoHost" where
  "eraseStrategyInfo t h = filter (\<lambda>x. fst x \<noteq> t) h"

definition clearStrategyInfo :: "infoHost \<Rightarrow> infoHost" where
  "clearStrategyInfo h = []"

section \<open>Face records\<close>

definition TIME_MIN :: time where
  "TIME_MIN = - (2 ^ 63)"

record face_record =
  fr_face :: faceRef
  fr_lastNonce :: "32 word"
  fr_lastRenewed :: time
  fr_expiry :: time
  fr_info :: infoHost

record in_record = face_record +
  ir_interest :: "interest option" \<comment> \<open>\<open>None\<close> is the null pointer of the constructor\<close>

record out_record = face_record +
  or_incomingNack :: "nackReason option"

definition newInRecord :: "faceRef \<Rightarrow> in_record" where
  "newInRecord f = \<lparr>fr_face = f, fr_lastNonce = 0, fr_lastRenewed = TIME_MIN,
     fr_expiry = TIME_MIN, fr_info = [], ir_interest = None\<rparr>"

definition newOutRecord :: "faceRef \<Rightarrow> out_record" where
  "newOutRecord f = \<lparr>fr_face = f, fr_lastNonce = 0, fr_lastRenewed = TIME_MIN,
     fr_expiry = TIME_MIN, fr_info = [], or_incomingNack = None\<rparr>"

definition MAX_LIFETIME :: int where \<comment> \<open>milliseconds\<close>
  "MAX_LIFETIME = 10 * 24 * 60 * 60 * 1000"

definition face_record_update :: "time \<Rightarrow> interest \<Rightarrow> 'a face_record_scheme \<Rightarrow> 'a face_record_scheme" where
  "face_record_update now i r =
     r\<lparr>fr_lastNonce := i_nonce i, fr_lastRenewed := now,
       fr_expiry := now + ms (min (i_lifetime i) MAX_LIFETIME)\<rparr>"

definition in_record_update :: "time \<Rightarrow> interest \<Rightarrow> in_record \<Rightarrow> in_record" where
  "in_record_update now i r = (face_record_update now i r)\<lparr>ir_interest := Some i\<rparr>"

definition setIncomingNack :: "nack \<Rightarrow> out_record \<Rightarrow> out_record \<times> bool" where
  "setIncomingNack n r =
     (if i_nonce (n_interest n) \<noteq> fr_lastNonce r then (r, False)
      else (r\<lparr>or_incomingNack := Some (n_reason n)\<rparr>, True))"

definition clearIncomingNack :: "out_record \<Rightarrow> out_record" where
  "clearIncomingNack r = r\<lparr>or_incomingNack := None\<rparr>"

section \<open>PIT entries\<close>

text \<open>
  \<open>pe_id\<close> is the address of the entry, the identity a \<^verbatim>\<open>shared_ptr<pit::Entry>\<close> compares by.
  The expiry timer is the time at which the scheduled event fires, if one is scheduled.
\<close>

record pit_entry =
  pe_id :: nat
  pe_interest :: interest
  pe_inRecords :: "in_record list"
  pe_outRecords :: "out_record list"
  pe_expiryTimer :: "time option"
  pe_isSatisfied :: bool
  pe_dataFreshnessPeriod :: int
  pe_info :: infoHost

definition newPitEntry :: "nat \<Rightarrow> interest \<Rightarrow> pit_entry" where
  "newPitEntry k i = \<lparr>pe_id = k, pe_interest = i, pe_inRecords = [], pe_outRecords = [],
     pe_expiryTimer = None, pe_isSatisfied = False, pe_dataFreshnessPeriod = 0, pe_info = []\<rparr>"

definition pe_name :: "pit_entry \<Rightarrow> name" where
  "pe_name e = i_name (pe_interest e)"

definition canMatch :: "pit_entry \<Rightarrow> interest \<Rightarrow> nat \<Rightarrow> bool" where
  "canMatch e i nEqualNameComps \<longleftrightarrow>
     drop nEqualNameComps (pe_name e) = drop nEqualNameComps (i_name i) \<and>
     i_canBePrefix (pe_interest e) = i_canBePrefix i \<and>
     i_mustBeFresh (pe_interest e) = i_mustBeFresh i"

definition hasInRecords :: "pit_entry \<Rightarrow> bool" where
  "hasInRecords e \<longleftrightarrow> pe_inRecords e \<noteq> []"

definition hasOutRecords :: "pit_entry \<Rightarrow> bool" where
  "hasOutRecords e \<longleftrightarrow> pe_outRecords e \<noteq> []"

definition getInRecord :: "faceRef \<Rightarrow> pit_entry \<Rightarrow> in_record option" where
  "getInRecord f e = find (\<lambda>r. fr_face r = f) (pe_inRecords e)"

definition insertOrUpdateInRecord :: "time \<Rightarrow> faceRef \<Rightarrow> interest \<Rightarrow> pit_entry \<Rightarrow> pit_entry" where
  "insertOrUpdateInRecord now f i e =
     (let rs = (if find (\<lambda>r. fr_face r = f) (pe_inRecords e) = None
                then newInRecord f # pe_inRecords e else pe_inRecords e)
      in e\<lparr>pe_inRecords := updateFirst (\<lambda>r. fr_face r = f) (in_record_update now i) rs\<rparr>)"

definition deleteInRecord :: "faceRef \<Rightarrow> pit_entry \<Rightarrow> pit_entry" where
  "deleteInRecord f e = e\<lparr>pe_inRecords := removeFirst (\<lambda>r. fr_face r = f) (pe_inRecords e)\<rparr>"

definition clearInRecords :: "pit_entry \<Rightarrow> pit_entry" where
  "clearInRecords e = e\<lparr>pe_inRecords := []\<rparr>"

definition getOutRecord :: "faceRef \<Rightarrow> pit_entry \<Rightarrow> out_record option" where
  "getOutRecord f e = find (\<lambda>r. fr_face r = f) (pe_outRecords e)"

definition insertOrUpdateOutRecord :: "time \<Rightarrow> faceRef \<Rightarrow> interest \<Rightarrow> pit_entry \<Rightarrow> pit_entry" where
  "insertOrUpdateOutRecord now f i e =
     (let rs = (if find (\<lambda>r. fr_face r = f) (pe_outRecords e) = None
                then newOutRecord f # pe_outRecords e else pe_outRecords e)
      in e\<lparr>pe_outRecords := updateFirst (\<lambda>r. fr_face r = f) (face_record_update now i) rs\<rparr>)"

definition deleteOutRecord :: "faceRef \<Rightarrow> pit_entry \<Rightarrow> pit_entry" where
  "deleteOutRecord f e = e\<lparr>pe_outRecords := removeFirst (\<lambda>r. fr_face r = f) (pe_outRecords e)\<rparr>"

text \<open>Code that mutates a record through the iterator \<^verbatim>\<open>getOutRecord\<close> returned.\<close>

definition updateOutRecord :: "faceRef \<Rightarrow> (out_record \<Rightarrow> out_record) \<Rightarrow> pit_entry \<Rightarrow> pit_entry" where
  "updateOutRecord f g e = e\<lparr>pe_outRecords := updateFirst (\<lambda>r. fr_face r = f) g (pe_outRecords e)\<rparr>"

section \<open>Well-formed entries\<close>

text \<open>
  One in-record and one out-record per face; every in-record holds an Interest that matches
  the entry, from which its nonce and expiry were taken.
\<close>

definition in_record_ok :: "pit_entry \<Rightarrow> in_record \<Rightarrow> bool" where
  "in_record_ok e r \<longleftrightarrow>
     (case ir_interest r of
        None \<Rightarrow> False
      | Some i \<Rightarrow> canMatch e i 0 \<and> fr_lastNonce r = i_nonce i \<and>
          fr_expiry r = fr_lastRenewed r + ms (min (i_lifetime i) MAX_LIFETIME))"

definition pe_inv :: "pit_entry \<Rightarrow> bool" where
  "pe_inv e \<longleftrightarrow> distinct (map fr_face (pe_inRecords e)) \<and>
     distinct (map fr_face (pe_outRecords e)) \<and> list_all (in_record_ok e) (pe_inRecords e)"

lemma find_None_key: "find (\<lambda>r. g r = k) xs = None \<longleftrightarrow> k \<notin> g ` set xs"
  by (auto simp: find_None_iff)

lemma fr_face_update [simp]:
  "fr_face (face_record_update now i r) = fr_face r"
  "fr_face (in_record_update now i ir) = fr_face ir"
  by (simp_all add: face_record_update_def in_record_update_def)

lemma fr_face_new [simp]: "fr_face (newInRecord f) = f" "fr_face (newOutRecord f) = f"
  by (simp_all add: newInRecord_def newOutRecord_def)

lemma canMatch_iff:
  "canMatch e i 0 \<longleftrightarrow> pe_name e = i_name i \<and> i_canBePrefix (pe_interest e) = i_canBePrefix i \<and>
     i_mustBeFresh (pe_interest e) = i_mustBeFresh i"
  by (simp add: canMatch_def)

text \<open>Knowing that a prefix of both names agrees, comparing the rest decides the whole match.\<close>

lemma canMatch_skip:
  assumes "take n (pe_name e) = take n (i_name i)"
  shows "canMatch e i n \<longleftrightarrow> canMatch e i 0"
  using assms append_take_drop_id [of n "pe_name e"] append_take_drop_id [of n "i_name i"]
  by (auto simp: canMatch_def)

lemma in_record_ok_cong [simp]:
  "in_record_ok (e\<lparr>pe_inRecords := rs\<rparr>) = in_record_ok e"
  "in_record_ok (e\<lparr>pe_outRecords := qs\<rparr>) = in_record_ok e"
  "in_record_ok (e\<lparr>pe_expiryTimer := t\<rparr>) = in_record_ok e"
  "in_record_ok (e\<lparr>pe_isSatisfied := b\<rparr>) = in_record_ok e"
  "in_record_ok (e\<lparr>pe_dataFreshnessPeriod := p\<rparr>) = in_record_ok e"
  "in_record_ok (e\<lparr>pe_info := h\<rparr>) = in_record_ok e"
  by (simp_all add: fun_eq_iff in_record_ok_def canMatch_def pe_name_def split: option.split)

lemma in_record_ok_update: "canMatch e i 0 \<Longrightarrow> in_record_ok e (in_record_update now i r)"
  by (simp add: in_record_ok_def in_record_update_def face_record_update_def)

lemma pe_inv_new [nfd_inv]: "pe_inv (newPitEntry k i)"
  by (simp add: pe_inv_def newPitEntry_def)

lemma pe_inv_insertOrUpdateInRecord [nfd_inv]:
  assumes inv: "pe_inv e" and m: "canMatch e i 0"
  shows "pe_inv (insertOrUpdateInRecord now f i e)"
proof -
  let ?rs = "if find (\<lambda>r. fr_face r = f) (pe_inRecords e) = None
             then newInRecord f # pe_inRecords e else pe_inRecords e"
  have d: "distinct (map fr_face ?rs)"
    using inv by (auto simp: pe_inv_def find_None_key)
  have rest: "r \<in> set ?rs \<Longrightarrow> fr_face r \<noteq> f \<Longrightarrow> in_record_ok e r" for r
    using inv by (auto simp: pe_inv_def list_all_iff split: if_splits)
  have "list_all (in_record_ok e) (updateFirst (\<lambda>r. fr_face r = f) (in_record_update now i) ?rs)"
    unfolding updateFirst_key_map [OF d] list_all_iff set_map
    using rest in_record_ok_update [OF m] by fastforce
  then show ?thesis
    using inv d
    by (simp add: pe_inv_def insertOrUpdateInRecord_def Let_def map_updateFirst)
qed

lemma pe_inv_insertOrUpdateOutRecord [nfd_inv]:
  "pe_inv e \<Longrightarrow> pe_inv (insertOrUpdateOutRecord now f i e)"
  by (simp add: pe_inv_def insertOrUpdateOutRecord_def Let_def map_updateFirst find_None_key)

lemma pe_inv_deleteInRecord [nfd_inv]: "pe_inv e \<Longrightarrow> pe_inv (deleteInRecord f e)"
  by (auto simp: pe_inv_def deleteInRecord_def distinct_map_removeFirst list_all_iff
      dest: set_removeFirst_subset [THEN subsetD])

lemma pe_inv_deleteOutRecord [nfd_inv]: "pe_inv e \<Longrightarrow> pe_inv (deleteOutRecord f e)"
  by (simp add: pe_inv_def deleteOutRecord_def distinct_map_removeFirst)

lemma pe_inv_clearInRecords [nfd_inv]: "pe_inv e \<Longrightarrow> pe_inv (clearInRecords e)"
  by (simp add: pe_inv_def clearInRecords_def)

lemma pe_inv_updateOutRecord [nfd_inv]:
  "pe_inv e \<Longrightarrow> (\<And>r. fr_face (g r) = fr_face r) \<Longrightarrow> pe_inv (updateOutRecord f g e)"
  by (simp add: pe_inv_def updateOutRecord_def map_updateFirst)

lemma pe_inv_flags [nfd_inv]:
  "pe_inv e \<Longrightarrow> pe_inv (e\<lparr>pe_expiryTimer := t\<rparr>)"
  "pe_inv e \<Longrightarrow> pe_inv (e\<lparr>pe_isSatisfied := b\<rparr>)"
  "pe_inv e \<Longrightarrow> pe_inv (e\<lparr>pe_dataFreshnessPeriod := p\<rparr>)"
  "pe_inv e \<Longrightarrow> pe_inv (e\<lparr>pe_info := h\<rparr>)"
  by (simp_all add: pe_inv_def)

text \<open>What a lookup returns after each operation.\<close>

lemma find_updateFirst_key:
  "(\<And>x. g (f x) = g x) \<Longrightarrow>
   find (\<lambda>y. g y = k') (updateFirst (\<lambda>y. g y = k) f xs) =
     (if k' = k then map_option f (find (\<lambda>y. g y = k) xs) else find (\<lambda>y. g y = k') xs)"
  by (induction xs) auto

lemma find_removeFirst_key:
  "distinct (map g xs) \<Longrightarrow>
   find (\<lambda>y. g y = k') (removeFirst (\<lambda>y. g y = k) xs) =
     (if k' = k then None else find (\<lambda>y. g y = k') xs)"
  by (induction xs) (auto simp: find_None_iff image_iff)

lemma getInRecord_insertOrUpdate:
  "getInRecord g (insertOrUpdateInRecord now f i e) =
     (if g = f then Some (in_record_update now i (case getInRecord f e of
                                                   None \<Rightarrow> newInRecord f | Some r \<Rightarrow> r))
      else getInRecord g e)"
  by (simp add: getInRecord_def insertOrUpdateInRecord_def Let_def find_updateFirst_key
      split: option.split)

lemma getOutRecord_insertOrUpdate:
  "getOutRecord g (insertOrUpdateOutRecord now f i e) =
     (if g = f then Some (face_record_update now i (case getOutRecord f e of
                                                     None \<Rightarrow> newOutRecord f | Some r \<Rightarrow> r))
      else getOutRecord g e)"
  by (simp add: getOutRecord_def insertOrUpdateOutRecord_def Let_def find_updateFirst_key
      split: option.split)

lemma getInRecord_delete:
  "pe_inv e \<Longrightarrow> getInRecord g (deleteInRecord f e) = (if g = f then None else getInRecord g e)"
  by (simp add: getInRecord_def deleteInRecord_def find_removeFirst_key pe_inv_def)

lemma getOutRecord_delete:
  "pe_inv e \<Longrightarrow> getOutRecord g (deleteOutRecord f e) = (if g = f then None else getOutRecord g e)"
  by (simp add: getOutRecord_def deleteOutRecord_def find_removeFirst_key pe_inv_def)

lemma getOutRecord_updateOutRecord:
  "(\<And>r. fr_face (h r) = fr_face r) \<Longrightarrow>
   getOutRecord g (updateOutRecord f h e) =
     (if g = f then map_option h (getOutRecord f e) else getOutRecord g e)"
  by (simp add: getOutRecord_def updateOutRecord_def find_updateFirst_key)

lemma pe_interest_ops [simp]:
  "pe_interest (insertOrUpdateInRecord now f i e) = pe_interest e"
  "pe_interest (insertOrUpdateOutRecord now f i e) = pe_interest e"
  "pe_interest (deleteInRecord f e) = pe_interest e"
  "pe_interest (deleteOutRecord f e) = pe_interest e"
  "pe_interest (clearInRecords e) = pe_interest e"
  "pe_interest (updateOutRecord f g e) = pe_interest e"
  "pe_interest (newPitEntry k i) = i"
  by (simp_all add: insertOrUpdateInRecord_def insertOrUpdateOutRecord_def deleteInRecord_def
      deleteOutRecord_def clearInRecords_def updateOutRecord_def Let_def newPitEntry_def)

lemma pe_id_ops [simp]:
  "pe_id (insertOrUpdateInRecord now f i e) = pe_id e"
  "pe_id (insertOrUpdateOutRecord now f i e) = pe_id e"
  "pe_id (deleteInRecord f e) = pe_id e"
  "pe_id (deleteOutRecord f e) = pe_id e"
  "pe_id (clearInRecords e) = pe_id e"
  "pe_id (updateOutRecord f g e) = pe_id e"
  "pe_id (newPitEntry k i) = k"
  by (simp_all add: insertOrUpdateInRecord_def insertOrUpdateOutRecord_def deleteInRecord_def
      deleteOutRecord_def clearInRecords_def updateOutRecord_def Let_def newPitEntry_def)

end
