(* ===== verification/NameTree.thy ===== *)
theory NameTree
  imports NameTreeHashtable FibEntry PitEntry
begin

text \<open>
  \<^verbatim>\<open>daemon/table/name-tree.cpp\<close>, \<^verbatim>\<open>name-tree-entry.cpp\<close> and \<^verbatim>\<open>name-tree-iterator.cpp\<close>: the index that
  FIB, PIT, Measurements and StrategyChoice share. Each entry hangs under its name in a prefix
  hash table and points to its parent and children.

  The tree is a list of entries keyed by name. That the hash table of the code behaves as such
  an index is the content of the theory of the hash table; both interpret the locale
  \<open>name_index\<close>. An \<^verbatim>\<open>Entry*\<close> is the name of the entry. The order of the list is the order of
  full enumeration, which the code leaves implementation-defined.
\<close>

section \<open>Entries\<close>

text \<open>\<^verbatim>\<open>measurements::Entry\<close> and \<^verbatim>\<open>strategy_choice::Entry\<close>; the strategy object is known by its
  instance name.\<close>

record meas_entry =
  me_name :: name
  me_expiry :: time
  me_cleanup :: "time option"
  me_info :: infoHost

record sc_entry =
  sc_prefix :: name
  sc_strategy :: name

record nte =
  nte_parent :: "name option"
  nte_children :: "name list"
  nte_fib :: "fib_entry option"
  nte_pits :: "pit_entry list"
  nte_meas :: "meas_entry option"
  nte_sc :: "sc_entry option"

definition newNte :: nte where
  "newNte = \<lparr>nte_parent = None, nte_children = [], nte_fib = None, nte_pits = [],
     nte_meas = None, nte_sc = None\<rparr>"

type_synonym nameTree = "(name \<times> nte) list"

definition getMaxDepth :: nat where
  "getMaxDepth = 32"

definition hasTableEntries :: "nte \<Rightarrow> bool" where
  "hasTableEntries e \<longleftrightarrow> nte_fib e \<noteq> None \<or> nte_pits e \<noteq> [] \<or> nte_meas e \<noteq> None \<or> nte_sc e \<noteq> None"

definition nte_isEmpty :: "nte \<Rightarrow> bool" where
  "nte_isEmpty e \<longleftrightarrow> nte_children e = [] \<and> \<not> hasTableEntries e"

section \<open>The index\<close>

definition nt_get :: "name \<Rightarrow> nameTree \<Rightarrow> nte option" where
  "nt_get n nt = map_of nt n"

definition nt_update :: "name \<Rightarrow> (nte \<Rightarrow> nte) \<Rightarrow> nameTree \<Rightarrow> nameTree" where
  "nt_update n f nt = map (\<lambda>(m, e). (m, if m = n then f e else e)) nt"

definition nt_insert :: "name \<Rightarrow> nameTree \<Rightarrow> nameTree \<times> bool" where
  "nt_insert n nt = (if nt_get n nt = None then ((n, newNte) # nt, True) else (nt, False))"

definition nt_del :: "name \<Rightarrow> nameTree \<Rightarrow> nameTree" where
  "nt_del n nt = filter (\<lambda>x. fst x \<noteq> n) nt"

section \<open>Operations on entries\<close>

definition nte_setParent :: "name \<Rightarrow> name \<Rightarrow> nameTree \<Rightarrow> nameTree" where
  "nte_setParent n p nt =
     nt_update p (\<lambda>e. e\<lparr>nte_children := nte_children e @ [n]\<rparr>)
       (nt_update n (\<lambda>e. e\<lparr>nte_parent := Some p\<rparr>) nt)"

definition nte_unsetParent :: "name \<Rightarrow> name \<Rightarrow> nameTree \<Rightarrow> nameTree" where
  "nte_unsetParent n p nt =
     nt_update n (\<lambda>e. e\<lparr>nte_parent := None\<rparr>)
       (nt_update p (\<lambda>e. e\<lparr>nte_children := remove1 n (nte_children e)\<rparr>) nt)"

definition setFibEntry :: "name \<Rightarrow> fib_entry option \<Rightarrow> nameTree \<Rightarrow> nameTree" where
  "setFibEntry n x = nt_update n (\<lambda>e. e\<lparr>nte_fib := x\<rparr>)"

definition insertPitEntry :: "name \<Rightarrow> pit_entry \<Rightarrow> nameTree \<Rightarrow> nameTree" where
  "insertPitEntry n x = nt_update n (\<lambda>e. e\<lparr>nte_pits := nte_pits e @ [x]\<rparr>)"

text \<open>The hole left by the erased entry is filled with the last one.\<close>

definition eraseSwap :: "('a \<Rightarrow> bool) \<Rightarrow> 'a list \<Rightarrow> 'a list" where
  "eraseSwap p xs = (if indexOf p xs = length xs then xs
                     else butlast (xs[indexOf p xs := last xs]))"

definition erasePitEntry :: "name \<Rightarrow> nat \<Rightarrow> nameTree \<Rightarrow> nameTree" where
  "erasePitEntry n pid = nt_update n (\<lambda>e. e\<lparr>nte_pits := eraseSwap (\<lambda>x. pe_id x = pid) (nte_pits e)\<rparr>)"

definition setMeasurementsEntry :: "name \<Rightarrow> meas_entry option \<Rightarrow> nameTree \<Rightarrow> nameTree" where
  "setMeasurementsEntry n x = nt_update n (\<lambda>e. e\<lparr>nte_meas := x\<rparr>)"

definition setStrategyChoiceEntry :: "name \<Rightarrow> sc_entry option \<Rightarrow> nameTree \<Rightarrow> nameTree" where
  "setStrategyChoiceEntry n x = nt_update n (\<lambda>e. e\<lparr>nte_sc := x\<rparr>)"

section \<open>Lookup, removal and search\<close>

text \<open>
  The loop of \<^verbatim>\<open>lookup\<close> inserts the prefixes by increasing length; in its last iteration the
  parent is the prefix of the iteration before.
\<close>

primrec lookup :: "name \<Rightarrow> nat \<Rightarrow> nameTree \<Rightarrow> nameTree" where
  "lookup name 0 nt = fst (nt_insert [] nt)"
| "lookup name (Suc i) nt =
     (let nt' = lookup name i nt;
          (nt'', isNew) = nt_insert (take (Suc i) name) nt'
      in if isNew then nte_setParent (take (Suc i) name) (take i name) nt'' else nt'')"

lemma nt_get_update:
  "nt_get m (nt_update n f nt) = (if m = n then map_option f (nt_get n nt) else nt_get m nt)"
  unfolding nt_get_def nt_update_def by (induction nt) auto

lemma keys_update [simp]: "map fst (nt_update n f nt) = map fst nt"
  by (simp add: nt_update_def comp_def split_def)

lemma length_update [simp]: "length (nt_update n f nt) = length nt"
  by (simp add: nt_update_def)

lemma length_nt_del: "nt_get n nt \<noteq> None \<Longrightarrow> length (nt_del n nt) < length nt"
  unfolding nt_del_def nt_get_def
  by (rule length_filter_less [where x = "(n, the (map_of nt n))"]) (auto dest: map_of_SomeD)

function (sequential) eraseIfEmpty :: "name \<Rightarrow> bool \<Rightarrow> nameTree \<Rightarrow> nameTree \<times> nat" where
  "eraseIfEmpty n canEraseAncestors nt =
     (case nt_get n nt of
        None \<Rightarrow> (nt, 0)
      | Some e \<Rightarrow>
          if nte_isEmpty e
          then let nt1 = (case nte_parent e of None \<Rightarrow> nt | Some p \<Rightarrow> nte_unsetParent n p nt);
                   nt2 = nt_del n nt1
               in if canEraseAncestors
                  then (case nte_parent e of
                          None \<Rightarrow> (nt2, 1)
                        | Some p \<Rightarrow> let (nt3, nErased) = eraseIfEmpty p True nt2 in (nt3, Suc nErased))
                  else (nt2, 1)
          else (nt, 0))"
  by pat_completeness auto

termination
  by (relation "measure (\<lambda>(n, c, nt). length nt)")
    (auto simp: nte_unsetParent_def nt_get_update dest!: arg_cong [of _ _ length]
      intro!: length_nt_del [THEN less_le_trans])

declare eraseIfEmpty.simps [simp del]

definition findExactMatch :: "name \<Rightarrow> nat \<Rightarrow> nameTree \<Rightarrow> name option" where
  "findExactMatch name prefixLen nt =
     (let k = min (length name) prefixLen
      in if k > getMaxDepth then None
         else if nt_get (take k name) nt = None then None else Some (take k name))"

primrec lpmFrom :: "name \<Rightarrow> (name \<Rightarrow> nte \<Rightarrow> bool) \<Rightarrow> nameTree \<Rightarrow> nat \<Rightarrow> name option" where
  "lpmFrom name sel nt 0 =
     (case nt_get [] nt of Some e \<Rightarrow> if sel [] e then Some [] else None | None \<Rightarrow> None)"
| "lpmFrom name sel nt (Suc i) =
     (case nt_get (take (Suc i) name) nt of
        Some e \<Rightarrow> if sel (take (Suc i) name) e then Some (take (Suc i) name) else lpmFrom name sel nt i
      | None \<Rightarrow> lpmFrom name sel nt i)"

definition findLongestPrefixMatch :: "name \<Rightarrow> (name \<Rightarrow> nte \<Rightarrow> bool) \<Rightarrow> nameTree \<Rightarrow> name option" where
  "findLongestPrefixMatch name sel nt = lpmFrom name sel nt (min (length name) getMaxDepth)"

text \<open>
  The overload on an entry follows parent pointers. The first argument bounds the walk; a name
  of length \<open>k\<close> has \<open>k + 1\<close> prefixes, so \<open>k + 1\<close> steps reach the root.
\<close>

primrec walkUp :: "nat \<Rightarrow> name \<Rightarrow> (name \<Rightarrow> nte \<Rightarrow> bool) \<Rightarrow> nameTree \<Rightarrow> name option" where
  "walkUp 0 n sel nt = None"
| "walkUp (Suc k) n sel nt =
     (case nt_get n nt of
        None \<Rightarrow> None
      | Some e \<Rightarrow> if sel n e then Some n
                 else (case nte_parent e of None \<Rightarrow> None | Some p \<Rightarrow> walkUp k p sel nt))"

definition findLongestPrefixMatch_entry :: "name \<Rightarrow> (name \<Rightarrow> nte \<Rightarrow> bool) \<Rightarrow> nameTree \<Rightarrow> name option" where
  "findLongestPrefixMatch_entry n sel nt = walkUp (Suc (length n)) n sel nt"

text \<open>\<^verbatim>\<open>for (size_t i = ...; i <= depth; ++i)\<close> of the overload on a PIT entry: \<open>k\<close> iterations are left.\<close>

primrec goDeeper :: "nat \<Rightarrow> name \<Rightarrow> nat \<Rightarrow> name \<Rightarrow> nameTree \<Rightarrow> name" where
  "goDeeper 0 name i n nt = n"
| "goDeeper (Suc k) name i n nt =
     (case findExactMatch name i nt of None \<Rightarrow> n | Some exact \<Rightarrow> goDeeper k name (Suc i) exact nt)"

definition findLongestPrefixMatch_pit ::
    "name \<Rightarrow> name \<Rightarrow> (name \<Rightarrow> nte \<Rightarrow> bool) \<Rightarrow> nameTree \<Rightarrow> name option" where
  "findLongestPrefixMatch_pit n name sel nt =
     (let depth = min (length name) getMaxDepth;
          n' = (if length n < length name
                then goDeeper (depth - length n) name (length n + 1) n nt else n)
      in findLongestPrefixMatch_entry n' sel nt)"

text \<open>Enumerations are the list of entries their iterator visits.\<close>

primrec enumerateUp :: "nat \<Rightarrow> name \<Rightarrow> (name \<Rightarrow> nte \<Rightarrow> bool) \<Rightarrow> nameTree \<Rightarrow> name list" where
  "enumerateUp 0 n sel nt = []"
| "enumerateUp (Suc k) n sel nt =
     (case nt_get n nt of
        None \<Rightarrow> []
      | Some e \<Rightarrow> (if sel n e then [n] else []) @
                  (case nte_parent e of None \<Rightarrow> [] | Some p \<Rightarrow> enumerateUp k p sel nt))"

definition findAllMatches :: "name \<Rightarrow> (name \<Rightarrow> nte \<Rightarrow> bool) \<Rightarrow> nameTree \<Rightarrow> name list" where
  "findAllMatches name sel nt =
     (case findLongestPrefixMatch name sel nt of
        None \<Rightarrow> []
      | Some n \<Rightarrow> enumerateUp (Suc (length n)) n sel nt)"

definition fullEnumerate :: "(name \<Rightarrow> nte \<Rightarrow> bool) \<Rightarrow> nameTree \<Rightarrow> name list" where
  "fullEnumerate sel nt = map fst (filter (\<lambda>(n, e). sel n e) nt)"

section \<open>The tree as a name index\<close>

lemma nt_get_insert:
  "nt_get m (fst (nt_insert n nt)) =
     (if m = n then Some (case nt_get n nt of None \<Rightarrow> newNte | Some e \<Rightarrow> e) else nt_get m nt)"
  by (auto simp: nt_insert_def nt_get_def split: option.split)

lemma nt_get_del: "nt_get m (nt_del n nt) = (if m = n then None else nt_get m nt)"
  unfolding nt_get_def nt_del_def by (induction nt) auto

lemma nt_keys_insert:
  "distinct (map fst nt) \<Longrightarrow> distinct (map fst (fst (nt_insert n nt)))"
  by (auto simp: nt_insert_def nt_get_def map_of_eq_None_iff)

lemma nt_keys_del: "distinct (map fst nt) \<Longrightarrow> distinct (map fst (nt_del n nt))"
  by (simp add: nt_del_def distinct_map_filter)

interpretation assoc_tree: name_index nt_get "\<lambda>n nt. fst (nt_insert n nt)" nt_del "\<lambda>_. newNte"
  length "\<lambda>nt. distinct (map fst nt)"
proof
  fix t :: nameTree
  assume d: "distinct (map fst t)"
  have "{n. nt_get n t \<noteq> None} = set (map fst t)"
    by (auto simp: nt_get_def map_of_eq_None_iff)
  then show "length t = card {n. nt_get n t \<noteq> None} \<and> finite {n. nt_get n t \<noteq> None}"
    using distinct_card [OF d] by simp
qed (simp_all add: nt_get_insert nt_get_del nt_keys_insert nt_keys_del)

section \<open>The invariant\<close>

text \<open>
  Every name in the tree is within the depth limit and below a present parent; parent and
  children pointers say exactly what the names say.
\<close>

definition nte_linked :: "nameTree \<Rightarrow> name \<Rightarrow> nte \<Rightarrow> bool" where
  "nte_linked nt n e \<longleftrightarrow>
     length n \<le> getMaxDepth \<and>
     (if n = [] then nte_parent e = None
      else nte_parent e = Some (butlast n) \<and> nt_get (butlast n) nt \<noteq> None) \<and>
     distinct (nte_children e) \<and>
     set (nte_children e) = {c. c \<noteq> [] \<and> butlast c = n \<and> nt_get c nt \<noteq> None}"

definition nt_inv :: "nameTree \<Rightarrow> bool" where
  "nt_inv nt \<longleftrightarrow> distinct (map fst nt) \<and> (\<forall>n e. nt_get n nt = Some e \<longrightarrow> nte_linked nt n e)"

text \<open>What the four tables see of the tree.\<close>

definition nt_fib :: "name \<Rightarrow> nameTree \<Rightarrow> fib_entry option" where
  "nt_fib n nt = (case nt_get n nt of None \<Rightarrow> None | Some e \<Rightarrow> nte_fib e)"

definition nt_pits :: "name \<Rightarrow> nameTree \<Rightarrow> pit_entry list" where
  "nt_pits n nt = (case nt_get n nt of None \<Rightarrow> [] | Some e \<Rightarrow> nte_pits e)"

definition nt_meas :: "name \<Rightarrow> nameTree \<Rightarrow> meas_entry option" where
  "nt_meas n nt = (case nt_get n nt of None \<Rightarrow> None | Some e \<Rightarrow> nte_meas e)"

definition nt_sc :: "name \<Rightarrow> nameTree \<Rightarrow> sc_entry option" where
  "nt_sc n nt = (case nt_get n nt of None \<Rightarrow> None | Some e \<Rightarrow> nte_sc e)"

definition sameTables :: "nameTree \<Rightarrow> nameTree \<Rightarrow> bool" where
  "sameTables nt nt' \<longleftrightarrow> (\<forall>n. nt_fib n nt' = nt_fib n nt \<and> nt_pits n nt' = nt_pits n nt \<and>
     nt_meas n nt' = nt_meas n nt \<and> nt_sc n nt' = nt_sc n nt)"

lemmas nt_views = nt_fib_def nt_pits_def nt_meas_def nt_sc_def

lemma sameTables_refl [simp]: "sameTables nt nt"
  by (simp add: sameTables_def)

lemma sameTables_trans: "sameTables a b \<Longrightarrow> sameTables b c \<Longrightarrow> sameTables a c"
  by (simp add: sameTables_def)

lemma nt_inv_empty: "nt_inv []"
  by (simp add: nt_inv_def nt_get_def)

lemma nt_inv_linked: "nt_inv nt \<Longrightarrow> nt_get n nt = Some e \<Longrightarrow> nte_linked nt n e"
  by (simp add: nt_inv_def)

lemma nt_inv_parent:
  assumes "nt_inv nt" and "nt_get n nt = Some e"
  shows "nte_parent e = (if n = [] then None else Some (butlast n))"
    and "n \<noteq> [] \<Longrightarrow> nt_get (butlast n) nt \<noteq> None"
    and "length n \<le> getMaxDepth"
  using nt_inv_linked [OF assms] by (auto simp: nte_linked_def split: if_splits)

text \<open>Every prefix of a present name is present.\<close>

lemma nt_inv_prefix:
  assumes inv: "nt_inv nt" and "nt_get n nt \<noteq> None" and "prefix m n"
  shows "nt_get m nt \<noteq> None"
  using assms(2,3)
proof (induction n rule: rev_induct)
  case (snoc x n)
  then have "nt_get n nt \<noteq> None"
    using nt_inv_parent(2) [OF inv, of "n @ [x]"] by auto
  with snoc show ?case by (auto simp: prefix_snoc)
qed simp

text \<open>An update that leaves the links alone keeps the invariant.\<close>

lemma nt_inv_update [nfd_inv]:
  assumes "nt_inv nt"
    and "\<And>e. nte_parent (f e) = nte_parent e \<and> nte_children (f e) = nte_children e"
  shows "nt_inv (nt_update n f nt)"
proof -
  have "nte_linked (nt_update n f nt) m e'"
    if get: "nt_get m (nt_update n f nt) = Some e'" for m e'
  proof -
    obtain e where e: "nt_get m nt = Some e" and "e' = e \<or> e' = f e"
      using get by (auto simp: nt_get_update split: if_splits)
    then have l: "nte_parent e' = nte_parent e \<and> nte_children e' = nte_children e"
      using assms(2) by auto
    have dom: "nt_get k (nt_update n f nt) \<noteq> None \<longleftrightarrow> nt_get k nt \<noteq> None" for k
      by (simp add: nt_get_update)
    show ?thesis
      using nt_inv_linked [OF assms(1) e] l unfolding nte_linked_def dom by simp
  qed
  then show ?thesis
    using assms(1) by (simp add: nt_inv_def)
qed

lemma nt_inv_setters [nfd_inv]:
  assumes "nt_inv nt"
  shows "nt_inv (setFibEntry n f nt)" "nt_inv (insertPitEntry n p nt)"
    "nt_inv (erasePitEntry n pid nt)" "nt_inv (setMeasurementsEntry n m nt)"
    "nt_inv (setStrategyChoiceEntry n s nt)"
  using assms unfolding setFibEntry_def insertPitEntry_def erasePitEntry_def
    setMeasurementsEntry_def setStrategyChoiceEntry_def
  by (auto intro!: nt_inv_update)

text \<open>Each setter changes one table at one name.\<close>

lemmas nte_setters = setFibEntry_def insertPitEntry_def erasePitEntry_def
  setMeasurementsEntry_def setStrategyChoiceEntry_def

lemma nt_get_setters [simp]:
  "nt_get m (setFibEntry n f nt) = None \<longleftrightarrow> nt_get m nt = None"
  "nt_get m (insertPitEntry n p nt) = None \<longleftrightarrow> nt_get m nt = None"
  "nt_get m (erasePitEntry n pid nt) = None \<longleftrightarrow> nt_get m nt = None"
  "nt_get m (setMeasurementsEntry n me nt) = None \<longleftrightarrow> nt_get m nt = None"
  "nt_get m (setStrategyChoiceEntry n sc nt) = None \<longleftrightarrow> nt_get m nt = None"
  by (simp_all add: nte_setters nt_get_update)

lemma nt_fib_setters [simp]:
  "nt_fib m (setFibEntry n f nt) = (if m = n \<and> nt_get n nt \<noteq> None then f else nt_fib m nt)"
  "nt_fib m (insertPitEntry n p nt) = nt_fib m nt"
  "nt_fib m (erasePitEntry n pid nt) = nt_fib m nt"
  "nt_fib m (setMeasurementsEntry n me nt) = nt_fib m nt"
  "nt_fib m (setStrategyChoiceEntry n sc nt) = nt_fib m nt"
  by (auto simp: nte_setters nt_views nt_get_update split: option.split)

lemma nt_pits_setters [simp]:
  "nt_pits m (setFibEntry n f nt) = nt_pits m nt"
  "nt_pits m (insertPitEntry n p nt) =
     (if m = n \<and> nt_get n nt \<noteq> None then nt_pits m nt @ [p] else nt_pits m nt)"
  "nt_pits m (erasePitEntry n pid nt) =
     (if m = n then eraseSwap (\<lambda>x. pe_id x = pid) (nt_pits m nt) else nt_pits m nt)"
  "nt_pits m (setMeasurementsEntry n me nt) = nt_pits m nt"
  "nt_pits m (setStrategyChoiceEntry n sc nt) = nt_pits m nt"
  by (auto simp: nte_setters nt_views nt_get_update eraseSwap_def split: option.split)

lemma nt_meas_setters [simp]:
  "nt_meas m (setFibEntry n f nt) = nt_meas m nt"
  "nt_meas m (insertPitEntry n p nt) = nt_meas m nt"
  "nt_meas m (erasePitEntry n pid nt) = nt_meas m nt"
  "nt_meas m (setMeasurementsEntry n me nt) = (if m = n \<and> nt_get n nt \<noteq> None then me else nt_meas m nt)"
  "nt_meas m (setStrategyChoiceEntry n sc nt) = nt_meas m nt"
  by (auto simp: nte_setters nt_views nt_get_update split: option.split)

lemma nt_sc_setters [simp]:
  "nt_sc m (setFibEntry n f nt) = nt_sc m nt"
  "nt_sc m (insertPitEntry n p nt) = nt_sc m nt"
  "nt_sc m (erasePitEntry n pid nt) = nt_sc m nt"
  "nt_sc m (setMeasurementsEntry n me nt) = nt_sc m nt"
  "nt_sc m (setStrategyChoiceEntry n sc nt) = (if m = n \<and> nt_get n nt \<noteq> None then sc else nt_sc m nt)"
  by (auto simp: nte_setters nt_views nt_get_update split: option.split)

text \<open>A name that carries a table entry is present.\<close>

lemma nt_view_present:
  "nt_fib n nt \<noteq> None \<Longrightarrow> nt_get n nt \<noteq> None"
  "p \<in> set (nt_pits n nt) \<Longrightarrow> nt_get n nt \<noteq> None"
  "nt_meas n nt \<noteq> None \<Longrightarrow> nt_get n nt \<noteq> None"
  "nt_sc n nt \<noteq> None \<Longrightarrow> nt_get n nt \<noteq> None"
  by (cases "nt_get n nt"; simp add: nt_views)+

lemma finite_present: "finite {n. nt_get n nt \<noteq> None}"
  unfolding nt_get_def using finite_dom_map_of [of nt] by (simp add: dom_def)

section \<open>Lookup\<close>

text \<open>Linking a new leaf below its present parent, and unlinking a leaf.\<close>

lemma nt_get_link:
  assumes "n \<noteq> p"
  shows "nt_get m (nte_setParent n p (fst (nt_insert n nt))) =
    (if m = n then Some ((case nt_get n nt of None \<Rightarrow> newNte | Some e \<Rightarrow> e)\<lparr>nte_parent := Some p\<rparr>)
     else if m = p then map_option (\<lambda>e. e\<lparr>nte_children := nte_children e @ [n]\<rparr>) (nt_get p nt)
     else nt_get m nt)"
  using assms by (simp add: nte_setParent_def nt_get_update nt_get_insert)

lemma butlast_neq: "n \<noteq> [] \<Longrightarrow> butlast n \<noteq> n"
  by (metis append_butlast_last_id not_Cons_self2 self_append_conv)

lemma nt_inv_link:
  assumes inv: "nt_inv nt" and new: "nt_get n nt = None" and ne: "n \<noteq> []"
    and p: "nt_get (butlast n) nt \<noteq> None" and len: "length n \<le> getMaxDepth"
  shows "nt_inv (nte_setParent n (butlast n) (fst (nt_insert n nt)))" (is "nt_inv ?t")
proof -
  note np = butlast_neq [OF ne]
  note get = nt_get_link [OF np [symmetric], of _ nt, unfolded new option.case]
  have dom: "nt_get k ?t \<noteq> None \<longleftrightarrow> k = n \<or> nt_get k nt \<noteq> None" for k
    using p by (auto simp: get)
  have nochild: "\<not> (c \<noteq> [] \<and> butlast c = n \<and> nt_get c nt \<noteq> None)" for c
    using new by (auto dest: nt_inv_parent(2) [OF inv])
  have "nte_linked ?t m e'" if m: "nt_get m ?t = Some e'" for m e'
  proof (cases "m = n")
    case True
    then have "e' = newNte\<lparr>nte_parent := Some (butlast n)\<rparr>" using m by (simp add: get)
    then show ?thesis
      using True ne len p nochild np unfolding nte_linked_def dom by (auto simp: newNte_def)
  next
    case False
    then obtain e where e: "nt_get m nt = Some e" and
      e': "e' = (if m = butlast n then e\<lparr>nte_children := nte_children e @ [n]\<rparr> else e)"
      using m by (auto simp: get split: if_splits)
    note l = nt_inv_linked [OF inv e]
    let ?C = "{c. c \<noteq> [] \<and> butlast c = m \<and> nt_get c nt \<noteq> None}"
    have C: "distinct (nte_children e)" "set (nte_children e) = ?C" and len': "length m \<le> getMaxDepth"
      and par: "if m = [] then nte_parent e = None
        else nte_parent e = Some (butlast m) \<and> nt_get (butlast m) nt \<noteq> None"
      using l unfolding nte_linked_def by blast+
    have n: "n \<notin> set (nte_children e)" unfolding C using new by simp
    have "{c. c \<noteq> [] \<and> butlast c = m \<and> (c = n \<or> nt_get c nt \<noteq> None)} =
        (if m = butlast n then insert n ?C else ?C)"
      using ne by auto
    then show ?thesis
      using C n len' par unfolding nte_linked_def dom e' by (simp split: if_splits)
  qed
  moreover have "distinct (map fst ?t)"
    using inv nt_keys_insert by (auto simp: nt_inv_def nte_setParent_def)
  ultimately show ?thesis by (simp add: nt_inv_def)
qed

lemma nt_inv_root: "nt_inv nt \<Longrightarrow> nt_inv (fst (nt_insert [] nt))"
proof (cases "nt_get [] nt")
  case None
  assume inv: "nt_inv nt"
  have "nt_get c nt = None" for c
    using nt_inv_prefix [OF inv, of c "[]"] None by (cases "nt_get c nt") auto
  then have "nt = []"
    by (cases nt) (auto simp: nt_get_def split: if_splits, metis option.distinct(1))
  then show ?thesis
    by (simp add: nt_insert_def nt_get_def nt_inv_def nte_linked_def newNte_def)
qed (simp add: nt_insert_def)

lemma sameTables_root: "sameTables nt (fst (nt_insert [] nt))"
  by (simp add: sameTables_def nt_views nt_get_insert newNte_def split: option.split)

lemma sameTables_link:
  "n \<noteq> p \<Longrightarrow> nt_get n nt = None \<Longrightarrow> sameTables nt (nte_setParent n p (fst (nt_insert n nt)))"
  by (simp add: sameTables_def nt_views nt_get_link newNte_def split: option.split)

lemma lookup_spec:
  assumes "nt_inv nt" and "k \<le> length name" and "k \<le> getMaxDepth"
  shows "nt_inv (lookup name k nt) \<and> sameTables nt (lookup name k nt) \<and>
    (\<forall>m. nt_get m (lookup name k nt) \<noteq> None \<longleftrightarrow> nt_get m nt \<noteq> None \<or> prefix m (take k name))"
  using assms(2,3)
proof (induction k)
  case 0
  show ?case
    using nt_inv_root [OF assms(1)] sameTables_root by (auto simp: nt_get_insert)
next
  case (Suc i)
  let ?t = "lookup name i nt" and ?n = "take (Suc i) name"
  have ih: "nt_inv ?t" "sameTables nt ?t"
    and dom: "\<And>m. nt_get m ?t \<noteq> None \<longleftrightarrow> nt_get m nt \<noteq> None \<or> prefix m (take i name)"
    using Suc by auto
  have ne: "?n \<noteq> []" and bl: "butlast ?n = take i name" and sn: "?n = take i name @ [name ! i]"
    using Suc.prems by (auto simp: butlast_take take_Suc_conv_app_nth)
  have pre: "prefix m ?n \<longleftrightarrow> m = ?n \<or> prefix m (take i name)" for m
    unfolding sn by (simp add: prefix_snoc)
  show ?case
  proof (cases "nt_get ?n ?t")
    case None
    have r: "lookup name (Suc i) nt = nte_setParent ?n (butlast ?n) (fst (nt_insert ?n ?t))"
      using None by (simp add: nt_insert_def Let_def bl)
    have p: "nt_get (butlast ?n) ?t \<noteq> None" unfolding bl dom by simp
    have len: "length ?n \<le> getMaxDepth" using Suc.prems by simp
    have np: "?n \<noteq> butlast ?n" using butlast_neq [OF ne] by simp
    have "nt_get m (lookup name (Suc i) nt) \<noteq> None \<longleftrightarrow> m = ?n \<or> nt_get m ?t \<noteq> None" for m
      unfolding r nt_get_link [OF np] using p by auto
    then have "\<forall>m. nt_get m (lookup name (Suc i) nt) \<noteq> None \<longleftrightarrow> nt_get m nt \<noteq> None \<or> prefix m ?n"
      unfolding dom pre by blast
    then show ?thesis
      using nt_inv_link [OF ih(1) None ne p len] sameTables_trans [OF ih(2) sameTables_link [OF np None]]
      unfolding r by blast
  next
    case (Some e)
    have "nt_get ?n nt \<noteq> None \<or> prefix ?n (take i name)" using dom [of ?n] Some by simp
    moreover have "\<not> prefix ?n (take i name)"
      using Suc.prems by (auto dest: prefix_length_le)
    ultimately have n: "nt_get ?n nt \<noteq> None" by simp
    have "lookup name (Suc i) nt = ?t"
      using Some by (simp add: nt_insert_def Let_def)
    then show ?thesis
      using ih dom pre n by auto
  qed
qed

lemma nt_inv_lookup [nfd_inv]:
  "nt_inv nt \<Longrightarrow> k \<le> length name \<Longrightarrow> k \<le> getMaxDepth \<Longrightarrow> nt_inv (lookup name k nt)"
  using lookup_spec by blast

lemma sameTables_lookup:
  "nt_inv nt \<Longrightarrow> k \<le> length name \<Longrightarrow> k \<le> getMaxDepth \<Longrightarrow> sameTables nt (lookup name k nt)"
  using lookup_spec by blast

lemma nt_get_lookup:
  "nt_inv nt \<Longrightarrow> k \<le> length name \<Longrightarrow> k \<le> getMaxDepth \<Longrightarrow>
   nt_get m (lookup name k nt) \<noteq> None \<longleftrightarrow> nt_get m nt \<noteq> None \<or> prefix m (take k name)"
  using lookup_spec by blast

section \<open>Removal\<close>

definition unlink :: "name \<Rightarrow> nte \<Rightarrow> nameTree \<Rightarrow> nameTree" where
  "unlink n e nt =
     nt_del n (case nte_parent e of None \<Rightarrow> nt | Some p \<Rightarrow> nte_unsetParent n p nt)"

lemma nt_get_unlink:
  assumes "nt_inv nt" and "nt_get n nt = Some e"
  shows "nt_get m (unlink n e nt) =
    (if m = n then None
     else if n \<noteq> [] \<and> m = butlast n
     then map_option (\<lambda>e. e\<lparr>nte_children := remove1 n (nte_children e)\<rparr>) (nt_get m nt)
     else nt_get m nt)"
  using nt_inv_parent(1) [OF assms] butlast_neq
  by (auto simp: unlink_def nt_get_del nte_unsetParent_def nt_get_update)

lemma nt_inv_unlink:
  assumes inv: "nt_inv nt" and e: "nt_get n nt = Some e" and leaf: "nte_children e = []"
  shows "nt_inv (unlink n e nt)"
proof -
  note get = nt_get_unlink [OF inv e]
  have dom: "nt_get k (unlink n e nt) \<noteq> None \<longleftrightarrow> k \<noteq> n \<and> nt_get k nt \<noteq> None" for k
    by (auto simp: get)
  have nochild: "butlast c \<noteq> n" if "c \<noteq> []" "nt_get c nt \<noteq> None" for c
    using nt_inv_linked [OF inv e] leaf that by (auto simp: nte_linked_def)
  have "nte_linked (unlink n e nt) m e'" if m: "nt_get m (unlink n e nt) = Some e'" for m e'
  proof -
    have mn: "m \<noteq> n" using m by (auto simp: get)
    obtain e0 where e0: "nt_get m nt = Some e0" and
      e': "e' = (if n \<noteq> [] \<and> m = butlast n then e0\<lparr>nte_children := remove1 n (nte_children e0)\<rparr> else e0)"
      using m by (auto simp: get split: if_splits)
    let ?C = "{c. c \<noteq> [] \<and> butlast c = m \<and> nt_get c nt \<noteq> None}"
    have C: "distinct (nte_children e0)" "set (nte_children e0) = ?C" and len': "length m \<le> getMaxDepth"
      and par: "if m = [] then nte_parent e0 = None
        else nte_parent e0 = Some (butlast m) \<and> nt_get (butlast m) nt \<noteq> None"
      using nt_inv_linked [OF inv e0] unfolding nte_linked_def by blast+
    have mc: "m \<noteq> [] \<Longrightarrow> butlast m \<noteq> n" using nochild e0 by simp
    have "{c. c \<noteq> [] \<and> butlast c = m \<and> c \<noteq> n \<and> nt_get c nt \<noteq> None} =
        (if n \<noteq> [] \<and> m = butlast n then ?C - {n} else ?C)"
      by auto
    then show ?thesis
      using C len' par mn mc unfolding nte_linked_def dom e' by (simp split: if_splits)
  qed
  moreover have "distinct (map fst (unlink n e nt))"
    using inv nt_keys_del by (auto simp: nt_inv_def unlink_def nte_unsetParent_def split: option.split)
  ultimately show ?thesis by (simp add: nt_inv_def)
qed

lemma sameTables_unlink:
  assumes "nt_inv nt" and "nt_get n nt = Some e" and "\<not> hasTableEntries e"
  shows "sameTables nt (unlink n e nt)"
  using assms(2,3)
  by (simp add: sameTables_def nt_views nt_get_unlink [OF assms(1,2)] hasTableEntries_def
      split: option.split)

lemma length_unlink:
  assumes "nt_inv nt" and e: "nt_get n nt = Some e"
  shows "Suc (length (unlink n e nt)) = length nt"
proof -
  let ?t = "case nte_parent e of None \<Rightarrow> nt | Some p \<Rightarrow> nte_unsetParent n p nt"
  have k: "map fst ?t = map fst nt"
    by (simp add: nte_unsetParent_def split: option.split)
  have d: "distinct (map fst nt)" using assms(1) by (simp add: nt_inv_def)
  have n: "n \<in> set (map fst nt)"
    using e by (force simp: nt_get_def dest: map_of_SomeD)
  have "length (nt_del n ?t) = length (filter (\<lambda>m. m \<noteq> n) (map fst ?t))"
    by (simp add: nt_del_def filter_map comp_def)
  also have "\<dots> = length (removeAll n (map fst nt))"
    unfolding k removeAll_filter_not_eq by (simp only: eq_commute [of n])
  also have "\<dots> = length nt - 1"
    using d n by (simp add: distinct_remove1_removeAll [symmetric] length_remove1)
  finally show ?thesis
    using n by (cases nt) (auto simp: unlink_def)
qed

lemma eraseIfEmpty_eq:
  assumes "nt_inv nt"
  shows "eraseIfEmpty n anc nt =
    (case nt_get n nt of
       None \<Rightarrow> (nt, 0)
     | Some e \<Rightarrow> if \<not> nte_isEmpty e then (nt, 0)
               else if anc \<and> n \<noteq> [] then apsnd Suc (eraseIfEmpty (butlast n) True (unlink n e nt))
               else (unlink n e nt, 1))"
proof (cases "nt_get n nt")
  case (Some e)
  then show ?thesis
    using nt_inv_parent(1) [OF assms Some]
    by (subst eraseIfEmpty.simps) (auto simp: unlink_def Let_def split_def apsnd_def map_prod_def)
qed (simp add: eraseIfEmpty.simps)

text \<open>Entries without children or table entries only waste space; a trimmed tree has none.\<close>

definition nt_trimmed :: "nameTree \<Rightarrow> bool" where
  "nt_trimmed nt \<longleftrightarrow> list_all (\<lambda>(n, e). \<not> nte_isEmpty e) nt"

definition trimmedExcept :: "name \<Rightarrow> nameTree \<Rightarrow> bool" where
  "trimmedExcept n nt \<longleftrightarrow> list_all (\<lambda>(m, e). m = n \<or> \<not> nte_isEmpty e) nt"

lemma nt_trimmed_iff:
  "nt_inv nt \<Longrightarrow> nt_trimmed nt \<longleftrightarrow> (\<forall>n e. nt_get n nt = Some e \<longrightarrow> \<not> nte_isEmpty e)"
  by (auto simp: nt_trimmed_def list_all_iff nt_inv_def nt_get_def map_of_eq_Some_iff)

lemma trimmedExcept_iff:
  "nt_inv nt \<Longrightarrow> trimmedExcept n nt \<longleftrightarrow> (\<forall>m e. nt_get m nt = Some e \<longrightarrow> m = n \<or> \<not> nte_isEmpty e)"
  by (auto simp: trimmedExcept_def list_all_iff nt_inv_def nt_get_def map_of_eq_Some_iff)

lemma trimmed_of_except:
  "nt_inv nt \<Longrightarrow> trimmedExcept n nt \<Longrightarrow> (\<And>e. nt_get n nt = Some e \<Longrightarrow> \<not> nte_isEmpty e) \<Longrightarrow> nt_trimmed nt"
  unfolding nt_trimmed_iff trimmedExcept_iff by blast

lemma eraseIfEmpty_spec:
  assumes "nt_inv nt"
  shows "let (nt', k) = eraseIfEmpty n anc nt in
    nt_inv nt' \<and> sameTables nt nt' \<and> length nt' + k = length nt \<and>
    (\<forall>m. nt_get m nt' \<noteq> None \<longrightarrow> nt_get m nt \<noteq> None) \<and>
    (\<forall>m. \<not> prefix m n \<longrightarrow> nt_get m nt' = nt_get m nt) \<and>
    (anc \<longrightarrow> trimmedExcept n nt \<longrightarrow> nt_trimmed nt')"
  using assms
proof (induction "length n" arbitrary: n anc nt rule: less_induct)
  case less
  show ?case
  proof (cases "nt_get n nt")
    case None
    then show ?thesis
      using less.prems trimmed_of_except [OF less.prems, of n] by (simp add: eraseIfEmpty_eq)
  next
    case (Some e)
    show ?thesis
    proof (cases "nte_isEmpty e")
      case False
      then show ?thesis
        using less.prems Some trimmed_of_except [OF less.prems, of n] by (simp add: eraseIfEmpty_eq)
    next
      case True
      let ?u = "unlink n e nt"
      have leaf: "nte_children e = []" and nt: "\<not> hasTableEntries e"
        using True by (simp_all add: nte_isEmpty_def)
      note u = nt_inv_unlink [OF less.prems Some leaf] sameTables_unlink [OF less.prems Some nt]
        length_unlink [OF less.prems Some]
      note get = nt_get_unlink [OF less.prems Some]
      have sub: "nt_get m ?u \<noteq> None \<Longrightarrow> nt_get m nt \<noteq> None" for m
        by (auto simp: get split: if_splits)
      have out: "\<not> prefix m n \<Longrightarrow> nt_get m ?u = nt_get m nt" for m
        by (auto simp: get prefixeq_butlast)
      have trim: "trimmedExcept n nt \<Longrightarrow> trimmedExcept (butlast n) ?u"
        unfolding trimmedExcept_iff [OF less.prems] trimmedExcept_iff [OF u(1)]
        by (auto simp: get split: if_splits)
      show ?thesis
      proof (cases "anc \<and> n \<noteq> []")
        case True
        obtain nt' k where r: "eraseIfEmpty (butlast n) True ?u = (nt', k)" by fastforce
        have ih: "nt_inv nt'" "sameTables ?u nt'" "length nt' + k = length ?u"
          "\<And>m. nt_get m nt' \<noteq> None \<Longrightarrow> nt_get m ?u \<noteq> None"
          "\<And>m. \<not> prefix m (butlast n) \<Longrightarrow> nt_get m nt' = nt_get m ?u"
          "trimmedExcept (butlast n) ?u \<Longrightarrow> nt_trimmed nt'"
          using less.hyps [OF _ u(1), of "butlast n" True] True r by auto
        have "eraseIfEmpty n anc nt = (nt', Suc k)"
          using True \<open>nte_isEmpty e\<close> Some r by (simp add: eraseIfEmpty_eq [OF less.prems])
        moreover have "\<not> prefix m n \<Longrightarrow> \<not> prefix m (butlast n)" for m
          using prefix_order.trans prefixeq_butlast by blast
        ultimately show ?thesis
          using ih u(3) sub out trim sameTables_trans [OF u(2) ih(2)] by auto
      next
        case False
        then have r: "eraseIfEmpty n anc nt = (?u, 1)"
          using \<open>nte_isEmpty e\<close> Some by (auto simp: eraseIfEmpty_eq [OF less.prems])
        have "anc \<Longrightarrow> trimmedExcept n nt \<Longrightarrow> nt_trimmed ?u"
          using False trim trimmed_of_except [OF u(1), of "[]"] get [of "[]"] by auto
        then show ?thesis
          unfolding r using u sub out by simp
      qed
    qed
  qed
qed

lemma eraseIfEmpty_facts:
  assumes "nt_inv nt"
  shows "nt_inv (fst (eraseIfEmpty n anc nt))"
    and "sameTables nt (fst (eraseIfEmpty n anc nt))"
    and "length (fst (eraseIfEmpty n anc nt)) + snd (eraseIfEmpty n anc nt) = length nt"
    and "nt_get m (fst (eraseIfEmpty n anc nt)) \<noteq> None \<Longrightarrow> nt_get m nt \<noteq> None"
    and "trimmedExcept n nt \<Longrightarrow> nt_trimmed (fst (eraseIfEmpty n True nt))"
  using eraseIfEmpty_spec [OF assms, of n] by (auto simp: split_def Let_def)

lemmas nt_inv_eraseIfEmpty [nfd_inv] = eraseIfEmpty_facts(1)

section \<open>Longest prefix match\<close>

definition hit :: "(name \<Rightarrow> nte \<Rightarrow> bool) \<Rightarrow> nameTree \<Rightarrow> name \<Rightarrow> bool" where
  "hit sel nt n \<longleftrightarrow> (case nt_get n nt of None \<Rightarrow> False | Some e \<Rightarrow> sel n e)"

text \<open>The specification: the first hit among the prefixes of a name, longest first.\<close>

definition longestMatch :: "name \<Rightarrow> (name \<Rightarrow> bool) \<Rightarrow> name option" where
  "longestMatch name P = find P (rev (prefixes name))"

lemma longestMatch_Nil [simp]: "longestMatch [] P = (if P [] then Some [] else None)"
  by (simp add: longestMatch_def)

lemma longestMatch_snoc [simp]:
  "longestMatch (n @ [c]) P = (if P (n @ [c]) then Some (n @ [c]) else longestMatch n P)"
  by (simp add: longestMatch_def)

lemma longestMatch_Some_iff:
  "longestMatch name P = Some p \<longleftrightarrow>
     prefix p name \<and> P p \<and> (\<forall>q. prefix q name \<longrightarrow> P q \<longrightarrow> length q \<le> length p)"
proof (induction name rule: rev_induct)
  case (snoc c name)
  have short: "length q \<le> length name" if "prefix q name" for q
    using that by (rule prefix_length_le)
  show ?case
  proof (cases "P (name @ [c])")
    case True
    have "(\<forall>q. prefix q (name @ [c]) \<longrightarrow> P q \<longrightarrow> length q \<le> length p) \<longleftrightarrow> Suc (length name) \<le> length p"
      using True short by (fastforce simp: prefix_snoc)
    then show ?thesis
      using True short [of p] by (auto simp: prefix_snoc)
  next
    case False
    then show ?thesis
      using snoc by (auto simp: prefix_snoc)
  qed
qed auto

lemma longestMatch_None_iff: "longestMatch name P = None \<longleftrightarrow> (\<forall>q. prefix q name \<longrightarrow> \<not> P q)"
  by (auto simp: longestMatch_def find_None_iff in_set_prefixes)

text \<open>Prefixes below the deepest possible hit do not matter.\<close>

lemma longestMatch_cut:
  "prefix n m \<Longrightarrow> (\<And>q. prefix q m \<Longrightarrow> length n < length q \<Longrightarrow> \<not> P q) \<Longrightarrow>
   longestMatch m P = longestMatch n P"
proof (induction m rule: rev_induct)
  case (snoc c m)
  show ?case
  proof (cases "n = m @ [c]")
    case False
    then have "prefix n m" using snoc.prems(1) by (auto simp: prefix_snoc)
    moreover from this have "\<not> P (m @ [c])"
      using snoc.prems(2) [of "m @ [c]"] by (auto dest: prefix_length_le)
    ultimately show ?thesis using snoc by (auto simp: prefix_snoc)
  qed simp
qed simp

lemma lpmFrom_spec:
  "k \<le> length name \<Longrightarrow> lpmFrom name sel nt k = longestMatch (take k name) (hit sel nt)"
  by (induction k) (auto simp: hit_def take_Suc_conv_app_nth split: option.split)

lemma findLongestPrefixMatch_aux:
  "findLongestPrefixMatch name sel nt = longestMatch (take getMaxDepth name) (hit sel nt)"
  by (simp add: findLongestPrefixMatch_def lpmFrom_spec min_def)

lemma walkUp_spec:
  assumes inv: "nt_inv nt"
  shows "nt_get n nt \<noteq> None \<Longrightarrow> walkUp (Suc (length n)) n sel nt = longestMatch n (hit sel nt)"
proof (induction n rule: rev_induct)
  case Nil
  then show ?case
    using nt_inv_parent(1) [OF inv, of "[]"] by (auto simp: hit_def)
next
  case (snoc c n)
  then obtain e where e: "nt_get (n @ [c]) nt = Some e" by auto
  have "nte_parent e = Some n" and "nt_get n nt \<noteq> None"
    using nt_inv_parent(1,2) [OF inv e] by simp_all
  then show ?case
    using snoc.IH e by (simp add: hit_def)
qed

lemma enumerateUp_spec:
  assumes inv: "nt_inv nt"
  shows "nt_get n nt \<noteq> None \<Longrightarrow>
    enumerateUp (Suc (length n)) n sel nt = filter (hit sel nt) (rev (prefixes n))"
proof (induction n rule: rev_induct)
  case Nil
  then show ?case
    using nt_inv_parent(1) [OF inv, of "[]"] by (auto simp: hit_def)
next
  case (snoc c n)
  then obtain e where e: "nt_get (n @ [c]) nt = Some e" by auto
  have "nte_parent e = Some n" and "nt_get n nt \<noteq> None"
    using nt_inv_parent(1,2) [OF inv e] by simp_all
  then show ?case
    using snoc.IH e by (simp add: hit_def)
qed

lemma longestMatch_filter:
  "filter P (rev (prefixes name)) =
     (case longestMatch name P of None \<Rightarrow> [] | Some n \<Rightarrow> filter P (rev (prefixes n)))"
  by (induction name rule: rev_induct) auto

lemma findAllMatches_aux:
  assumes "nt_inv nt"
  shows "findAllMatches name sel nt = filter (hit sel nt) (rev (prefixes (take getMaxDepth name)))"
proof -
  have "nt_get n nt \<noteq> None" if "longestMatch m (hit sel nt) = Some n" for n m
    using that by (auto simp: longestMatch_Some_iff hit_def split: option.splits)
  then show ?thesis
    unfolding longestMatch_filter [of _ "take getMaxDepth name"] findAllMatches_def
      findLongestPrefixMatch_aux
    by (auto simp: enumerateUp_spec [OF assms] simp del: enumerateUp.simps split: option.split)
qed

text \<open>The deepest present prefix, from an entry that is present.\<close>

lemma goDeeper_spec:
  assumes inv: "nt_inv nt"
  shows "j + k = min (length name) getMaxDepth \<Longrightarrow> nt_get (take j name) nt \<noteq> None \<Longrightarrow>
    \<exists>i. goDeeper k name (Suc j) (take j name) nt = take i name \<and> i \<le> min (length name) getMaxDepth \<and>
      nt_get (take i name) nt \<noteq> None \<and>
      (\<forall>q. prefix q name \<longrightarrow> i < length q \<longrightarrow> length q \<le> getMaxDepth \<longrightarrow> nt_get q nt = None)"
proof (induction k arbitrary: j)
  case 0
  then have "prefix q name \<Longrightarrow> j < length q \<Longrightarrow> length q \<le> getMaxDepth \<Longrightarrow> nt_get q nt = None" for q
    by (auto dest: prefix_length_le)
  then show ?case using 0 by auto
next
  case (Suc k)
  have j: "Suc j \<le> length name" "Suc j \<le> getMaxDepth" using Suc.prems by auto
  show ?case
  proof (cases "nt_get (take (Suc j) name) nt")
    case None
    then have f: "findExactMatch name (Suc j) nt = None"
      using j by (simp add: findExactMatch_def min.absorb2)
    have "nt_get q nt = None" if q: "prefix q name" "j < length q" for q
    proof -
      have "prefix (take (Suc j) name) q"
        using q j by (metis Suc_leI length_take min.absorb2 prefix_length_prefix take_is_prefix)
      then show ?thesis using nt_inv_prefix [OF inv] None by blast
    qed
    then show ?thesis using f Suc.prems by auto
  next
    case (Some e)
    then have "findExactMatch name (Suc j) nt = Some (take (Suc j) name)"
      using j by (simp add: findExactMatch_def min.absorb2)
    then show ?thesis
      using Suc.IH [of "Suc j"] Suc.prems Some by auto
  qed
qed

text \<open>Walking the tree from the entry a PIT entry hangs on finds the same entry as probing
  the hash table with every prefix.\<close>

lemma findLongestPrefixMatch_pit_aux:
  assumes inv: "nt_inv nt" and n: "prefix n name" and p: "nt_get n nt \<noteq> None"
  shows "findLongestPrefixMatch_pit n name sel nt = findLongestPrefixMatch name sel nt"
proof -
  let ?d = "min (length name) getMaxDepth"
  have len: "length n \<le> ?d"
    using nt_inv_parent(3) [OF inv] p n by (auto dest: prefix_length_le)
  have tk: "n = take (length n) name" using n by (metis append_eq_conv_conj prefixE)
  have "\<exists>i. (if length n < length name then goDeeper (?d - length n) name (length n + 1) n nt else n) =
      take i name \<and> i \<le> ?d \<and> nt_get (take i name) nt \<noteq> None \<and>
      (\<forall>q. prefix q name \<longrightarrow> i < length q \<longrightarrow> length q \<le> getMaxDepth \<longrightarrow> nt_get q nt = None)"
  proof (cases "length n < length name")
    case True
    then show ?thesis
      using goDeeper_spec [OF inv, of "length n" "?d - length n" name] len p
      unfolding tk [symmetric] by simp
  next
    case False
    then have "prefix q name \<Longrightarrow> \<not> length n < length q" for q
      using prefix_length_le [of q name] by simp
    then show ?thesis
      using False len p tk by (intro exI [of _ "length n"]) simp
  qed
  then obtain i where i: "(if length n < length name
      then goDeeper (?d - length n) name (length n + 1) n nt else n) = take i name"
    "i \<le> ?d" "nt_get (take i name) nt \<noteq> None"
    "\<And>q. prefix q name \<Longrightarrow> i < length q \<Longrightarrow> length q \<le> getMaxDepth \<Longrightarrow> nt_get q nt = None" by blast
  have "longestMatch (take getMaxDepth name) (hit sel nt) = longestMatch (take i name) (hit sel nt)"
  proof (rule longestMatch_cut)
    have "take i (take getMaxDepth name) = take i name"
      using i(2) by (simp add: min.absorb1)
    then show "prefix (take i name) (take getMaxDepth name)"
      by (metis take_is_prefix)
    show "\<not> hit sel nt q" if "prefix q (take getMaxDepth name)" "length (take i name) < length q" for q
    proof -
      have "prefix q name" using that(1) take_is_prefix prefix_order.trans by blast
      moreover have "length q \<le> getMaxDepth" using prefix_length_le [OF that(1)] by simp
      ultimately have "nt_get q nt = None" using i(2) i(4) [of q] that(2) by simp
      then show ?thesis by (simp add: hit_def)
    qed
  qed
  then show ?thesis
    unfolding findLongestPrefixMatch_pit_def Let_def i(1) findLongestPrefixMatch_entry_def
      findLongestPrefixMatch_aux
    using walkUp_spec [OF inv i(3)] by simp
qed

section \<open>Partial enumeration\<close>

text \<open>
  \<^verbatim>\<open>PartialEnumerationImpl::advance\<close> keeps the current entry and whether its children are
  wanted. The loop is a partial function: that it always returns is part of what is proved.
  The value \<open>Some None\<close> is the end iterator.
\<close>

definition predAt :: "(name \<Rightarrow> nte \<Rightarrow> bool \<times> bool) \<Rightarrow> nameTree \<Rightarrow> name \<Rightarrow> bool \<times> bool" where
  "predAt pred nt n = (case nt_get n nt of None \<Rightarrow> (False, False) | Some e \<Rightarrow> pred n e)"

definition childrenAt :: "nameTree \<Rightarrow> name \<Rightarrow> name list" where
  "childrenAt nt n = (case nt_get n nt of None \<Rightarrow> [] | Some e \<Rightarrow> nte_children e)"

datatype siblingResult = VisitSibling name bool | DescendSibling name | NoMoreSibling

fun processSiblings :: "(name \<Rightarrow> nte \<Rightarrow> bool \<times> bool) \<Rightarrow> nameTree \<Rightarrow> name list \<Rightarrow> siblingResult" where
  "processSiblings pred nt [] = NoMoreSibling"
| "processSiblings pred nt (n # ns) =
     (let (wantSelf, wantChildren) = predAt pred nt n
      in if wantSelf then VisitSibling n wantChildren
         else if wantChildren then DescendSibling n
         else processSiblings pred nt ns)"

definition siblingsAfter :: "nameTree \<Rightarrow> name \<Rightarrow> name \<Rightarrow> name list" where
  "siblingsAfter nt p n = tl (dropWhile (\<lambda>m. m \<noteq> n) (childrenAt nt p))"

partial_function (option) partialLoop ::
    "(name \<Rightarrow> nte \<Rightarrow> bool \<times> bool) \<Rightarrow> nameTree \<Rightarrow> name \<Rightarrow> name \<Rightarrow> bool \<Rightarrow> (name \<times> bool) option option" where
  "partialLoop pred nt ref n wantChildren =
     (if n \<noteq> ref \<or> (wantChildren \<and> childrenAt nt n \<noteq> [])
      then if wantChildren \<and> childrenAt nt n \<noteq> []
           then let c = hd (childrenAt nt n); (wantSelf, wantChildren') = predAt pred nt c
                in if wantSelf then Some (Some (c, wantChildren'))
                   else partialLoop pred nt ref c wantChildren'
           else (case nt_get n nt of
                   None \<Rightarrow> None
                 | Some e \<Rightarrow>
                    (case nte_parent e of
                       None \<Rightarrow> None
                     | Some p \<Rightarrow>
                        (case processSiblings pred nt (siblingsAfter nt p n) of
                           VisitSibling m wantChildren' \<Rightarrow> Some (Some (m, wantChildren'))
                         | DescendSibling m \<Rightarrow> partialLoop pred nt ref m True
                         | NoMoreSibling \<Rightarrow> partialLoop pred nt ref p False)))
      else Some None)"

text \<open>The entries the iterator visits from a position on, and from the start.\<close>

partial_function (option) partialFrom ::
    "(name \<Rightarrow> nte \<Rightarrow> bool \<times> bool) \<Rightarrow> nameTree \<Rightarrow> name \<Rightarrow> name \<Rightarrow> bool \<Rightarrow> name list option" where
  "partialFrom pred nt ref n wantChildren =
     Option.bind (partialLoop pred nt ref n wantChildren) (\<lambda>r.
       case r of
         None \<Rightarrow> Some []
       | Some (m, wantChildren') \<Rightarrow>
           Option.bind (partialFrom pred nt ref m wantChildren') (\<lambda>ms. Some (m # ms)))"

definition partialEnumerate ::
    "name \<Rightarrow> (name \<Rightarrow> nte \<Rightarrow> bool \<times> bool) \<Rightarrow> nameTree \<Rightarrow> name list option" where
  "partialEnumerate pfx pred nt =
     (case findExactMatch pfx (length pfx) nt of
        None \<Rightarrow> Some []
      | Some ref \<Rightarrow>
          let (wantSelf, wantChildren) = predAt pred nt ref
          in map_option (\<lambda>ns. (if wantSelf then [ref] else []) @ ns)
               (partialFrom pred nt ref ref wantChildren))"

text \<open>The specification: pre-order, skipping the subtrees the predicate does not want.\<close>

primrec preorderTo :: "nat \<Rightarrow> (name \<Rightarrow> nte \<Rightarrow> bool \<times> bool) \<Rightarrow> nameTree \<Rightarrow> name \<Rightarrow> name list" where
  "preorderTo 0 pred nt n = []"
| "preorderTo (Suc d) pred nt n =
     (let (wantSelf, wantChildren) = predAt pred nt n
      in (if wantSelf then [n] else []) @
         (if wantChildren then concat (map (preorderTo d pred nt) (childrenAt nt n)) else []))"

definition preorder :: "(name \<Rightarrow> nte \<Rightarrow> bool \<times> bool) \<Rightarrow> nameTree \<Rightarrow> name \<Rightarrow> name list" where
  "preorder pred nt n = preorderTo (Suc getMaxDepth - length n) pred nt n"

lemma childrenAt_inv:
  assumes "nt_inv nt"
  shows "distinct (childrenAt nt n)"
    and "c \<in> set (childrenAt nt n) \<longleftrightarrow> c \<noteq> [] \<and> butlast c = n \<and> nt_get c nt \<noteq> None"
proof -
  show "distinct (childrenAt nt n)"
    using nt_inv_linked [OF assms, of n] by (auto simp: childrenAt_def nte_linked_def split: option.split)
  show "c \<in> set (childrenAt nt n) \<longleftrightarrow> c \<noteq> [] \<and> butlast c = n \<and> nt_get c nt \<noteq> None"
  proof (cases "nt_get n nt")
    case None
    then show ?thesis
      by (auto simp: childrenAt_def dest: nt_inv_parent(2) [OF assms])
  next
    case (Some e)
    then show ?thesis
      using nt_inv_linked [OF assms Some] by (auto simp: childrenAt_def nte_linked_def)
  qed
qed

lemma childrenAt_length:
  "nt_inv nt \<Longrightarrow> c \<in> set (childrenAt nt n) \<Longrightarrow> length c = Suc (length n)"
  using childrenAt_inv(2) [of nt c n] by (cases c rule: rev_cases) auto

lemma preorder_unfold:
  assumes "nt_inv nt" and "nt_get n nt \<noteq> None"
  shows "preorder pred nt n =
    (if fst (predAt pred nt n) then [n] else []) @
    (if snd (predAt pred nt n) then concat (map (preorder pred nt) (childrenAt nt n)) else [])"
proof -
  have "length n \<le> getMaxDepth" using nt_inv_parent(3) [OF assms(1)] assms(2) by auto
  then have k: "Suc getMaxDepth - length n = Suc (getMaxDepth - length n)" by simp
  have "c \<noteq> [] \<Longrightarrow> Suc getMaxDepth - length c = getMaxDepth - length (butlast c)" for c :: name
    by (cases c rule: rev_cases) auto
  then have "map (preorderTo (getMaxDepth - length n) pred nt) (childrenAt nt n) =
      map (preorder pred nt) (childrenAt nt n)"
    using childrenAt_inv(2) [OF assms(1)] by (auto simp: preorder_def)
  then show ?thesis
    unfolding preorder_def [of pred nt n] k by (simp only: preorderTo.simps split_def Let_def)
qed

text \<open>What the enumeration still has to visit: below the current entry, then to the right of
  each entry on the way up to the reference entry, \<open>k\<close> levels above.\<close>

primrec toTheRight :: "nat \<Rightarrow> (name \<Rightarrow> nte \<Rightarrow> bool \<times> bool) \<Rightarrow> nameTree \<Rightarrow> name \<Rightarrow> name list" where
  "toTheRight 0 pred nt n = []"
| "toTheRight (Suc k) pred nt n =
     concat (map (preorder pred nt) (siblingsAfter nt (butlast n) n)) @ toTheRight k pred nt (butlast n)"

definition remaining :: "(name \<Rightarrow> nte \<Rightarrow> bool \<times> bool) \<Rightarrow> nameTree \<Rightarrow> name \<Rightarrow> name \<Rightarrow> bool \<Rightarrow> name list" where
  "remaining pred nt ref n wantChildren =
     (if wantChildren then concat (map (preorder pred nt) (childrenAt nt n)) else []) @
     toTheRight (length n - length ref) pred nt n"

definition inSubtree :: "nameTree \<Rightarrow> name \<Rightarrow> name \<Rightarrow> bool" where
  "inSubtree nt ref n \<longleftrightarrow> prefix ref n \<and> nt_get n nt \<noteq> None"

lemma siblingsAfter_split:
  assumes inv: "nt_inv nt" and "childrenAt nt p = us @ n # ns"
  shows "siblingsAfter nt p n = ns"
proof -
  have "n \<notin> set us" using childrenAt_inv(1) [OF inv, of p] assms(2) by auto
  then have "dropWhile (\<lambda>m. m \<noteq> n) (us @ n # ns) = n # ns"
    by (induction us) auto
  then show ?thesis by (simp add: siblingsAfter_def assms(2))
qed

lemma inSubtree_child:
  assumes "nt_inv nt" and "inSubtree nt ref p" and "c \<in> set (childrenAt nt p)"
  shows "inSubtree nt ref c" and "length c - length ref = Suc (length p - length ref)"
    and "butlast c = p" and "c \<noteq> ref"
proof -
  have c: "c \<noteq> []" "butlast c = p" "nt_get c nt \<noteq> None"
    using childrenAt_inv(2) [OF assms(1)] assms(3) by auto
  have r: "prefix ref p" using assms(2) by (simp add: inSubtree_def)
  have l: "length c = Suc (length p)" using c(1,2) by (cases c rule: rev_cases) auto
  show "butlast c = p" by (fact c(2))
  show "inSubtree nt ref c"
    using c r prefix_order.trans prefixeq_butlast by (fastforce simp: inSubtree_def)
  show "length c - length ref = Suc (length p - length ref)" and "c \<noteq> ref"
    using prefix_length_le [OF r] l by auto
qed

text \<open>Stepping onto a child or a sibling takes that entry off what remains.\<close>

lemma remaining_enter:
  assumes inv: "nt_inv nt" and p: "inSubtree nt ref p" and ch: "childrenAt nt p = us @ c # cs"
  shows "concat (map (preorder pred nt) (c # cs)) @ toTheRight (length p - length ref) pred nt p =
    (if fst (predAt pred nt c) then [c] else []) @ remaining pred nt ref c (snd (predAt pred nt c))"
proof -
  have c: "c \<in> set (childrenAt nt p)" by (simp add: ch)
  note child = inSubtree_child [OF inv p c]
  have "nt_get c nt \<noteq> None" using child(1) by (simp add: inSubtree_def)
  then show ?thesis
    using child siblingsAfter_split [OF inv ch]
    by (simp add: remaining_def preorder_unfold [OF inv])
qed

lemma processSiblings_spec:
  assumes inv: "nt_inv nt" and p: "inSubtree nt ref p"
  shows "childrenAt nt p = us @ ns \<Longrightarrow>
    concat (map (preorder pred nt) ns) @ toTheRight (length p - length ref) pred nt p =
    (case processSiblings pred nt ns of
       VisitSibling m w \<Rightarrow> m # remaining pred nt ref m w
     | DescendSibling m \<Rightarrow> remaining pred nt ref m True
     | NoMoreSibling \<Rightarrow> remaining pred nt ref p False)
    \<and> (case processSiblings pred nt ns of
       VisitSibling m w \<Rightarrow> m \<in> set ns | DescendSibling m \<Rightarrow> m \<in> set ns | NoMoreSibling \<Rightarrow> True)"
proof (induction ns arbitrary: us)
  case Nil
  then show ?case by (simp add: remaining_def)
next
  case (Cons c cs)
  obtain ws wc where w: "predAt pred nt c = (ws, wc)" by fastforce
  note enter = remaining_enter [OF inv p Cons.prems, of pred, unfolded w]
  have c: "c \<in> set (childrenAt nt p)" using Cons.prems by simp
  show ?case
  proof (cases "ws \<or> wc")
    case True
    then show ?thesis using enter w by auto
  next
    case False
    have "nt_get c nt \<noteq> None" using childrenAt_inv(2) [OF inv] c by blast
    then have "preorder pred nt c = []" using False w by (simp add: preorder_unfold [OF inv])
    then show ?thesis
      using Cons.IH [of "us @ [c]"] Cons.prems False w by (auto split: siblingResult.splits)
  qed
qed

text \<open>The loop returns because an unfiltered enumeration would visit fewer entries from the
  next position, or equally many from one level higher.\<close>

definition wantAll :: "name \<Rightarrow> nte \<Rightarrow> bool \<times> bool" where
  "wantAll n e = (True, True)"

definition stepsLeft :: "nameTree \<Rightarrow> name \<Rightarrow> name \<Rightarrow> bool \<Rightarrow> nat" where
  "stepsLeft nt ref n wantChildren = 2 * length (remaining wantAll nt ref n wantChildren) + length n"

lemma predAt_wantAll: "nt_get n nt \<noteq> None \<Longrightarrow> predAt wantAll nt n = (True, True)"
  by (auto simp: predAt_def wantAll_def)

lemma remaining_wantAll_mono:
  "length (remaining wantAll nt ref n w) \<le> length (remaining wantAll nt ref n True)"
  by (simp add: remaining_def)

lemma stepsLeft_child:
  assumes inv: "nt_inv nt" and n: "inSubtree nt ref n" and ch: "childrenAt nt n = c # cs"
  shows "stepsLeft nt ref c w < stepsLeft nt ref n True"
proof -
  have c: "c \<in> set (childrenAt nt n)" by (simp add: ch)
  have p: "nt_get c nt \<noteq> None" "length c = Suc (length n)"
    using childrenAt_inv(2) [OF inv] childrenAt_length [OF inv c] c by blast+
  have "remaining wantAll nt ref n True = c # remaining wantAll nt ref c True"
    using remaining_enter [OF inv n, of "[]" c cs wantAll] ch
    by (simp add: remaining_def predAt_wantAll [OF p(1)])
  then show ?thesis
    using remaining_wantAll_mono [of nt ref c w] p(2) by (simp add: stepsLeft_def)
qed

lemma stepsLeft_sibling:
  assumes inv: "nt_inv nt" and p: "inSubtree nt ref p" and ch: "childrenAt nt p = us @ n # ns"
    and m: "m \<in> set ns"
  shows "stepsLeft nt ref m w < stepsLeft nt ref n w'"
proof -
  have nc: "n \<in> set (childrenAt nt p)" and mc: "m \<in> set (childrenAt nt p)" using ch m by simp_all
  have len: "length m = length n" and mp: "nt_get m nt \<noteq> None"
    using childrenAt_inv(2) [OF inv, of m p] childrenAt_length [OF inv nc]
      childrenAt_length [OF inv mc] mc by simp_all
  obtain vs ms where ns: "ns = vs @ m # ms" using m by (auto dest: split_list)
  have "concat (map (preorder wantAll nt) (m # ms)) @ toTheRight (length p - length ref) wantAll nt p =
      m # remaining wantAll nt ref m True"
    using remaining_enter [OF inv p, of "us @ n # vs" m ms wantAll] ch ns
    by (simp add: predAt_wantAll [OF mp])
  then have "length (remaining wantAll nt ref m True) <
      length (concat (map (preorder wantAll nt) (m # ms)) @ toTheRight (length p - length ref) wantAll nt p)"
    by simp
  also have "\<dots> \<le> length (remaining wantAll nt ref n w')"
    using inSubtree_child [OF inv p nc] siblingsAfter_split [OF inv ch] ns
    by (simp add: remaining_def)
  finally show ?thesis
    using remaining_wantAll_mono [of nt ref m w] len by (simp add: stepsLeft_def)
qed

lemma stepsLeft_up:
  assumes inv: "nt_inv nt" and p: "inSubtree nt ref p" and n: "n \<in> set (childrenAt nt p)"
  shows "stepsLeft nt ref p False < stepsLeft nt ref n w"
  using inSubtree_child [OF inv p n] childrenAt_length [OF inv n]
  by (simp add: stepsLeft_def remaining_def)

lemma inSubtree_parent:
  assumes inv: "nt_inv nt" and "inSubtree nt ref n" and "n \<noteq> ref"
  obtains e us ns where "nt_get n nt = Some e" and "nte_parent e = Some (butlast n)"
    and "inSubtree nt ref (butlast n)" and "childrenAt nt (butlast n) = us @ n # ns"
proof -
  obtain e where e: "nt_get n nt = Some e" and r: "prefix ref n"
    using assms(2) by (auto simp: inSubtree_def)
  have ne: "n \<noteq> []" using r assms(3) by auto
  have r': "prefix ref (butlast n)"
    using r assms(3) by (metis append_butlast_last_id ne prefix_snoc)
  have "n \<in> set (childrenAt nt (butlast n))"
    using childrenAt_inv(2) [OF inv] e ne by auto
  then obtain us ns where "childrenAt nt (butlast n) = us @ n # ns"
    by (auto dest: split_list)
  then show thesis
    using that e r' ne nt_inv_parent(1,2) [OF inv e] by (simp add: inSubtree_def)
qed

definition loopResult ::
    "(name \<Rightarrow> nte \<Rightarrow> bool \<times> bool) \<Rightarrow> nameTree \<Rightarrow> name \<Rightarrow> name \<Rightarrow> bool \<Rightarrow> (name \<times> bool) option \<Rightarrow> bool" where
  "loopResult pred nt ref n w r \<longleftrightarrow>
     (case r of
        None \<Rightarrow> remaining pred nt ref n w = []
      | Some (m, w') \<Rightarrow> inSubtree nt ref m \<and> stepsLeft nt ref m w' < stepsLeft nt ref n w \<and>
          remaining pred nt ref n w = m # remaining pred nt ref m w')"

lemma loopResult_trans:
  "loopResult pred nt ref m w' r \<Longrightarrow> remaining pred nt ref n w = remaining pred nt ref m w' \<Longrightarrow>
   stepsLeft nt ref m w' < stepsLeft nt ref n w \<Longrightarrow> loopResult pred nt ref n w r"
  by (auto simp: loopResult_def split: option.splits)

lemma partialLoop_spec:
  assumes inv: "nt_inv nt" and "inSubtree nt ref n"
  shows "\<exists>r. partialLoop pred nt ref n w = Some r \<and> loopResult pred nt ref n w r"
  using assms(2)
proof (induction "stepsLeft nt ref n w" arbitrary: n w rule: less_induct)
  case less
  show ?case
  proof (cases "w \<and> childrenAt nt n \<noteq> []")
    case True
    then obtain c cs where ch: "childrenAt nt n = c # cs" and w by (cases "childrenAt nt n") auto
    obtain ws wc where p: "predAt pred nt c = (ws, wc)" by fastforce
    have c: "c \<in> set (childrenAt nt n)" by (simp add: ch)
    note sub = inSubtree_child(1) [OF inv less.prems c]
    note less_c = stepsLeft_child [OF inv less.prems ch, of wc]
    have rem: "remaining pred nt ref n w = (if ws then [c] else []) @ remaining pred nt ref c wc"
      using remaining_enter [OF inv less.prems, of "[]" c cs pred] ch p \<open>w\<close>
      by (simp add: remaining_def)
    show ?thesis
    proof (cases ws)
      case True
      then have "partialLoop pred nt ref n w = Some (Some (c, wc))"
        using ch p \<open>w\<close> by (subst partialLoop.simps) simp
      then show ?thesis using sub less_c rem True \<open>w\<close> by (simp add: loopResult_def)
    next
      case False
      then have "partialLoop pred nt ref n w = partialLoop pred nt ref c wc"
        using ch p \<open>w\<close> by (subst partialLoop.simps) simp
      then show ?thesis
        using less.hyps [OF _ sub, of wc] less_c rem False \<open>w\<close> by (auto intro: loopResult_trans)
    qed
  next
    case False
    show ?thesis
    proof (cases "n = ref")
      case True
      then have "partialLoop pred nt ref n w = Some None" and "remaining pred nt ref n w = []"
        using False by (subst partialLoop.simps, auto) (auto simp: remaining_def)
      then show ?thesis by (simp add: loopResult_def)
    next
      case nr: False
      obtain e us ns where e: "nt_get n nt = Some e" "nte_parent e = Some (butlast n)"
        and p: "inSubtree nt ref (butlast n)" and ch: "childrenAt nt (butlast n) = us @ n # ns"
        using inSubtree_parent [OF inv less.prems nr] by blast
      let ?p = "butlast n" and ?r = "processSiblings pred nt ns"
      have nc: "n \<in> set (childrenAt nt ?p)" by (simp add: ch)
      note child = inSubtree_child [OF inv p nc]
      have rem: "remaining pred nt ref n w =
          concat (map (preorder pred nt) ns) @ toTheRight (length ?p - length ref) pred nt ?p"
        using False child(2) siblingsAfter_split [OF inv ch] by (auto simp: remaining_def)
      note sib = processSiblings_spec [OF inv p, of "us @ [n]" ns pred] 
      have loop: "partialLoop pred nt ref n w = (case ?r of
          VisitSibling m w' \<Rightarrow> Some (Some (m, w'))
        | DescendSibling m \<Rightarrow> partialLoop pred nt ref m True
        | NoMoreSibling \<Rightarrow> partialLoop pred nt ref ?p False)"
        using False nr e siblingsAfter_split [OF inv ch] by (subst partialLoop.simps) auto
      have in_ns: "m \<in> set ns \<Longrightarrow> inSubtree nt ref m \<and> (\<forall>w'. stepsLeft nt ref m w' < stepsLeft nt ref n w)" for m
        using inSubtree_child(1) [OF inv p, of m] stepsLeft_sibling [OF inv p ch, of m] ch by auto
      show ?thesis
      proof (cases ?r)
        case (VisitSibling m w')
        then show ?thesis using loop rem sib ch in_ns [of m] by (simp add: loopResult_def)
      next
        case (DescendSibling m)
        then have m: "m \<in> set ns" "remaining pred nt ref n w = remaining pred nt ref m True"
          using sib ch rem by simp_all
        show ?thesis
          using less.hyps [of m True] in_ns [OF m(1)] loop DescendSibling loopResult_trans [OF _ m(2)]
          by auto
      next
        case NoMoreSibling
        then have m: "remaining pred nt ref n w = remaining pred nt ref ?p False"
          using sib ch rem by simp
        show ?thesis
          using less.hyps [OF stepsLeft_up [OF inv p nc, of w] p] stepsLeft_up [OF inv p nc, of w]
            loop NoMoreSibling loopResult_trans [OF _ m]
          by auto
      qed
    qed
  qed
qed

lemma partialFrom_spec:
  assumes inv: "nt_inv nt" and "inSubtree nt ref n"
  shows "partialFrom pred nt ref n w = Some (remaining pred nt ref n w)"
  using assms(2)
proof (induction "stepsLeft nt ref n w" arbitrary: n w rule: less_induct)
  case less
  obtain r where r: "partialLoop pred nt ref n w = Some r" and
    s: "loopResult pred nt ref n w r"
    using partialLoop_spec [OF inv less.prems] by blast
  note s = s [unfolded loopResult_def]
  show ?case
  proof (cases r)
    case None
    then show ?thesis using r s by (subst partialFrom.simps) simp
  next
    case (Some mw)
    then obtain m w' where "r = Some (m, w')" by (cases mw) auto
    then show ?thesis using r s less.hyps [of m w'] by (subst partialFrom.simps) simp
  qed
qed

lemma partialEnumerate_aux:
  assumes inv: "nt_inv nt"
  shows "partialEnumerate n pred nt = Some (if nt_get n nt = None then [] else preorder pred nt n)"
proof (cases "nt_get n nt")
  case None
  then show ?thesis by (simp add: partialEnumerate_def findExactMatch_def Let_def)
next
  case (Some e)
  have "length n \<le> getMaxDepth" using nt_inv_parent(3) [OF inv Some] .
  then have f: "findExactMatch n (length n) nt = Some n"
    using Some by (simp add: findExactMatch_def)
  have "inSubtree nt n n" using Some by (simp add: inSubtree_def)
  then show ?thesis
    using Some f partialFrom_spec [OF inv, of n n pred]
    by (simp add: partialEnumerate_def preorder_unfold [OF inv] remaining_def split_def)
qed

section \<open>Properties\<close>

definition compA :: component where "compA = Component 8 ''a''"
definition compB :: component where "compB = Component 8 ''b''"

text \<open>A small tree: \<open>/a/b\<close> was looked up and \<open>/a\<close> has a FIB entry.\<close>

definition exampleTree :: nameTree where
  "exampleTree = setFibEntry [compA] (Some (newFibEntry [compA])) (lookup [compA, compB] 2 [])"

lemma exampleTree_inv: "nt_inv exampleTree"
  unfolding exampleTree_def
  by (intro nt_inv_setters nt_inv_lookup nt_inv_empty) (simp_all add: getMaxDepth_def)

lemma exampleTree_eq:
  "exampleTree =
     [([compA, compB], newNte\<lparr>nte_parent := Some [compA]\<rparr>),
      ([compA], newNte\<lparr>nte_parent := Some [], nte_children := [[compA, compB]],
                       nte_fib := Some (newFibEntry [compA])\<rparr>),
      ([], newNte\<lparr>nte_children := [[compA]]\<rparr>)]"
  by (simp add: exampleTree_def setFibEntry_def eval_nat_numeral nt_insert_def nt_get_def
      nte_setParent_def nt_update_def newNte_def)

text \<open>
  C9: looking up a name inserts exactly its prefixes, keeps the links of the tree consistent
  with the names, and changes no table entry of any other name.
\<close>

theorem lookup_inserts_prefixes:
  assumes "nt_inv nt" and "k \<le> length name" and "k \<le> getMaxDepth"
  shows "nt_inv (lookup name k nt) \<and> sameTables nt (lookup name k nt) \<and>
    {m. nt_get m (lookup name k nt) \<noteq> None} = {m. nt_get m nt \<noteq> None} \<union> set (prefixes (take k name))"
  using lookup_spec [OF assms] by (auto simp: in_set_prefixes)

theorem lookup_inserts_prefixes_witness:
  "{m. nt_get m (lookup [compB] 1 exampleTree) \<noteq> None} =
     {m. nt_get m exampleTree \<noteq> None} \<union> set (prefixes [compB])"
  using lookup_inserts_prefixes [OF exampleTree_inv, of 1 "[compB]"] by (simp add: getMaxDepth_def)



text \<open>
  C11: longest prefix match. Probing the hash table with every prefix up to the depth limit,
  and walking the tree from the entry a PIT entry is attached to, both find the longest
  selected prefix; \<^verbatim>\<open>findAllMatches\<close> visits all selected prefixes, longest first.
\<close>

theorem longest_prefix_match_correct:
  assumes "nt_inv nt" and "prefix n name" and "nt_get n nt \<noteq> None"
  shows "findLongestPrefixMatch name sel nt = longestMatch (take getMaxDepth name) (hit sel nt) \<and>
    findLongestPrefixMatch_pit n name sel nt = longestMatch (take getMaxDepth name) (hit sel nt) \<and>
    findAllMatches name sel nt = filter (hit sel nt) (rev (prefixes (take getMaxDepth name)))"
  using findLongestPrefixMatch_pit_aux [OF assms] findAllMatches_aux [OF assms(1)]
  by (simp add: findLongestPrefixMatch_aux)

theorem longest_prefix_match_correct_witness:
  "findLongestPrefixMatch_pit [compA] [compA, compB, compB] (\<lambda>_ e. nte_fib e \<noteq> None) exampleTree
     = Some [compA]"
proof -
  have g: "nt_get [compA] exampleTree \<noteq> None"
    by (simp add: exampleTree_eq nt_get_def)
  show ?thesis
    using longest_prefix_match_correct [OF exampleTree_inv _ g, of "[compA, compB, compB]"
        "\<lambda>_ e. nte_fib e \<noteq> None"]
    by (simp add: longestMatch_def getMaxDepth_def hit_def exampleTree_eq nt_get_def newNte_def
        compA_def compB_def)
qed

text \<open>
  C12: the partial enumeration terminates and its iterator, which moves along first-child,
  next-sibling and parent pointers, visits exactly the pre-order of the subtree, restricted
  to the entries and subtrees the selector wants.
\<close>

theorem partial_enumeration_is_preorder:
  assumes "nt_inv nt"
  shows "partialEnumerate n pred nt = Some (if nt_get n nt = None then [] else preorder pred nt n)"
  using partialEnumerate_aux [OF assms] .

theorem partial_enumeration_is_preorder_witness:
  "partialEnumerate [] (\<lambda>n e. (n \<noteq> [compA], True)) exampleTree = Some [[], [compA, compB]]"
  unfolding partial_enumeration_is_preorder [OF exampleTree_inv]
  by (simp add: preorder_def getMaxDepth_def exampleTree_eq nt_get_def childrenAt_def predAt_def
      newNte_def eval_nat_numeral compA_def compB_def)

end
