(* ===== verification/Fib.thy ===== *)
theory Fib
  imports NameTree
begin

text \<open>
  \<^verbatim>\<open>daemon/table/fib.cpp\<close>: the forwarding information base, stored in the name tree. The state
  is the tree and the counter \<^verbatim>\<open>m_nItems\<close>, a \<^verbatim>\<open>size_t\<close> that wraps around. A reference to a FIB
  entry is its prefix; \<^verbatim>\<open>s_emptyEntry\<close>, which is attached to no tree, is \<open>None\<close>.
\<close>

type_synonym fib = "nameTree \<times> 64 word"

definition nteHasFibEntry :: "name \<Rightarrow> nte \<Rightarrow> bool" where
  "nteHasFibEntry n e \<longleftrightarrow> nte_fib e \<noteq> None"

definition s_emptyEntry :: fib_entry where
  "s_emptyEntry = newFibEntry []"

definition fib_entryAt :: "name option \<Rightarrow> nameTree \<Rightarrow> fib_entry" where
  "fib_entryAt r nt =
     (case r of None \<Rightarrow> s_emptyEntry
      | Some n \<Rightarrow> (case nt_fib n nt of None \<Rightarrow> s_emptyEntry | Some e \<Rightarrow> e))"

definition fib_findLongestPrefixMatch :: "name \<Rightarrow> nameTree \<Rightarrow> fib_entry" where
  "fib_findLongestPrefixMatch name nt = fib_entryAt (findLongestPrefixMatch name nteHasFibEntry nt) nt"

text \<open>The overload on a PIT entry of the given name that is attached to the entry \<open>n\<close> of the tree.\<close>

definition fib_findLongestPrefixMatch_pit :: "name \<Rightarrow> name \<Rightarrow> nameTree \<Rightarrow> fib_entry" where
  "fib_findLongestPrefixMatch_pit n name nt =
     fib_entryAt (findLongestPrefixMatch_pit n name nteHasFibEntry nt) nt"

definition fib_findExactMatch :: "name \<Rightarrow> nameTree \<Rightarrow> fib_entry option" where
  "fib_findExactMatch p nt =
     (case findExactMatch p (length p) nt of None \<Rightarrow> None | Some n \<Rightarrow> nt_fib n nt)"

definition fib_insert :: "name \<Rightarrow> fib \<Rightarrow> fib \<times> bool" where
  "fib_insert p = (\<lambda>(nt, k).
     let nt' = lookup p (length p) nt
     in if nt_fib p nt' \<noteq> None then ((nt', k), False)
        else ((setFibEntry p (Some (newFibEntry p)) nt', k + 1), True))"

definition fib_eraseNte :: "name \<Rightarrow> bool \<Rightarrow> fib \<Rightarrow> fib" where
  "fib_eraseNte n canDeleteNte = (\<lambda>(nt, k).
     let nt1 = setFibEntry n None nt;
         nt2 = (if canDeleteNte then fst (eraseIfEmpty n True nt1) else nt1)
     in (nt2, k - 1))"

definition fib_erase :: "name \<Rightarrow> fib \<Rightarrow> fib" where
  "fib_erase p = (\<lambda>(nt, k).
     case findExactMatch p (length p) nt of
       None \<Rightarrow> (nt, k)
     | Some n \<Rightarrow> fib_eraseNte n True (nt, k))"

definition fib_eraseEntry :: "name option \<Rightarrow> fib \<Rightarrow> fib" where
  "fib_eraseEntry entry s = (case entry of None \<Rightarrow> s | Some n \<Rightarrow> fib_eraseNte n True s)"

text \<open>\<^verbatim>\<open>addOrUpdateNextHop\<close> returns what it signals to \<^verbatim>\<open>afterNewNextHop\<close>, if it does.\<close>

definition fib_addOrUpdateNextHop ::
    "name \<Rightarrow> faceRef \<Rightarrow> nat \<Rightarrow> fib \<Rightarrow> fib \<times> (name \<times> nextHop) option" where
  "fib_addOrUpdateNextHop p f cost = (\<lambda>(nt, k).
     case nt_fib p nt of
       None \<Rightarrow> ((nt, k), None)
     | Some e \<Rightarrow>
         let (e', it, isNew) = fe_addOrUpdateNextHop f cost e
         in ((setFibEntry p (Some e') nt, k),
             if isNew then Some (fe_prefix e', fe_nextHops e' ! it) else None))"

datatype removeNextHopResult = NO_SUCH_NEXTHOP | FIB_ENTRY_REMOVED | NEXTHOP_REMOVED

definition fib_removeNextHop :: "name \<Rightarrow> faceRef \<Rightarrow> fib \<Rightarrow> fib \<times> removeNextHopResult" where
  "fib_removeNextHop p f = (\<lambda>(nt, k).
     case nt_fib p nt of
       None \<Rightarrow> ((nt, k), NO_SUCH_NEXTHOP)
     | Some e \<Rightarrow>
         let (e', isRemoved) = fe_removeNextHop f e;
             nt' = setFibEntry p (Some e') nt
         in if \<not> isRemoved then ((nt', k), NO_SUCH_NEXTHOP)
            else if \<not> fe_hasNextHops e' then (fib_eraseNte p False (nt', k), FIB_ENTRY_REMOVED)
            else ((nt', k), NEXTHOP_REMOVED))"

definition fib_range :: "nameTree \<Rightarrow> name list" where
  "fib_range nt = fullEnumerate nteHasFibEntry nt"

section \<open>The invariant and the abstract table\<close>

definition fib_wf :: "nameTree \<Rightarrow> bool" where
  "fib_wf nt \<longleftrightarrow> (\<forall>p e. nt_fib p nt = Some e \<longrightarrow> fe_prefix e = p \<and> fe_inv e)"

definition fib_inv :: "fib \<Rightarrow> bool" where
  "fib_inv = (\<lambda>(nt, k). nt_inv nt \<and> fib_wf nt \<and> k = of_nat (card {p. nt_fib p nt \<noteq> None}))"

text \<open>The routing table: for each prefix with an entry, the faces and their costs.\<close>

definition fib_routes :: "nameTree \<Rightarrow> name \<Rightarrow> (faceRef \<rightharpoonup> nat) option" where
  "fib_routes nt p = map_option fe_costs (nt_fib p nt)"

lemma finite_fib: "finite {p. nt_fib p nt \<noteq> None}"
  by (rule finite_subset [OF _ finite_present [of nt]]) (auto simp: nt_views split: option.splits)

lemma fib_wf_sameTables: "sameTables nt nt' \<Longrightarrow> fib_wf nt \<Longrightarrow> fib_wf nt'"
  by (simp add: fib_wf_def sameTables_def)

lemma findExactMatch_full:
  assumes "nt_inv nt"
  shows "findExactMatch p (length p) nt = (if nt_get p nt = None then None else Some p)"
  using nt_inv_parent(3) [OF assms, of p] by (auto simp: findExactMatch_def Let_def)

lemma card_fib_insert:
  assumes "\<And>q. nt_fib q nt' = (if q = p then Some e else nt_fib q nt)" and "nt_fib p nt = None"
  shows "card {q. nt_fib q nt' \<noteq> None} = Suc (card {q. nt_fib q nt \<noteq> None})"
proof -
  have "{q. nt_fib q nt' \<noteq> None} = insert p {q. nt_fib q nt \<noteq> None}" using assms by auto
  then show ?thesis using finite_fib [of nt] assms(2) by simp
qed

lemma card_fib_delete:
  assumes "\<And>q. nt_fib q nt' = (if q = p then None else nt_fib q nt)" and "nt_fib p nt \<noteq> None"
  shows "card {q. nt_fib q nt \<noteq> None} = Suc (card {q. nt_fib q nt' \<noteq> None})"
proof -
  have "{q. nt_fib q nt \<noteq> None} = insert p {q. nt_fib q nt' \<noteq> None}" using assms by auto
  then show ?thesis using finite_fib [of nt'] assms by simp
qed

lemma fib_insert_facts:
  assumes "fib_inv (nt, k)" and len: "length p \<le> getMaxDepth"
  shows "fib_inv (fst (fib_insert p (nt, k)))"
    and "fib_routes (fst (fst (fib_insert p (nt, k)))) =
      (\<lambda>q. if q = p \<and> fib_routes nt p = None then Some Map.empty else fib_routes nt q)"
    and "snd (fib_insert p (nt, k)) \<longleftrightarrow> fib_routes nt p = None"
proof -
  let ?l = "lookup p (length p) nt"
  have inv: "nt_inv nt" "fib_wf nt" "k = of_nat (card {p. nt_fib p nt \<noteq> None})"
    using assms(1) by (simp_all add: fib_inv_def)
  have l: "nt_inv ?l" "nt_get p ?l \<noteq> None" "\<And>q. nt_fib q ?l = nt_fib q nt"
    using lookup_spec [OF inv(1) order_refl len] by (auto simp: sameTables_def)
  have "fib_inv (fst (fib_insert p (nt, k))) \<and>
    fib_routes (fst (fst (fib_insert p (nt, k)))) =
      (\<lambda>q. if q = p \<and> fib_routes nt p = None then Some Map.empty else fib_routes nt q) \<and>
    (snd (fib_insert p (nt, k)) \<longleftrightarrow> fib_routes nt p = None)"
  proof (cases "nt_fib p nt")
    case None
    let ?s = "setFibEntry p (Some (newFibEntry p)) ?l"
    have s: "nt_fib q ?s = (if q = p then Some (newFibEntry p) else nt_fib q nt)" for q
      using l by simp
    have "fib_wf ?s"
      using inv(2) fe_inv_new [of p] unfolding fib_wf_def s by (auto simp: newFibEntry_def)
    then have "fib_inv (?s, k + 1)"
      using card_fib_insert [OF s None] inv(3) nt_inv_setters(1) [OF l(1)] by (simp add: fib_inv_def)
    then show ?thesis
      using None l
      by (auto simp: fib_insert_def fib_routes_def fun_eq_iff newFibEntry_def fe_costs_def)
  next
    case (Some e)
    then show ?thesis
      using l inv by (auto simp: fib_insert_def fib_inv_def fib_wf_def fib_routes_def fun_eq_iff)
  qed
  then show "fib_inv (fst (fib_insert p (nt, k)))"
    and "fib_routes (fst (fst (fib_insert p (nt, k)))) =
      (\<lambda>q. if q = p \<and> fib_routes nt p = None then Some Map.empty else fib_routes nt q)"
    and "snd (fib_insert p (nt, k)) \<longleftrightarrow> fib_routes nt p = None" by blast+
qed

lemma fib_eraseNte_facts:
  assumes "fib_inv (nt, k)" and p: "nt_fib p nt \<noteq> None"
  shows "fib_inv (fib_eraseNte p c (nt, k))"
    and "nt_fib q (fst (fib_eraseNte p c (nt, k))) = (if q = p then None else nt_fib q nt)"
proof -
  let ?t = "setFibEntry p None nt"
  let ?r = "fst (fib_eraseNte p c (nt, k))"
  have inv: "nt_inv nt" "fib_wf nt" "k = of_nat (card {p. nt_fib p nt \<noteq> None})"
    using assms(1) by (simp_all add: fib_inv_def)
  have t: "nt_inv ?t" using nt_inv_setters(1) [OF inv(1)] .
  have r: "nt_inv ?r" "sameTables ?t ?r"
    using t eraseIfEmpty_facts(1,2) [OF t] by (simp_all add: fib_eraseNte_def Let_def)
  have f: "nt_fib q ?r = (if q = p then None else nt_fib q nt)" for q
    using r(2) nt_view_present(1) [OF p] by (simp add: sameTables_def)
  have "fib_wf ?r" using inv(2) by (simp add: fib_wf_def f)
  moreover have "snd (fib_eraseNte p c (nt, k)) = k - 1"
    by (simp add: fib_eraseNte_def Let_def)
  moreover have "k - 1 = of_nat (card {q. nt_fib q ?r \<noteq> None})"
    by (rule counter_pred [OF inv(3) [unfolded card_fib_delete [OF f p]]])
  ultimately show "fib_inv (fib_eraseNte p c (nt, k))"
    using r(1) by (auto simp: fib_inv_def split_def)
  show "nt_fib q ?r = (if q = p then None else nt_fib q nt)" by (fact f)
qed

lemma fib_update_entry:
  assumes "fib_inv (nt, k)" and p: "nt_fib p nt = Some e" and "fe_inv e'" and "fe_prefix e' = fe_prefix e"
  shows "fib_inv (setFibEntry p (Some e') nt, k)"
    and "nt_fib q (setFibEntry p (Some e') nt) = (if q = p then Some e' else nt_fib q nt)"
proof -
  have g: "nt_get p nt \<noteq> None" using nt_view_present(1) p by auto
  have f: "nt_fib q (setFibEntry p (Some e') nt) = (if q = p then Some e' else nt_fib q nt)" for q
    using g by simp
  have "{q. nt_fib q (setFibEntry p (Some e') nt) \<noteq> None} = {q. nt_fib q nt \<noteq> None}"
    unfolding f using p by auto
  moreover have "fib_wf (setFibEntry p (Some e') nt)"
    using assms unfolding fib_wf_def f by (auto simp: fib_inv_def fib_wf_def)
  ultimately show "fib_inv (setFibEntry p (Some e') nt, k)"
    using assms(1) nt_inv_setters(1) by (simp add: fib_inv_def)
  show "nt_fib q (setFibEntry p (Some e') nt) = (if q = p then Some e' else nt_fib q nt)"
    by (fact f)
qed

lemma fib_entry_inv:
  "fib_inv (nt, k) \<Longrightarrow> nt_fib p nt = Some e \<Longrightarrow> fe_inv e \<and> fe_prefix e = p"
  by (auto simp: fib_inv_def fib_wf_def)

lemma fib_addOrUpdateNextHop_facts:
  assumes inv: "fib_inv (nt, k)"
  shows "fib_inv (fst (fib_addOrUpdateNextHop p f c (nt, k)))"
    and "fib_routes (fst (fst (fib_addOrUpdateNextHop p f c (nt, k)))) =
      (\<lambda>q. if q = p then map_option (\<lambda>m. m(f \<mapsto> c)) (fib_routes nt p) else fib_routes nt q)"
proof -
  have "fib_inv (fst (fib_addOrUpdateNextHop p f c (nt, k))) \<and>
    fib_routes (fst (fst (fib_addOrUpdateNextHop p f c (nt, k)))) =
      (\<lambda>q. if q = p then map_option (\<lambda>m. m(f \<mapsto> c)) (fib_routes nt p) else fib_routes nt q)"
  proof (cases "nt_fib p nt")
    case None
    then show ?thesis using inv by (auto simp: fib_addOrUpdateNextHop_def fib_routes_def fun_eq_iff)
  next
    case (Some e)
    let ?e = "fst (fe_addOrUpdateNextHop f c e)"
    have e: "fe_inv e" using fib_entry_inv [OF inv Some] by simp
    note u = fib_update_entry [OF inv Some fe_inv_addOrUpdate [OF e], of f c]
    have r: "fst (fib_addOrUpdateNextHop p f c (nt, k)) = (setFibEntry p (Some ?e) nt, k)"
      using Some by (simp add: fib_addOrUpdateNextHop_def split_def Let_def)
    show ?thesis
      unfolding r using u Some fe_costs_addOrUpdate_aux [OF e]
      by (auto simp: fib_routes_def fun_eq_iff)
  qed
  then show "fib_inv (fst (fib_addOrUpdateNextHop p f c (nt, k)))"
    and "fib_routes (fst (fst (fib_addOrUpdateNextHop p f c (nt, k)))) =
      (\<lambda>q. if q = p then map_option (\<lambda>m. m(f \<mapsto> c)) (fib_routes nt p) else fib_routes nt q)" by blast+
qed

text \<open>Removing the last next hop of a prefix removes the prefix.\<close>

definition withoutRoute :: "faceRef \<Rightarrow> (faceRef \<rightharpoonup> nat) \<Rightarrow> (faceRef \<rightharpoonup> nat) option" where
  "withoutRoute f m =
     (if m f = None then Some m else if m(f := None) = Map.empty then None else Some (m(f := None)))"

lemma fe_costs_empty: "fe_costs e = Map.empty \<longleftrightarrow> \<not> fe_hasNextHops e"
  by (simp add: fe_costs_def fe_hasNextHops_def)

lemma fe_removeNextHop_result:
  "snd (fe_removeNextHop f e) \<longleftrightarrow> fe_costs e f \<noteq> None"
proof -
  have "fe_costs e f = None \<longleftrightarrow> \<not> fe_hasNextHop f e"
    by (auto simp: fe_costs_def fe_hasNextHop_iff map_of_eq_None_iff image_image)
  then show ?thesis
    by (simp add: fe_removeNextHop_def Let_def fe_hasNextHop_def)
qed

lemma fib_removeNextHop_facts:
  assumes inv: "fib_inv (nt, k)"
  shows "fib_inv (fst (fib_removeNextHop p f (nt, k)))"
    and "fib_routes (fst (fst (fib_removeNextHop p f (nt, k)))) =
      (\<lambda>q. if q = p then Option.bind (fib_routes nt p) (withoutRoute f) else fib_routes nt q)"
proof -
  let ?r = "fib_removeNextHop p f (nt, k)"
  have "fib_inv (fst ?r) \<and> (\<forall>q. fib_routes (fst (fst ?r)) q =
      (if q = p then Option.bind (fib_routes nt p) (withoutRoute f) else fib_routes nt q))"
  proof (cases "nt_fib p nt")
    case None
    then show ?thesis using inv by (simp add: fib_removeNextHop_def fib_routes_def)
  next
    case (Some e)
    let ?e = "fst (fe_removeNextHop f e)" and ?t = "setFibEntry p (Some (fst (fe_removeNextHop f e))) nt"
    have e: "fe_inv e" using fib_entry_inv [OF inv Some] by simp
    note u = fib_update_entry [OF inv Some fe_inv_remove [OF e], of f, simplified (no_asm)]
    note c = fe_costs_remove_aux [OF e, of f]
    have t: "nt_fib p ?t \<noteq> None" using u(2) [of p] by simp
    have r: "?r = (if \<not> snd (fe_removeNextHop f e) then ((?t, k), NO_SUCH_NEXTHOP)
       else if \<not> fe_hasNextHops ?e then (fib_eraseNte p False (?t, k), FIB_ENTRY_REMOVED)
       else ((?t, k), NEXTHOP_REMOVED))"
      using Some by (simp add: fib_removeNextHop_def split_def Let_def)
    have w: "withoutRoute f (fe_costs e) =
        (if \<not> snd (fe_removeNextHop f e) then Some (fe_costs ?e)
         else if \<not> fe_hasNextHops ?e then None else Some (fe_costs ?e))"
      by (cases "fe_costs e f")
        (simp_all add: withoutRoute_def fe_removeNextHop_result c fun_upd_idem fe_costs_empty [symmetric])
    show ?thesis
      unfolding r using u fib_eraseNte_facts [OF u(1) t, where c = False] Some w
      by (simp add: fib_routes_def)
  qed
  then show "fib_inv (fst ?r)"
    and "fib_routes (fst (fst ?r)) =
      (\<lambda>q. if q = p then Option.bind (fib_routes nt p) (withoutRoute f) else fib_routes nt q)" by auto
qed

section \<open>Refinement of a routing table\<close>

text \<open>
  The operations the management of the daemon performs. \<open>FibErase\<close> erases by a reference to
  an entry.
\<close>

datatype fib_op = FibInsert name | FibAdd name faceRef nat | FibRemove name faceRef | FibErase name

fun fib_step :: "fib_op \<Rightarrow> fib \<Rightarrow> fib" where
  "fib_step (FibInsert p) s = fst (fib_insert p s)"
| "fib_step (FibAdd p f c) s = fst (fib_addOrUpdateNextHop p f c s)"
| "fib_step (FibRemove p f) s = fst (fib_removeNextHop p f s)"
| "fib_step (FibErase p) s = (if nt_fib p (fst s) = None then s else fib_eraseEntry (Some p) s)"

fun route_step :: "fib_op \<Rightarrow> (name \<rightharpoonup> (faceRef \<rightharpoonup> nat)) \<Rightarrow> (name \<rightharpoonup> (faceRef \<rightharpoonup> nat))" where
  "route_step (FibInsert p) m = (if m p = None then m(p \<mapsto> Map.empty) else m)"
| "route_step (FibAdd p f c) m = m(p := map_option (\<lambda>r. r(f \<mapsto> c)) (m p))"
| "route_step (FibRemove p f) m = m(p := Option.bind (m p) (withoutRoute f))"
| "route_step (FibErase p) m = m(p := None)"

fun fib_op_ok :: "fib_op \<Rightarrow> bool" where
  "fib_op_ok (FibInsert p) \<longleftrightarrow> length p \<le> getMaxDepth"
| "fib_op_ok _ \<longleftrightarrow> True"

lemma fib_step_refines:
  assumes "fib_inv s" and "fib_op_ok op"
  shows "fib_inv (fib_step op s) \<and> fib_routes (fst (fib_step op s)) = route_step op (fib_routes (fst s))"
proof -
  obtain nt k where s: "s = (nt, k)" by (cases s)
  have inv: "fib_inv (nt, k)" using assms(1) s by simp
  show ?thesis
  proof (cases op)
    case (FibInsert p)
    then show ?thesis
      using assms(2) fib_insert_facts [OF inv, of p] by (auto simp: s fun_eq_iff)
  next
    case (FibAdd p f c)
    then show ?thesis
      using fib_addOrUpdateNextHop_facts [OF inv, of p f c] by (auto simp: s fun_eq_iff)
  next
    case (FibRemove p f)
    then show ?thesis
      using fib_removeNextHop_facts [OF inv, of p f] by (auto simp: s fun_eq_iff)
  next
    case (FibErase p)
    then show ?thesis
      using fib_eraseNte_facts [OF inv, where p = p and c = True] inv
      by (auto simp: s fun_eq_iff fib_eraseEntry_def fib_routes_def)
  qed
qed

lemma fib_run_refines:
  "fib_inv s \<Longrightarrow> list_all fib_op_ok ops \<Longrightarrow>
   fib_inv (fold fib_step ops s) \<and>
   fib_routes (fst (fold fib_step ops s)) = fold route_step ops (fib_routes (fst s))"
  by (induction ops arbitrary: s) (simp_all add: fib_step_refines)

lemma fib_inv_empty: "fib_inv ([], 0)"
  by (simp add: fib_inv_def nt_inv_empty fib_wf_def nt_fib_def nt_get_def)

lemma fib_routes_empty: "fib_routes [] = Map.empty"
  by (simp add: fun_eq_iff fib_routes_def nt_fib_def nt_get_def)

lemma fib_lpm_aux:
  "fib_findLongestPrefixMatch name nt =
     (case longestMatch (take getMaxDepth name) (\<lambda>p. nt_fib p nt \<noteq> None) of
        None \<Rightarrow> s_emptyEntry | Some p \<Rightarrow> the (nt_fib p nt))"
proof -
  have h: "hit nteHasFibEntry nt = (\<lambda>p. nt_fib p nt \<noteq> None)"
    by (simp add: fun_eq_iff hit_def nt_fib_def nteHasFibEntry_def split: option.split)
  define L where "L = longestMatch (take getMaxDepth name) (\<lambda>p. nt_fib p nt \<noteq> None)"
  have "nt_fib p nt \<noteq> None" if "L = Some p" for p
    using that by (simp add: L_def longestMatch_Some_iff)
  then show ?thesis
    unfolding fib_findLongestPrefixMatch_def findLongestPrefixMatch_aux h fib_entryAt_def L_def [symmetric]
    by (cases L) auto
qed

section \<open>Properties\<close>



text \<open>
  C14: a FIB lookup returns the entry of the longest prefix that has one, among the prefixes
  within the depth limit, whose next hops are sorted by cost without duplicate faces; without
  such a prefix it returns the empty entry.
\<close>

theorem fib_lookup_is_longest_match:
  assumes "fib_inv (nt, k)" and "fib_findLongestPrefixMatch name nt = e"
  shows "sorted (map nh_cost (fe_nextHops e)) \<and> distinct (map nh_face (fe_nextHops e)) \<and>
    (case longestMatch (take getMaxDepth name) (\<lambda>p. fib_routes nt p \<noteq> None) of
       None \<Rightarrow> e = s_emptyEntry
     | Some p \<Rightarrow> fe_prefix e = p \<and> fib_routes nt p = Some (fe_costs e))"
proof -
  have r: "(\<lambda>p. fib_routes nt p \<noteq> None) = (\<lambda>p. nt_fib p nt \<noteq> None)"
    by (simp add: fib_routes_def)
  show ?thesis
  proof (cases "longestMatch (take getMaxDepth name) (\<lambda>p. nt_fib p nt \<noteq> None)")
    case None
    then show ?thesis
      using assms(2) unfolding r fib_lpm_aux by (auto simp: s_emptyEntry_def newFibEntry_def)
  next
    case (Some p)
    then obtain e' where e': "nt_fib p nt = Some e'" by (auto simp: longestMatch_Some_iff)
    then have "e = e'" using assms(2) Some unfolding fib_lpm_aux by simp
    then show ?thesis
      using fib_entry_inv [OF assms(1) e'] Some e' unfolding r by (simp add: fe_inv_def fib_routes_def)
  qed
qed

theorem fib_lookup_is_longest_match_witness:
  "fe_prefix (fib_findLongestPrefixMatch [compA, compB] exampleTree) = [compA]"
proof -
  have f: "nt_fib p exampleTree = (if p = [compA] then Some (newFibEntry [compA]) else None)" for p
    by (simp add: exampleTree_eq nt_fib_def nt_get_def newNte_def)
  have i: "fib_inv (exampleTree, 1)"
    using exampleTree_inv fe_inv_new by (simp add: fib_inv_def fib_wf_def f newFibEntry_def)
  show ?thesis
    using fib_lookup_is_longest_match [OF i refl, of "[compA, compB]"]
    by (simp add: longestMatch_def fib_routes_def f getMaxDepth_def)
qed

text \<open>
  C15: adding a next hop to an entry signals the next hop at the position where it was
  appended, after the vector has been sorted: the signal carries the most expensive next hop
  of the entry, which is the new one only if no old next hop costs more.
\<close>

theorem new_next_hop_signal:
  assumes "fib_inv (nt, k)" and "nt_fib p nt = Some e" and "\<not> fe_hasNextHop f e"
  shows "snd (fib_addOrUpdateNextHop p f cost (nt, k)) =
    Some (p, last (sort_key nh_cost (fe_nextHops e @ [\<lparr>nh_face = f, nh_cost = cost\<rparr>])))"
proof -
  have p: "fe_prefix e = p" using fib_entry_inv [OF assms(1,2)] by simp
  have l: "xs ! length ys = last xs" if "length xs = Suc (length ys)" for xs :: "nextHop list" and ys :: "nextHop list"
    using that by (cases xs rule: rev_cases) (auto simp: nth_append)
  have "fe_findNextHop f e = length (fe_nextHops e)"
    using assms(3) by (simp add: fe_hasNextHop_def)
  then show ?thesis
    using assms(2) p
    by (simp add: fib_addOrUpdateNextHop_def fe_addOrUpdateNextHop_def Let_def fe_sortNextHops_def l)
qed

theorem new_next_hop_signal_witness:
  "snd (fib_addOrUpdateNextHop [compA] 2 5
      (setFibEntry [compA] (Some \<lparr>fe_prefix = [compA], fe_nextHops = [\<lparr>nh_face = 1, nh_cost = 10\<rparr>]\<rparr>) exampleTree, 1))
     = Some ([compA], \<lparr>nh_face = 1, nh_cost = 10\<rparr>)"
proof -
  let ?e = "\<lparr>fe_prefix = [compA], fe_nextHops = [\<lparr>nh_face = 1, nh_cost = 10\<rparr>]\<rparr>"
  have f: "nt_fib p exampleTree = (if p = [compA] then Some (newFibEntry [compA]) else None)" for p
    by (simp add: exampleTree_eq nt_fib_def nt_get_def newNte_def)
  have i: "fib_inv (exampleTree, 1)"
    using exampleTree_inv fe_inv_new by (simp add: fib_inv_def fib_wf_def f newFibEntry_def)
  have e: "nt_fib [compA] exampleTree = Some (newFibEntry [compA])" by (simp add: f)
  note u = fib_update_entry [OF i e, of ?e]
  have "fib_inv (setFibEntry [compA] (Some ?e) exampleTree, 1)"
    by (rule u(1)) (simp_all add: fe_inv_def newFibEntry_def)
  moreover have "nt_fib [compA] (setFibEntry [compA] (Some ?e) exampleTree) = Some ?e"
    by (subst u(2)) (simp_all add: fe_inv_def newFibEntry_def)
  ultimately show ?thesis
    using new_next_hop_signal [of "setFibEntry [compA] (Some ?e) exampleTree" 1 "[compA]" ?e 2 5]
    by (simp add: fe_hasNextHop_iff)
qed


end
