(* ===== verification/Pit.thy ===== *)
theory Pit
  imports NameTree
begin

text \<open>
  \<^verbatim>\<open>daemon/table/pit.cpp\<close>: the pending Interest table. Its state is the shared name tree, the
  counter \<^verbatim>\<open>m_nItems\<close> and the address the next entry is allocated at. A pointer to a PIT entry
  is the name of the tree entry it is attached to (its \<^verbatim>\<open>m_nameTreeEntry\<close>) with its address.
\<close>

type_synonym pitRef = "name \<times> nat"
type_synonym pit = "nameTree \<times> 64 word \<times> nat"

definition nteHasPitEntries :: "name \<Rightarrow> nte \<Rightarrow> bool" where
  "nteHasPitEntries n e \<longleftrightarrow> nte_pits e \<noteq> []"

definition hasDigest :: "ndn_lib \<Rightarrow> name \<Rightarrow> bool" where
  "hasDigest L name \<longleftrightarrow> name \<noteq> [] \<and> isImplicitSha256Digest L (last name)"

definition nteDepth :: "ndn_lib \<Rightarrow> name \<Rightarrow> nat" where
  "nteDepth L name = min (length name - (if hasDigest L name then 1 else 0)) getMaxDepth"

definition pit_findOrInsert :: "ndn_lib \<Rightarrow> interest \<Rightarrow> bool \<Rightarrow> pit \<Rightarrow> pit \<times> pitRef option \<times> bool" where
  "pit_findOrInsert L i allowInsert = (\<lambda>(nt, k, a).
     let d = nteDepth L (i_name i); n = take d (i_name i);
         nt1 = (if allowInsert then Some (lookup (i_name i) d nt)
                else if findExactMatch (i_name i) d nt = None then None else Some nt)
     in case nt1 of
          None \<Rightarrow> ((nt, k, a), None, True)
        | Some nt1 \<Rightarrow>
            (case find (\<lambda>e. canMatch e i d) (nt_pits n nt1) of
               Some e \<Rightarrow> ((nt1, k, a), Some (n, pe_id e), False)
             | None \<Rightarrow>
                 if \<not> allowInsert then ((nt1, k, a), None, True)
                 else ((insertPitEntry n (newPitEntry a i) nt1, k + 1, Suc a), Some (n, a), True)))"

definition pit_find :: "ndn_lib \<Rightarrow> interest \<Rightarrow> pit \<Rightarrow> pitRef option" where
  "pit_find L i s = fst (snd (pit_findOrInsert L i False s))"

definition pit_insert :: "ndn_lib \<Rightarrow> interest \<Rightarrow> pit \<Rightarrow> pit \<times> pitRef option \<times> bool" where
  "pit_insert L i s = pit_findOrInsert L i True s"

definition pit_findAllDataMatches :: "ndn_lib \<Rightarrow> data \<Rightarrow> nameTree \<Rightarrow> pitRef list" where
  "pit_findAllDataMatches L d nt =
     concat (map (\<lambda>n. map (\<lambda>e. (n, pe_id e))
                        (filter (\<lambda>e. matchesData L (pe_interest e) d) (nt_pits n nt)))
                 (findAllMatches (d_name d) nteHasPitEntries nt))"

definition pit_erase :: "pitRef \<Rightarrow> bool \<Rightarrow> pit \<Rightarrow> pit" where
  "pit_erase r canDeleteNte = (\<lambda>(nt, k, a).
     let nt1 = erasePitEntry (fst r) (snd r) nt;
         nt2 = (if canDeleteNte then fst (eraseIfEmpty (fst r) True nt1) else nt1)
     in (nt2, k - 1, a))"

text \<open>Reading and mutating the entry behind a pointer.\<close>

definition pit_get :: "pitRef \<Rightarrow> nameTree \<Rightarrow> pit_entry option" where
  "pit_get r nt = find (\<lambda>e. pe_id e = snd r) (nt_pits (fst r) nt)"

definition pit_modify :: "pitRef \<Rightarrow> (pit_entry \<Rightarrow> pit_entry) \<Rightarrow> nameTree \<Rightarrow> nameTree" where
  "pit_modify r f nt =
     nt_update (fst r) (\<lambda>e. e\<lparr>nte_pits := updateFirst (\<lambda>p. pe_id p = snd r) f (nte_pits e)\<rparr>) nt"

definition pit_deleteInOutRecords :: "faceRef \<Rightarrow> pitRef \<Rightarrow> nameTree \<Rightarrow> nameTree" where
  "pit_deleteInOutRecords f r nt = pit_modify r (\<lambda>e. deleteOutRecord f (deleteInRecord f e)) nt"

definition pit_refs :: "nameTree \<Rightarrow> pitRef list" where
  "pit_refs nt =
     concat (map (\<lambda>n. map (\<lambda>e. (n, pe_id e)) (nt_pits n nt)) (fullEnumerate nteHasPitEntries nt))"

section \<open>The invariant\<close>

text \<open>What a PIT entry is looked up by.\<close>

definition i_key :: "interest \<Rightarrow> name \<times> bool \<times> bool" where
  "i_key i = (i_name i, i_canBePrefix i, i_mustBeFresh i)"

abbreviation pe_key :: "pit_entry \<Rightarrow> name \<times> bool \<times> bool" where
  "pe_key e \<equiv> i_key (pe_interest e)"

definition nteName :: "ndn_lib \<Rightarrow> name \<Rightarrow> name" where
  "nteName L name = take (nteDepth L name) name"

definition pits_ok :: "ndn_lib \<Rightarrow> nat \<Rightarrow> name \<Rightarrow> pit_entry list \<Rightarrow> bool" where
  "pits_ok L a n ps \<longleftrightarrow> distinct (map pe_id ps) \<and> distinct (map pe_key ps) \<and>
     list_all (\<lambda>p. pe_inv p \<and> pe_id p < a \<and> n = nteName L (pe_name p)) ps"

definition pitCount :: "nameTree \<Rightarrow> nat" where
  "pitCount nt = (\<Sum>n \<in> {n. nt_pits n nt \<noteq> []}. length (nt_pits n nt))"

definition pit_wf :: "ndn_lib \<Rightarrow> nat \<Rightarrow> nameTree \<Rightarrow> bool" where
  "pit_wf L a nt \<longleftrightarrow> (\<forall>n. pits_ok L a n (nt_pits n nt)) \<and>
     (\<forall>n n' p p'. p \<in> set (nt_pits n nt) \<longrightarrow> p' \<in> set (nt_pits n' nt) \<longrightarrow> pe_id p = pe_id p' \<longrightarrow> n = n')"

definition pit_inv :: "ndn_lib \<Rightarrow> pit \<Rightarrow> bool" where
  "pit_inv L = (\<lambda>(nt, k, a). nt_inv nt \<and> pit_wf L a nt \<and> k = of_nat (pitCount nt))"

lemma finite_pits: "finite {n. nt_pits n nt \<noteq> []}"
  by (rule finite_subset [OF _ finite_present [of nt]]) (auto simp: nt_pits_def split: option.splits)

lemma pitCount_sameTables: "sameTables nt nt' \<Longrightarrow> pitCount nt' = pitCount nt"
  by (simp add: sameTables_def pitCount_def)

lemma pit_wf_sameTables: "sameTables nt nt' \<Longrightarrow> pit_wf L a nt' = pit_wf L a nt"
  by (simp add: sameTables_def pit_wf_def)

lemma pitCount_change:
  assumes "\<And>m. m \<noteq> n \<Longrightarrow> nt_pits m nt' = nt_pits m nt"
  shows "pitCount nt' + length (nt_pits n nt) = pitCount nt + length (nt_pits n nt')"
proof -
  have *: "pitCount t = length (nt_pits n t) + (\<Sum>m \<in> {m. nt_pits m t \<noteq> []} - {n}. length (nt_pits m t))" for t
    unfolding pitCount_def using finite_pits [of t]
    by (cases "nt_pits n t = []") (auto simp: sum.remove)
  have "{m. nt_pits m nt' \<noteq> []} - {n} = {m. nt_pits m nt \<noteq> []} - {n}" using assms by auto
  then have "(\<Sum>m \<in> {m. nt_pits m nt' \<noteq> []} - {n}. length (nt_pits m nt')) =
      (\<Sum>m \<in> {m. nt_pits m nt \<noteq> []} - {n}. length (nt_pits m nt))"
    by (auto intro!: sum.cong simp: assms)
  then show ?thesis using * [of nt] * [of nt'] by simp
qed

lemma pit_wfD:
  assumes "pit_wf L a nt" and "p \<in> set (nt_pits n nt)"
  shows "pe_inv p" "pe_id p < a" "n = nteName L (pe_name p)"
  using assms by (auto simp: pit_wf_def pits_ok_def list_all_iff)

lemma pit_wf_unique:
  "pit_wf L a nt \<Longrightarrow> p \<in> set (nt_pits n nt) \<Longrightarrow> p' \<in> set (nt_pits n nt) \<Longrightarrow> pe_id p = pe_id p' \<Longrightarrow> p = p'"
  "pit_wf L a nt \<Longrightarrow> p \<in> set (nt_pits n nt) \<Longrightarrow> p' \<in> set (nt_pits n' nt) \<Longrightarrow> pe_key p = pe_key p' \<Longrightarrow>
     n = n' \<and> p = p'"
proof -
  assume wf: "pit_wf L a nt" and p: "p \<in> set (nt_pits n nt)"
  note ok = wf [unfolded pit_wf_def pits_ok_def, THEN conjunct1, rule_format]
  show "p = p'" if "p' \<in> set (nt_pits n nt)" "pe_id p = pe_id p'"
    using ok [of n] p that by (auto simp: distinct_map dest: inj_onD)
  assume p': "p' \<in> set (nt_pits n' nt)" and k: "pe_key p = pe_key p'"
  have "n = n'" using pit_wfD(3) [OF wf p] pit_wfD(3) [OF wf p'] k by (simp add: i_key_def pe_name_def)
  then show "n = n' \<and> p = p'" using ok [of n] p p' k by (auto simp: distinct_map dest: inj_onD)
qed

lemma pits_ok_mono: "pits_ok L a n ps \<Longrightarrow> a \<le> a' \<Longrightarrow> pits_ok L a' n ps"
  by (auto simp: pits_ok_def list_all_iff)

text \<open>Replacing the entries at one name by well-formed ones, none of them attached elsewhere.\<close>

lemma pit_wf_change:
  assumes wf: "pit_wf L a nt" and a: "a \<le> a'" and ok: "pits_ok L a' n (nt_pits n nt')"
    and other: "\<And>m. m \<noteq> n \<Longrightarrow> nt_pits m nt' = nt_pits m nt"
    and ids: "\<And>p m q. p \<in> set (nt_pits n nt') \<Longrightarrow> m \<noteq> n \<Longrightarrow> q \<in> set (nt_pits m nt) \<Longrightarrow> pe_id q \<noteq> pe_id p"
  shows "pit_wf L a' nt'"
proof -
  have "pits_ok L a' m (nt_pits m nt')" for m
    using wf ok other a by (cases "m = n") (auto simp: pit_wf_def intro: pits_ok_mono)
  moreover have "m = m'"
    if "p \<in> set (nt_pits m nt')" "p' \<in> set (nt_pits m' nt')" "pe_id p = pe_id p'" for m m' p p'
  proof (cases "m = n \<or> m' = n")
    case True
    then show ?thesis using ids other that by metis
  next
    case False
    then show ?thesis using wf that other [of m] other [of m'] by (auto simp: pit_wf_def)
  qed
  ultimately show ?thesis by (auto simp: pit_wf_def)
qed

section \<open>Find and insert\<close>

lemma nteDepth_le: "nteDepth L name \<le> length name" "nteDepth L name \<le> getMaxDepth"
  by (auto simp: nteDepth_def)

lemma length_nteName [simp]: "length (nteName L name) = nteDepth L name"
  using nteDepth_le(1) [of L name] by (simp add: nteName_def)

text \<open>Entries attached to the tree entry of a name agree with it on the components skipped.\<close>

lemma canMatch_key:
  assumes "pit_wf L a nt" and "e \<in> set (nt_pits (nteName L (i_name i)) nt)"
  shows "canMatch e i (nteDepth L (i_name i)) \<longleftrightarrow> pe_key e = i_key i"
proof -
  have n: "nteName L (i_name i) = nteName L (pe_name e)" using pit_wfD(3) [OF assms] .
  then have "nteDepth L (i_name i) = nteDepth L (pe_name e)" by (metis length_nteName)
  then have "take (nteDepth L (i_name i)) (pe_name e) = take (nteDepth L (i_name i)) (i_name i)"
    using n by (simp add: nteName_def)
  from canMatch_skip [OF this] show ?thesis
    by (simp add: canMatch_iff i_key_def pe_name_def)
qed

lemma find_canMatch:
  assumes "pit_wf L a nt"
  shows "find (\<lambda>e. canMatch e i (nteDepth L (i_name i))) (nt_pits (nteName L (i_name i)) nt) =
    find (\<lambda>e. pe_key e = i_key i) (nt_pits (nteName L (i_name i)) nt)"
  by (rule find_cong [OF refl]) (rule canMatch_key [OF assms])

lemma pit_get_Some_iff:
  assumes "pit_wf L a nt"
  shows "pit_get (n, k) nt = Some e \<longleftrightarrow> e \<in> set (nt_pits n nt) \<and> pe_id e = k"
  using assms find_key_Some_iff [of pe_id "nt_pits n nt" k e]
  by (simp add: pit_get_def pit_wf_def pits_ok_def)

lemma pit_find_spec:
  assumes inv: "pit_inv L (nt, k, a)"
  shows "pit_findOrInsert L i False (nt, k, a) =
    ((nt, k, a), map_option (\<lambda>e. (nteName L (i_name i), pe_id e))
        (find (\<lambda>e. pe_key e = i_key i) (nt_pits (nteName L (i_name i)) nt)),
     \<not> (\<exists>e \<in> set (nt_pits (nteName L (i_name i)) nt). pe_key e = i_key i))"
proof -
  let ?n = "nteName L (i_name i)"
  have wf: "pit_wf L a nt" using inv by (simp add: pit_inv_def)
  have "findExactMatch (i_name i) (nteDepth L (i_name i)) nt = (if nt_get ?n nt = None then None else Some ?n)"
    using nteDepth_le [of L "i_name i"] by (simp add: findExactMatch_def nteName_def min.absorb2 Let_def)
  moreover have "nt_get ?n nt = None \<Longrightarrow> nt_pits ?n nt = []" by (simp add: nt_pits_def)
  ultimately have "pit_findOrInsert L i False (nt, k, a) =
      (case find (\<lambda>e. pe_key e = i_key i) (nt_pits ?n nt) of
         Some e \<Rightarrow> ((nt, k, a), Some (?n, pe_id e), False) | None \<Rightarrow> ((nt, k, a), None, True))"
    using find_canMatch [OF wf, of i] unfolding nteName_def
    by (cases "nt_get ?n nt") (simp_all add: pit_findOrInsert_def Let_def nteName_def)
  then show ?thesis
    by (cases "find (\<lambda>e. pe_key e = i_key i) (nt_pits ?n nt)")
      (auto simp: find_None_iff dest: find_Some_iff2)
qed

lemma pit_insert_spec:
  fixes i :: interest
  assumes inv: "pit_inv L (nt, k, a)"
  defines "n \<equiv> nteName L (i_name i)"
  shows "pit_inv L (fst (pit_findOrInsert L i True (nt, k, a))) \<and>
    (case find (\<lambda>e. pe_key e = i_key i) (nt_pits n nt) of
       Some e \<Rightarrow> snd (pit_findOrInsert L i True (nt, k, a)) = (Some (n, pe_id e), False) \<and>
         sameTables nt (fst (fst (pit_findOrInsert L i True (nt, k, a)))) \<and>
         snd (fst (pit_findOrInsert L i True (nt, k, a))) = (k, a)
     | None \<Rightarrow> snd (pit_findOrInsert L i True (nt, k, a)) = (Some (n, a), True) \<and>
         sameTables (insertPitEntry n (newPitEntry a i) (lookup (i_name i) (nteDepth L (i_name i)) nt))
           (fst (fst (pit_findOrInsert L i True (nt, k, a)))) \<and>
         snd (fst (pit_findOrInsert L i True (nt, k, a))) = (k + 1, Suc a))"
proof -
  let ?d = "nteDepth L (i_name i)"
  let ?l = "lookup (i_name i) ?d nt"
  have i: "nt_inv nt" "pit_wf L a nt" "k = of_nat (pitCount nt)" using inv by (simp_all add: pit_inv_def)
  note l = lookup_spec [OF i(1) nteDepth_le [of L "i_name i"]]
  have pits: "nt_pits m ?l = nt_pits m nt" for m using l by (simp add: sameTables_def)
  have g: "nt_get n ?l \<noteq> None" using l by (simp add: n_def nteName_def)
  have wf: "pit_wf L a ?l" "pitCount ?l = pitCount nt"
    using l i(2) pit_wf_sameTables pitCount_sameTables by blast+
  have eq: "pit_findOrInsert L i True (nt, k, a) =
      (case find (\<lambda>e. pe_key e = i_key i) (nt_pits n nt) of
         Some e \<Rightarrow> ((?l, k, a), Some (n, pe_id e), False)
       | None \<Rightarrow> ((insertPitEntry n (newPitEntry a i) ?l, k + 1, Suc a), Some (n, a), True))"
    using find_canMatch [OF wf(1), of i] pits unfolding n_def nteName_def
    by (simp add: pit_findOrInsert_def Let_def)
  show ?thesis
  proof (cases "find (\<lambda>e. pe_key e = i_key i) (nt_pits n nt)")
    case (Some e)
    then show ?thesis using eq l wf i by (simp add: pit_inv_def)
  next
    case None
    let ?t = "insertPitEntry n (newPitEntry a i) ?l"
    have t: "nt_pits m ?t = (if m = n then nt_pits n nt @ [newPitEntry a i] else nt_pits m nt)" for m
      using g pits by simp
    have old: "pits_ok L a m (nt_pits m nt)" for m using i(2) by (simp add: pit_wf_def)
    have "a \<notin> pe_id ` set (nt_pits n nt)"
      using pit_wfD(2) [OF i(2), of _ n] by fastforce
    moreover have "i_key i \<notin> pe_key ` set (nt_pits n nt)"
      using None by (auto simp: find_None_iff)
    ultimately have ok: "pits_ok L (Suc a) n (nt_pits n ?t)"
      unfolding t using pits_ok_mono [OF old, of "Suc a" n] pe_inv_new
      by (simp add: pits_ok_def n_def pe_name_def)
    have "pit_wf L (Suc a) ?t"
    proof (rule pit_wf_change [OF i(2) _ ok])
      show "nt_pits m ?t = nt_pits m nt" if "m \<noteq> n" for m
        unfolding t using that by simp
      show "pe_id q \<noteq> pe_id p" if "p \<in> set (nt_pits n ?t)" "m \<noteq> n" "q \<in> set (nt_pits m nt)" for p m q
        using that pit_wfD(2) [OF i(2) that(3)] i(2) unfolding t pit_wf_def by fastforce
    qed simp
    moreover have "pitCount ?t = Suc (pitCount nt)"
      using pitCount_change [of n ?t nt] unfolding t by simp
    ultimately have "pit_inv L (?t, k + 1, Suc a)"
      using i(3) nt_inv_setters(2) l by (simp add: pit_inv_def)
    then show ?thesis using eq None by simp
  qed
qed

section \<open>Erase and modify\<close>

lemma indexOf_split:
  "indexOf p xs \<noteq> length xs \<Longrightarrow>
   \<exists>us x vs. xs = us @ x # vs \<and> p x \<and> (\<forall>u \<in> set us. \<not> p u) \<and> indexOf p xs = length us"
proof (induction xs)
  case (Cons y ys)
  show ?case
  proof (cases "p y")
    case True
    then show ?thesis by (intro exI [of _ "[]"]) auto
  next
    case False
    then obtain us x vs where "ys = us @ x # vs" "p x" "\<forall>u \<in> set us. \<not> p u" "indexOf p ys = length us"
      using Cons by auto
    then show ?thesis using False by (intro exI [of _ "y # us"] exI [of _ x] exI [of _ vs]) auto
  qed
qed simp

lemma eraseSwap_mset:
  assumes "\<exists>x \<in> set xs. p x"
  shows "\<exists>us x vs. xs = us @ x # vs \<and> p x \<and> mset (eraseSwap p xs) = mset (us @ vs)"
proof -
  obtain us x vs where s: "xs = us @ x # vs" "p x" "indexOf p xs = length us"
    using assms indexOf_split [of p xs] by (auto simp: indexOf_length)
  have "mset (eraseSwap p xs) = mset (us @ vs)"
    using s by (cases vs rule: rev_cases) (auto simp: eraseSwap_def butlast_append)
  then show ?thesis using s by blast
qed

lemma eraseSwap_key:
  assumes d: "distinct (map g xs)" and k: "k \<in> g ` set xs"
  shows "set (eraseSwap (\<lambda>x. g x = k) xs) = {x \<in> set xs. g x \<noteq> k}"
    and "distinct (map h xs) \<Longrightarrow> distinct (map h (eraseSwap (\<lambda>x. g x = k) xs))"
    and "Suc (length (eraseSwap (\<lambda>x. g x = k) xs)) = length xs"
proof -
  obtain us x vs where s: "xs = us @ x # vs" "g x = k"
    and m: "mset (eraseSwap (\<lambda>x. g x = k) xs) = mset (us @ vs)"
    using eraseSwap_mset [of xs "\<lambda>x. g x = k"] k by auto
  show "set (eraseSwap (\<lambda>x. g x = k) xs) = {x \<in> set xs. g x \<noteq> k}"
  proof -
    have "x \<in> set us \<union> set vs \<Longrightarrow> g x \<noteq> k" for x
      using s d by (auto simp: image_iff)
    then show ?thesis using mset_eq_setD [OF m] s by auto
  qed
  show "distinct (map h (eraseSwap (\<lambda>x. g x = k) xs))" if "distinct (map h xs)"
  proof -
    have "mset (map h (eraseSwap (\<lambda>x. g x = k) xs)) = mset (map h (us @ vs))"
      using arg_cong [OF m, of "image_mset h"] by simp
    from mset_eq_imp_distinct_iff [OF this] show ?thesis using s that by simp
  qed
  show "Suc (length (eraseSwap (\<lambda>x. g x = k) xs)) = length xs"
    using arg_cong [OF m, of size] s by simp
qed

lemma pit_erase_spec:
  assumes inv: "pit_inv L (nt, k, a)" and r: "pit_get (n, pid) nt \<noteq> None"
  shows "pit_inv L (pit_erase (n, pid) c (nt, k, a))"
    and "set (nt_pits m (fst (pit_erase (n, pid) c (nt, k, a)))) =
      (if m = n then {p \<in> set (nt_pits n nt). pe_id p \<noteq> pid} else set (nt_pits m nt))"
proof -
  let ?t = "erasePitEntry n pid nt" and ?s = "fst (pit_erase (n, pid) c (nt, k, a))"
  have i: "nt_inv nt" "pit_wf L a nt" "k = of_nat (pitCount nt)" using inv by (simp_all add: pit_inv_def)
  have t: "nt_inv ?t" using nt_inv_setters(3) [OF i(1)] .
  have s: "nt_inv ?s" "sameTables ?t ?s"
    using t eraseIfEmpty_facts(1,2) [OF t] by (simp_all add: pit_erase_def Let_def)
  have pid: "pid \<in> pe_id ` set (nt_pits n nt)"
    using r by (auto simp: pit_get_def find_Some_iff2 dest: find_Some_iff2)
  have d: "distinct (map pe_id (nt_pits n nt))" "distinct (map pe_key (nt_pits n nt))"
    using i(2) by (simp_all add: pit_wf_def pits_ok_def)
  note e = eraseSwap_key [OF d(1) pid]
  have p: "nt_pits m ?s = (if m = n then eraseSwap (\<lambda>x. pe_id x = pid) (nt_pits n nt) else nt_pits m nt)" for m
    using s(2) by (simp add: sameTables_def)
  have set_p: "set (nt_pits m ?s) =
      (if m = n then {p \<in> set (nt_pits n nt). pe_id p \<noteq> pid} else set (nt_pits m nt))" for m
    unfolding p using e(1) by simp
  have "pits_ok L a n (nt_pits n nt)" using i(2) by (simp add: pit_wf_def)
  then have ok: "pits_ok L a n (nt_pits n ?s)"
    using e(2) [of pe_id] e(2) [of pe_key] d set_p [of n] p [of n]
    by (simp add: pits_ok_def list_all_iff)
  have "pit_wf L a ?s"
  proof (rule pit_wf_change [OF i(2) _ ok])
    show "nt_pits m ?s = nt_pits m nt" if "m \<noteq> n" for m using that p by simp
    show "pe_id q \<noteq> pe_id p'" if "p' \<in> set (nt_pits n ?s)" "m \<noteq> n" "q \<in> set (nt_pits m nt)" for p' m q
      using that i(2) set_p [of n] by (auto simp: pit_wf_def)
  qed simp
  have cnt: "Suc (pitCount ?s) = pitCount nt"
    using pitCount_change [of n ?s nt] p e(3) by simp
  have "k = of_nat (Suc (pitCount ?s))" unfolding cnt by (fact i(3))
  from counter_pred [OF this] have k: "k - 1 = of_nat (pitCount ?s)" .
  have eq: "pit_erase (n, pid) c (nt, k, a) = (?s, k - 1, a)"
    by (simp add: pit_erase_def Let_def)
  show "pit_inv L (pit_erase (n, pid) c (nt, k, a))"
    by (subst eq) (use s(1) \<open>pit_wf L a ?s\<close> k in \<open>simp only: pit_inv_def split_conv simp_thms\<close>)
  show "set (nt_pits m ?s) =
      (if m = n then {p \<in> set (nt_pits n nt). pe_id p \<noteq> pid} else set (nt_pits m nt))"
    by (fact set_p)
qed

lemma nt_get_modify [simp]: "nt_get m (pit_modify r f nt) = None \<longleftrightarrow> nt_get m nt = None"
  by (simp add: pit_modify_def nt_get_update)

lemma nt_views_modify [simp]:
  "nt_fib m (pit_modify r f nt) = nt_fib m nt"
  "nt_pits m (pit_modify r f nt) =
     (if m = fst r then updateFirst (\<lambda>p. pe_id p = snd r) f (nt_pits m nt) else nt_pits m nt)"
  "nt_meas m (pit_modify r f nt) = nt_meas m nt"
  "nt_sc m (pit_modify r f nt) = nt_sc m nt"
  by (auto simp: pit_modify_def nt_views nt_get_update split: option.split)

lemma nt_inv_modify [nfd_inv]: "nt_inv nt \<Longrightarrow> nt_inv (pit_modify r f nt)"
  unfolding pit_modify_def by (rule nt_inv_update) simp_all

lemma pit_modify_key:
  assumes inv: "pit_inv L (nt, k, a)"
    and f: "\<And>p. pe_id (f p) = pe_id p" "\<And>p. pe_key (f p) = pe_key p"
      "\<And>p. pe_inv p \<Longrightarrow> pit_get r nt = Some p \<Longrightarrow> pe_inv (f p)"
  shows "pit_inv L (pit_modify r f nt, k, a)"
proof -
  have i: "nt_inv nt" "pit_wf L a nt" "k = of_nat (pitCount nt)" using inv by (simp_all add: pit_inv_def)
  obtain n pid where r: "r = (n, pid)" by (cases r)
  let ?t = "pit_modify r f nt"
  have d: "distinct (map pe_id (nt_pits n nt))" using i(2) by (simp add: pit_wf_def pits_ok_def)
  have mid: "map pe_id (nt_pits n ?t) = map pe_id (nt_pits n nt)"
    and mkey: "map pe_key (nt_pits n ?t) = map pe_key (nt_pits n nt)"
    using f by (simp_all add: r map_updateFirst)
  have el: "\<exists>q. p = f q \<and> pit_get r nt = Some q \<and> q \<in> set (nt_pits n nt) \<or> p \<in> set (nt_pits n nt)"
    if "p \<in> set (nt_pits n ?t)" for p
    using that pit_get_Some_iff [OF i(2), of n pid]
    by (auto simp: r updateFirst_key_map [OF d])
  have ok: "pits_ok L a n (nt_pits n ?t)"
    using mid mkey el i(2) f pit_wfD [OF i(2), of _ n]
    unfolding pits_ok_def pit_wf_def list_all_iff by (fastforce simp: pe_name_def i_key_def)
  have "pit_wf L a ?t"
  proof (rule pit_wf_change [OF i(2) _ ok])
    show "nt_pits m ?t = nt_pits m nt" if "m \<noteq> n" for m using that by (simp add: r)
    show "pe_id q \<noteq> pe_id p" if "p \<in> set (nt_pits n ?t)" "m \<noteq> n" "q \<in> set (nt_pits m nt)" for p m q
    proof -
      have "pe_id p \<in> pe_id ` set (nt_pits n nt)"
        using that(1) mid by (metis list.set_map imageI)
      then show ?thesis using that i(2) by (auto simp: pit_wf_def)
    qed
  qed simp
  moreover have "pitCount ?t = pitCount nt"
    using pitCount_change [of n ?t nt] by (simp add: r)
  ultimately show ?thesis using i nt_inv_modify by (simp add: pit_inv_def)
qed

lemma pit_modify_spec:
  assumes "pit_inv L (nt, k, a)"
    and "\<And>p. pe_id (f p) = pe_id p" "\<And>p. pe_interest (f p) = pe_interest p"
      "\<And>p. pe_inv p \<Longrightarrow> pit_get r nt = Some p \<Longrightarrow> pe_inv (f p)"
  shows "pit_inv L (pit_modify r f nt, k, a)"
  using assms by (intro pit_modify_key) simp_all

section \<open>Matching Data\<close>

context ndn_lib_laws begin

lemma nteName_prefix_of_data:
  assumes m: "matchesData L i d"
  shows "prefix (nteName L (i_name i)) (take getMaxDepth (d_name d))"
proof -
  let ?n = "nteName L (i_name i)"
  have "prefix ?n (d_name d)"
  proof (cases "prefix (i_name i) (d_name d)")
    case True
    then show ?thesis
      unfolding nteName_def using take_is_prefix prefix_order.trans by blast
  next
    case False
    then have n: "i_name i = d_name d @ [d_digest d]" and "isImplicitSha256Digest L (d_digest d)"
      using matches_name [OF m] by (simp_all add: d_fullName_def)
    then have "nteDepth L (i_name i) \<le> length (d_name d)"
      by (simp add: nteDepth_def hasDigest_def)
    then show ?thesis by (simp add: nteName_def n take_is_prefix)
  qed
  then obtain zs where "d_name d = ?n @ zs" by (rule prefixE)
  then show ?thesis using nteDepth_le(2) [of L "i_name i"] by (simp add: take_append)
qed

end

lemma hit_pits: "hit nteHasPitEntries nt n \<longleftrightarrow> nt_pits n nt \<noteq> []"
  by (auto simp: hit_def nt_pits_def nteHasPitEntries_def split: option.split)

lemma findAllDataMatches_aux:
  assumes L: "ndn_lib_laws L" and inv: "pit_inv L (nt, k, a)"
  shows "distinct (pit_findAllDataMatches L d nt)"
    and "(n, pid) \<in> set (pit_findAllDataMatches L d nt) \<longleftrightarrow>
      (\<exists>e. pit_get (n, pid) nt = Some e \<and> matchesData L (pe_interest e) d)"
proof -
  have i: "nt_inv nt" "pit_wf L a nt" using inv by (simp_all add: pit_inv_def)
  let ?ns = "filter (hit nteHasPitEntries nt) (rev (prefixes (take getMaxDepth (d_name d))))"
  let ?f = "\<lambda>n. map (\<lambda>e. (n, pe_id e)) (filter (\<lambda>e. matchesData L (pe_interest e) d) (nt_pits n nt))"
  have eq: "pit_findAllDataMatches L d nt = concat (map ?f ?ns)"
    by (simp add: pit_findAllDataMatches_def findAllMatches_aux [OF i(1)])
  have one: "distinct (?f n)" for n
  proof -
    have "distinct (map pe_id (nt_pits n nt))" using i(2) by (simp add: pit_wf_def pits_ok_def)
    then have "distinct (map pe_id (filter (\<lambda>e. matchesData L (pe_interest e) d) (nt_pits n nt)))"
      by (rule distinct_map_filter)
    then have "distinct (map (Pair n) (map pe_id (filter (\<lambda>e. matchesData L (pe_interest e) d) (nt_pits n nt))))"
      by (simp add: distinct_map inj_on_def del: map_map)
    then show ?thesis by (simp add: comp_def)
  qed
  have cat: "distinct (concat (map ?f ns))" if "distinct ns" for ns
    using that one by (induction ns) auto
  show "distinct (pit_findAllDataMatches L d nt)"
    unfolding eq by (rule cat) (simp add: distinct_prefixes)
  have "n \<in> set ?ns" if "e \<in> set (nt_pits n nt)" "matchesData L (pe_interest e) d" for e
    using ndn_lib_laws.nteName_prefix_of_data [OF L that(2)] pit_wfD(3) [OF i(2) that(1)] that(1)
    by (auto simp: in_set_prefixes hit_pits pe_name_def)
  then show "(n, pid) \<in> set (pit_findAllDataMatches L d nt) \<longleftrightarrow>
      (\<exists>e. pit_get (n, pid) nt = Some e \<and> matchesData L (pe_interest e) d)"
    unfolding eq pit_get_Some_iff [OF i(2)] by auto
qed

section \<open>Properties\<close>

lemma pit_inv_empty: "pit_inv L ([], 0, 0)"
  by (simp add: pit_inv_def nt_inv_empty pit_wf_def pits_ok_def nt_pits_def nt_get_def pitCount_def)

definition exampleInterest :: "name \<Rightarrow> interest" where
  "exampleInterest n = \<lparr>i_name = n, i_canBePrefix = True, i_mustBeFresh = False, i_nonce = 7,
     i_lifetime = 4000, i_hopLimit = None, i_forwardingHint = [], i_nextHopFaceId = None,
     i_incomingFaceId = None, i_pitToken = None\<rparr>"

lemma pit_insert_entries:
  assumes "pit_inv L (nt, k, a)" and "pit_insert L i (nt, k, a) = ((nt', k', a'), r, isNew)"
  shows "pit_inv L (nt', k', a') \<and>
    (\<exists>r0 e. r = Some r0 \<and> pit_get r0 nt' = Some e \<and> pe_key e = i_key i \<and>
      (isNew \<longleftrightarrow> pit_get r0 nt = None) \<and> (isNew \<longrightarrow> e = newPitEntry a i) \<and>
      (\<forall>r1. r1 \<noteq> r0 \<or> \<not> isNew \<longrightarrow> pit_get r1 nt' = pit_get r1 nt) \<and>
      (\<forall>r1 e1. pit_get r1 nt' = Some e1 \<and> pe_key e1 = i_key i \<longrightarrow> r1 = r0))"
proof -
  let ?n = "nteName L (i_name i)" and ?l = "lookup (i_name i) (nteDepth L (i_name i)) nt"
  have wf: "nt_inv nt" "pit_wf L a nt" using assms(1) by (simp_all add: pit_inv_def)
  note spec = pit_insert_spec [OF assms(1), of i, folded pit_insert_def, unfolded assms(2), simplified]
  have inv': "pit_inv L (nt', k', a')" using spec by simp
  then have wf': "pit_wf L a' nt'" by (simp add: pit_inv_def)
  have uniq: "r1 = r0" if "pit_get r1 nt' = Some e1" "pit_get r0 nt' = Some e0" "pe_key e1 = pe_key e0"
    for r1 r0 e1 e0
    using that pit_wf_unique(2) [OF wf'] pit_get_Some_iff [OF wf']
    by (cases r0; cases r1) (metis prod.inject)
  show ?thesis
  proof (cases "find (\<lambda>e. pe_key e = i_key i) (nt_pits ?n nt)")
    case (Some e)
    then have e: "e \<in> set (nt_pits ?n nt)" "pe_key e = i_key i" by (auto dest: find_Some_iff2)
    have r: "r = Some (?n, pe_id e)" "\<not> isNew" and same: "\<And>m. nt_pits m nt' = nt_pits m nt"
      using spec Some by (simp_all add: sameTables_def)
    have g: "pit_get r1 nt' = pit_get r1 nt" for r1 by (simp add: pit_get_def same)
    have G: "pit_get (?n, pe_id e) nt' = Some e" using e g pit_get_Some_iff [OF wf(2)] by simp
    have u: "r1 = (?n, pe_id e)" if "pit_get r1 nt = Some e1" "pe_key e1 = i_key i" for r1 e1
      using uniq [of r1 e1 "(?n, pe_id e)" e] that G e(2) g by simp
    show ?thesis
      using r g G e(2)
      by (intro conjI exI [of _ "(?n, pe_id e)"] exI [of _ e] allI impI) (auto simp: inv' dest: u)
  next
    case None
    have l: "nt_get ?n ?l \<noteq> None" "\<And>m. nt_pits m ?l = nt_pits m nt"
      using lookup_spec [OF wf(1) nteDepth_le [of L "i_name i"]] by (auto simp: sameTables_def nteName_def)
    have r: "r = Some (?n, a)" isNew and p: "\<And>m. nt_pits m nt' =
        (if m = ?n then nt_pits m nt @ [newPitEntry a i] else nt_pits m nt)"
      using spec None l by (simp_all add: sameTables_def)
    have fresh: "find (\<lambda>e. pe_id e = a) (nt_pits m nt) = None" for m
      using pit_wfD(2) [OF wf(2)] by (fastforce simp: find_None_iff)
    have find_snoc: "find P (xs @ [x]) = (case find P xs of None \<Rightarrow> if P x then Some x else None | s \<Rightarrow> s)"
      for P and xs :: "pit_entry list" and x by (induction xs) auto
    have g: "pit_get r1 nt' = (if r1 = (?n, a) then Some (newPitEntry a i) else pit_get r1 nt)" for r1
      using fresh by (cases r1) (auto simp: pit_get_def p find_snoc split: option.split)
    have none: "pit_get (?n, a) nt = None" using fresh by (simp add: pit_get_def)
    have G: "pit_get (?n, a) nt' = Some (newPitEntry a i)" using g by simp
    have u: "r1 = (?n, a)" if "pit_get r1 nt' = Some e1" "pe_key e1 = i_key i" for r1 e1
      using uniq [of r1 e1 "(?n, a)" "newPitEntry a i"] that G by simp
    have o: "pit_get r1 nt' = pit_get r1 nt" if "r1 \<noteq> (?n, a) \<or> \<not> isNew" for r1
      using g that r(2) by auto
    show ?thesis
      using r G none
      by (intro conjI exI [of _ "(?n, a)"] exI [of _ "newPitEntry a i"] allI impI)
        (auto simp: inv' o dest: u)
  qed
qed

text \<open>The other tables do not see an insertion.\<close>

lemma pit_insert_views:
  assumes "pit_inv L (nt, k, a)" and "pit_insert L i (nt, k, a) = ((nt', k', a'), r, isNew)"
  shows "nt_fib m nt' = nt_fib m nt" and "nt_meas m nt' = nt_meas m nt" and "nt_sc m nt' = nt_sc m nt"
proof -
  have wf: "nt_inv nt" using assms(1) by (simp add: pit_inv_def)
  have "sameTables nt (lookup (i_name i) (nteDepth L (i_name i)) nt)"
    using lookup_spec [OF wf nteDepth_le [of L "i_name i"]] by simp
  then show "nt_fib m nt' = nt_fib m nt" "nt_meas m nt' = nt_meas m nt" "nt_sc m nt' = nt_sc m nt"
    using pit_insert_spec [OF assms(1), of i, folded pit_insert_def, unfolded assms(2), simplified]
    by (auto simp: sameTables_def split: option.splits)
qed

text \<open>
  C17: the PIT holds at most one entry per name, CanBePrefix and MustBeFresh. Inserting an
  Interest returns an entry with its key; it is new exactly if the PIT had none, every other
  entry stays what it was, and the size counter is the number of entries.
\<close>

theorem pit_insert_finds_or_creates:
  assumes "pit_inv L (nt, k, a)" and "pit_insert L i (nt, k, a) = ((nt', k', a'), r, isNew)"
  shows "pit_inv L (nt', k', a') \<and>
    (\<exists>r0 e. r = Some r0 \<and> pit_get r0 nt' = Some e \<and> pe_key e = i_key i \<and>
      (isNew \<longleftrightarrow> pit_get r0 nt = None) \<and> (isNew \<longrightarrow> e = newPitEntry a i) \<and>
      (\<forall>r1. r1 \<noteq> r0 \<or> \<not> isNew \<longrightarrow> pit_get r1 nt' = pit_get r1 nt) \<and>
      (\<forall>r1 e1. pit_get r1 nt' = Some e1 \<and> pe_key e1 = i_key i \<longrightarrow> r1 = r0))"
  using pit_insert_entries [OF assms] .

theorem pit_insert_finds_or_creates_witness:
  "\<exists>nt k a r e. pit_insert canonicalLib (exampleInterest [compA]) ([], 0, 0) = ((nt, k, a), Some r, True) \<and>
     pit_inv canonicalLib (nt, k, a) \<and> pit_get r nt = Some e \<and> pe_key e = ([compA], True, False)"
proof -
  let ?i = "exampleInterest [compA]"
  obtain nt k a r n where p: "pit_insert canonicalLib ?i ([], 0, 0) = ((nt, k, a), r, n)"
    by (metis prod.exhaust)
  have none: "pit_get r [] = None" for r by (simp add: pit_get_def nt_pits_def nt_get_def)
  have "pit_inv canonicalLib (nt, k, a) \<and> (\<exists>r0 e. r = Some r0 \<and> pit_get r0 nt = Some e \<and>
      pe_key e = i_key ?i \<and> n)"
    using pit_insert_finds_or_creates [OF pit_inv_empty p] none by auto
  then show ?thesis using p by (auto simp: i_key_def exampleInterest_def)
qed

text \<open>
  C18: Data matching is sound and complete. The entries \<^verbatim>\<open>findAllDataMatches\<close> returns are
  exactly those of the whole PIT whose Interest the Data matches, each once, although only
  the prefixes of the Data name within the depth limit are visited.
\<close>

theorem findAllDataMatches_exact:
  assumes "ndn_lib_laws L" and "pit_inv L (nt, k, a)"
  shows "distinct (pit_findAllDataMatches L d nt) \<and>
    set (pit_findAllDataMatches L d nt) =
      {r. \<exists>e. pit_get r nt = Some e \<and> matchesData L (pe_interest e) d}"
  using findAllDataMatches_aux [OF assms] by auto

definition exampleData :: "name \<Rightarrow> data" where
  "exampleData n = \<lparr>d_name = n, d_digest = Component 1 ''digest'', d_freshnessPeriod = 0,
     d_noCache = False, d_incomingFaceId = None, d_pitToken = None\<rparr>"

theorem findAllDataMatches_exact_witness:
  "pit_findAllDataMatches canonicalLib (exampleData [compA, compB])
     (fst (fst (pit_insert canonicalLib (exampleInterest [compA]) ([], 0, 0)))) = [([compA], 0)]"
proof -
  let ?i = "exampleInterest [compA]" and ?d = "exampleData [compA, compB]"
  let ?s = "fst (pit_insert canonicalLib ?i ([], 0, 0))"
  obtain nt k a where s: "?s = (nt, k, a)" by (metis prod.exhaust)
  have "pit_inv canonicalLib ?s"
    using pit_insert_spec [OF pit_inv_empty, of canonicalLib ?i] by (simp add: pit_insert_def)
  then have inv: "pit_inv canonicalLib (nt, k, a)" using s by simp
  have nt: "nt = fst ?s" using s by simp
  have g: "pit_get r nt = (if r = ([compA], 0) then Some (newPitEntry 0 ?i) else None)" for r
    unfolding nt
    by (cases r)
      (auto simp: pit_insert_def pit_findOrInsert_def Let_def exampleInterest_def nteDepth_def hasDigest_def
        canonicalLib_def compA_def getMaxDepth_def nt_insert_def nt_get_def nte_setParent_def nt_update_def
        nt_pits_def newNte_def insertPitEntry_def pit_get_def)
  have m: "matchesData canonicalLib ?i ?d"
    by (simp add: canonicalLib_def exampleInterest_def exampleData_def)
  have "distinct (pit_findAllDataMatches canonicalLib ?d nt)"
    "set (pit_findAllDataMatches canonicalLib ?d nt) = {([compA], 0)}"
    using findAllDataMatches_exact [OF canonical.ndn_lib_laws_axioms inv, of ?d] m g by auto
  then have "pit_findAllDataMatches canonicalLib ?d nt = [([compA], 0)]"
    by (rule distinct_set_singleton)
  then show ?thesis by (simp add: s)
qed

end
