(* ===== verification/Measurements.thy ===== *)
theory Measurements
  imports Fib Pit
begin

text \<open>
  \<^verbatim>\<open>daemon/table/measurements.cpp\<close>: the measurements table. Its state is the shared name tree and
  the counter \<^verbatim>\<open>m_nItems\<close>. \<^verbatim>\<open>m_cleanup\<close>, the scheduled event that erases an entry, is the time at
  which it fires; a reference to an entry is its name.
\<close>

type_synonym measurements = "nameTree \<times> 64 word"

definition getInitialLifetime :: duration where
  "getInitialLifetime = 4000000000"

definition newMeasEntry :: "name \<Rightarrow> meas_entry" where
  "newMeasEntry n = \<lparr>me_name = n, me_expiry = TIME_MIN, me_cleanup = None, me_info = []\<rparr>"

definition meas_getNte :: "time \<Rightarrow> name \<Rightarrow> measurements \<Rightarrow> measurements" where
  "meas_getNte now n = (\<lambda>(nt, k).
     if nt_meas n nt \<noteq> None then (nt, k)
     else (setMeasurementsEntry n
             (Some ((newMeasEntry n)\<lparr>me_expiry := now + getInitialLifetime,
                                     me_cleanup := Some (now + getInitialLifetime)\<rparr>)) nt, k + 1))"

definition meas_get :: "time \<Rightarrow> name \<Rightarrow> measurements \<Rightarrow> measurements \<times> name" where
  "meas_get now name = (\<lambda>(nt, k).
     let d = min (length name) getMaxDepth
     in (meas_getNte now (take d name) (lookup name d nt, k), take d name))"

text \<open>\<^verbatim>\<open>NameTree::lookup(const fib::Entry&)\<close>: the entry of an attached FIB entry, or the root.\<close>

definition lookup_fib :: "name option \<Rightarrow> nameTree \<Rightarrow> nameTree \<times> name" where
  "lookup_fib entry nt = (case entry of None \<Rightarrow> (lookup [] 0 nt, []) | Some n \<Rightarrow> (nt, n))"

definition meas_get_fib :: "time \<Rightarrow> name option \<Rightarrow> measurements \<Rightarrow> measurements \<times> name" where
  "meas_get_fib now entry = (\<lambda>(nt, k).
     let (nt', n) = lookup_fib entry nt in (meas_getNte now n (nt', k), n))"

text \<open>\<^verbatim>\<open>NameTree::lookup(const pit::Entry&)\<close>: a PIT entry whose name ends with an implicit digest is
  attached one level above its name.\<close>

definition lookup_pit :: "ndn_lib \<Rightarrow> name \<Rightarrow> name \<Rightarrow> nameTree \<Rightarrow> nameTree \<times> name" where
  "lookup_pit L n name nt =
     (if hasDigest L name \<and> length name \<le> getMaxDepth
      then (lookup name (length name) nt, name) else (nt, n))"

definition meas_get_pit :: "ndn_lib \<Rightarrow> time \<Rightarrow> name \<Rightarrow> name \<Rightarrow> measurements \<Rightarrow> measurements \<times> name" where
  "meas_get_pit L now n name = (\<lambda>(nt, k).
     let (nt', m) = lookup_pit L n name nt in (meas_getNte now m (nt', k), m))"

definition meas_getParent :: "time \<Rightarrow> name \<Rightarrow> measurements \<Rightarrow> measurements \<times> name option" where
  "meas_getParent now child = (\<lambda>(nt, k).
     if child = [] then ((nt, k), None)
     else case nt_get child nt of
            None \<Rightarrow> ((nt, k), None)
          | Some e \<Rightarrow> (case nte_parent e of
                         None \<Rightarrow> ((nt, k), None)
                       | Some p \<Rightarrow> (meas_getNte now p (nt, k), Some p)))"

definition meas_findLongestPrefixMatch :: "name \<Rightarrow> (meas_entry \<Rightarrow> bool) \<Rightarrow> nameTree \<Rightarrow> name option" where
  "meas_findLongestPrefixMatch name pred nt =
     findLongestPrefixMatch (take getMaxDepth name)
       (\<lambda>_ e. case nte_meas e of None \<Rightarrow> False | Some m \<Rightarrow> pred m) nt"

definition meas_findExactMatch :: "name \<Rightarrow> nameTree \<Rightarrow> meas_entry option" where
  "meas_findExactMatch name nt =
     (case findExactMatch name (length name) nt of None \<Rightarrow> None | Some n \<Rightarrow> nt_meas n nt)"

definition meas_extendLifetime :: "time \<Rightarrow> name \<Rightarrow> duration \<Rightarrow> nameTree \<Rightarrow> nameTree" where
  "meas_extendLifetime now n lifetime nt =
     (case nt_meas n nt of
        None \<Rightarrow> nt
      | Some e \<Rightarrow>
          if me_expiry e \<ge> now + lifetime then nt
          else setMeasurementsEntry n
                 (Some (e\<lparr>me_expiry := now + lifetime, me_cleanup := Some (now + lifetime)\<rparr>)) nt)"

definition meas_cleanup :: "name \<Rightarrow> measurements \<Rightarrow> measurements" where
  "meas_cleanup n = (\<lambda>(nt, k).
     (fst (eraseIfEmpty n True (setMeasurementsEntry n None nt)), k - 1))"

section \<open>The invariant\<close>

text \<open>Every entry has a cleanup event pending, at its expiry.\<close>

definition meas_wf :: "nameTree \<Rightarrow> bool" where
  "meas_wf nt \<longleftrightarrow>
     (\<forall>n e. nt_meas n nt = Some e \<longrightarrow> me_name e = n \<and> me_cleanup e = Some (me_expiry e))"

definition measCount :: "nameTree \<Rightarrow> nat" where
  "measCount nt = card {n. nt_meas n nt \<noteq> None}"

definition meas_inv :: "measurements \<Rightarrow> bool" where
  "meas_inv = (\<lambda>(nt, k). nt_inv nt \<and> meas_wf nt \<and> k = of_nat (measCount nt))"

text \<open>The events of the table, in the order they happen: an entry is requested, its lifetime
  is extended, or the scheduler fires the cleanup whose time has come.\<close>

datatype meas_event = MeasGet name | MeasExtend name duration | MeasFire name

fun meas_step :: "time \<times> meas_event \<Rightarrow> measurements \<Rightarrow> measurements" where
  "meas_step (now, MeasGet n) s = fst (meas_get now n s)"
| "meas_step (now, MeasExtend n d) s = (meas_extendLifetime now n d (fst s), snd s)"
| "meas_step (now, MeasFire n) s =
     (case nt_meas n (fst s) of
        None \<Rightarrow> s
      | Some e \<Rightarrow> (case me_cleanup e of
                     None \<Rightarrow> s
                   | Some t \<Rightarrow> if t \<le> now then meas_cleanup n s else s))"

text \<open>The abstract table: when each name's measurements expire.\<close>

fun expiry_step :: "time \<times> meas_event \<Rightarrow> (name \<rightharpoonup> time) \<Rightarrow> (name \<rightharpoonup> time)" where
  "expiry_step (now, MeasGet n) m =
     (let p = take getMaxDepth n
      in if m p = None then m(p \<mapsto> now + getInitialLifetime) else m)"
| "expiry_step (now, MeasExtend n d) m = m(n := map_option (max (now + d)) (m n))"
| "expiry_step (now, MeasFire n) m =
     (case m n of None \<Rightarrow> m | Some t \<Rightarrow> if t \<le> now then m(n := None) else m)"

definition meas_expiries :: "nameTree \<Rightarrow> name \<rightharpoonup> time" where
  "meas_expiries nt n = map_option me_expiry (nt_meas n nt)"

lemma finite_meas: "finite {n. nt_meas n nt \<noteq> None}"
  by (rule finite_subset [OF _ finite_present [of nt]]) (auto simp: nt_meas_def split: option.splits)

lemma measCount_set:
  assumes "\<And>m. nt_meas m nt' = (if m = n then x else nt_meas m nt)"
  shows "measCount nt' + (if nt_meas n nt = None then 0 else 1) = measCount nt + (if x = None then 0 else 1)"
  unfolding measCount_def by (rule card_keys_update [OF finite_meas assms])

lemma meas_getNte_spec:
  assumes inv: "meas_inv (nt, k)" and n: "nt_get n nt \<noteq> None"
  shows "meas_inv (meas_getNte now n (nt, k))"
    and "meas_expiries (fst (meas_getNte now n (nt, k))) =
      (if meas_expiries nt n = None then (meas_expiries nt)(n \<mapsto> now + getInitialLifetime)
       else meas_expiries nt)"
proof -
  let ?e = "(newMeasEntry n)\<lparr>me_expiry := now + getInitialLifetime,
                              me_cleanup := Some (now + getInitialLifetime)\<rparr>"
  let ?t = "setMeasurementsEntry n (Some ?e) nt"
  have t: "nt_meas m ?t = (if m = n then Some ?e else nt_meas m nt)" for m using n by simp
  have i: "nt_inv nt" "meas_wf nt" "k = of_nat (measCount nt)" using inv by (simp_all add: meas_inv_def)
  have "meas_wf ?t" using i(2) unfolding meas_wf_def t by (auto simp: newMeasEntry_def)
  moreover have "measCount ?t = Suc (measCount nt)" if "nt_meas n nt = None"
    using measCount_set [OF t] that by simp
  ultimately show "meas_inv (meas_getNte now n (nt, k))"
    using i nt_inv_setters(4) [OF i(1)] by (auto simp: meas_getNte_def meas_inv_def)
  show "meas_expiries (fst (meas_getNte now n (nt, k))) =
      (if meas_expiries nt n = None then (meas_expiries nt)(n \<mapsto> now + getInitialLifetime)
       else meas_expiries nt)"
    using n by (auto simp: meas_getNte_def meas_expiries_def fun_eq_iff)
qed

lemma meas_inv_sameTables:
  "sameTables nt nt' \<Longrightarrow> nt_inv nt' \<Longrightarrow> meas_inv (nt, k) \<Longrightarrow> meas_inv (nt', k)"
  "sameTables nt nt' \<Longrightarrow> meas_expiries nt' = meas_expiries nt"
  by (auto simp: sameTables_def meas_inv_def meas_wf_def measCount_def meas_expiries_def)

lemma meas_get_spec:
  assumes inv: "meas_inv (nt, k)"
  shows "meas_inv (fst (meas_get now n (nt, k)))"
    and "meas_expiries (fst (fst (meas_get now n (nt, k)))) =
      expiry_step (now, MeasGet n) (meas_expiries nt)"
proof -
  let ?d = "min (length n) getMaxDepth"
  let ?l = "lookup n ?d nt"
  have nt: "nt_inv nt" using inv by (simp add: meas_inv_def)
  have l: "nt_inv ?l" "sameTables nt ?l" "nt_get (take ?d n) ?l \<noteq> None"
    using lookup_spec [OF nt, of ?d n] by auto
  have d: "take ?d n = take getMaxDepth n" by (simp add: min_def)
  have r: "fst (meas_get now n (nt, k)) = meas_getNte now (take ?d n) (?l, k)"
    by (simp add: meas_get_def Let_def)
  note i = meas_inv_sameTables(1) [OF l(2,1) inv]
  show "meas_inv (fst (meas_get now n (nt, k)))"
    unfolding r by (rule meas_getNte_spec(1) [OF i l(3)])
  show "meas_expiries (fst (fst (meas_get now n (nt, k)))) =
      expiry_step (now, MeasGet n) (meas_expiries nt)"
    unfolding r meas_getNte_spec(2) [OF i l(3)] meas_inv_sameTables(2) [OF l(2)]
    by (simp add: d Let_def)
qed

lemma meas_extend_spec:
  assumes inv: "meas_inv (nt, k)"
  shows "meas_inv (meas_extendLifetime now n d nt, k)"
    and "meas_expiries (meas_extendLifetime now n d nt) =
      expiry_step (now, MeasExtend n d) (meas_expiries nt)"
proof -
  have i: "nt_inv nt" "meas_wf nt" "k = of_nat (measCount nt)" using inv by (simp_all add: meas_inv_def)
  have "meas_inv (meas_extendLifetime now n d nt, k) \<and>
    meas_expiries (meas_extendLifetime now n d nt) = expiry_step (now, MeasExtend n d) (meas_expiries nt)"
  proof (cases "nt_meas n nt")
    case None
    then show ?thesis
      using inv by (auto simp: meas_extendLifetime_def meas_expiries_def fun_eq_iff)
  next
    case (Some e)
    show ?thesis
    proof (cases "me_expiry e \<ge> now + d")
      case True
      then show ?thesis
        using inv Some by (auto simp: meas_extendLifetime_def meas_expiries_def fun_eq_iff)
    next
      case False
      let ?e = "e\<lparr>me_expiry := now + d, me_cleanup := Some (now + d)\<rparr>"
      let ?t = "setMeasurementsEntry n (Some ?e) nt"
      have g: "nt_get n nt \<noteq> None" using nt_view_present(3) Some by auto
      have t: "nt_meas m ?t = (if m = n then Some ?e else nt_meas m nt)" for m using g by simp
      have "meas_wf ?t" using i(2) Some unfolding meas_wf_def t by auto
      moreover have "measCount ?t = measCount nt" using measCount_set [OF t] Some by simp
      ultimately have "meas_inv (?t, k)" using i nt_inv_setters(4) by (simp add: meas_inv_def)
      moreover have "meas_extendLifetime now n d nt = ?t"
        using Some False by (simp add: meas_extendLifetime_def)
      ultimately show ?thesis
        using Some False by (auto simp: meas_expiries_def fun_eq_iff t simp del: nt_meas_setters)
    qed
  qed
  then show "meas_inv (meas_extendLifetime now n d nt, k)"
    and "meas_expiries (meas_extendLifetime now n d nt) =
      expiry_step (now, MeasExtend n d) (meas_expiries nt)" by blast+
qed

lemma meas_cleanup_spec:
  assumes inv: "meas_inv (nt, k)" and n: "nt_meas n nt \<noteq> None"
  shows "meas_inv (meas_cleanup n (nt, k))"
    and "meas_expiries (fst (meas_cleanup n (nt, k))) = (meas_expiries nt)(n := None)"
proof -
  let ?t = "setMeasurementsEntry n None nt"
  let ?r = "fst (eraseIfEmpty n True ?t)"
  have i: "nt_inv nt" "meas_wf nt" "k = of_nat (measCount nt)" using inv by (simp_all add: meas_inv_def)
  have t: "nt_inv ?t" using nt_inv_setters(4) [OF i(1)] .
  note r = eraseIfEmpty_facts(1,2) [OF t, of n True]
  have m: "nt_meas m ?r = (if m = n then None else nt_meas m nt)" for m
    using r(2) nt_view_present(3) [OF n] by (simp add: sameTables_def)
  have "meas_wf ?r" using i(2) unfolding meas_wf_def m by auto
  moreover have cnt: "Suc (measCount ?r) = measCount nt" using measCount_set [OF m] n by simp
  have "k - 1 = of_nat (measCount ?r)"
    by (rule counter_pred) (use i(3) in \<open>simp only: cnt\<close>)
  ultimately show "meas_inv (meas_cleanup n (nt, k))"
    using r(1) by (simp add: meas_cleanup_def meas_inv_def)
  show "meas_expiries (fst (meas_cleanup n (nt, k))) = (meas_expiries nt)(n := None)"
    by (auto simp: meas_cleanup_def meas_expiries_def fun_eq_iff m)
qed

lemma meas_step_refines:
  assumes "meas_inv s"
  shows "meas_inv (meas_step ev s) \<and> meas_expiries (fst (meas_step ev s)) = expiry_step ev (meas_expiries (fst s))"
proof -
  obtain nt k where s: "s = (nt, k)" by (cases s)
  obtain now e where ev: "ev = (now, e)" by (cases ev)
  have inv: "meas_inv (nt, k)" using assms s by simp
  show ?thesis
  proof (cases e)
    case (MeasGet n)
    then show ?thesis unfolding s ev using meas_get_spec [OF inv, of now n] by simp
  next
    case (MeasExtend n d)
    then show ?thesis unfolding s ev using meas_extend_spec [OF inv, of now n d] by simp
  next
    case (MeasFire n)
    show ?thesis
    proof (cases "nt_meas n nt")
      case None
      then show ?thesis using inv MeasFire by (simp add: s ev meas_expiries_def)
    next
      case (Some m)
      then have "me_cleanup m = Some (me_expiry m)" using inv by (simp add: meas_inv_def meas_wf_def)
      then show ?thesis
        using Some inv MeasFire meas_cleanup_spec [OF inv, of n] by (simp add: s ev meas_expiries_def)
    qed
  qed
qed

section \<open>Properties\<close>

lemma meas_inv_empty: "meas_inv ([], 0)"
  by (simp add: meas_inv_def nt_inv_empty meas_wf_def measCount_def nt_meas_def nt_get_def)

lemma meas_run_refines:
  "meas_inv s \<Longrightarrow> meas_inv (fold meas_step evs s) \<and>
   meas_expiries (fst (fold meas_step evs s)) = fold expiry_step evs (meas_expiries (fst s))"
  by (induction evs arbitrary: s) (simp_all add: meas_step_refines)

text \<open>
  C19: the measurements table refines a map from names to expiry times. For any sequence of
  requests, lifetime extensions and timer events at any times, every entry has exactly one
  cleanup event pending, at its expiry; an extension never shortens a lifetime; an entry
  disappears only by the event of its expiry; and the size counter is the number of entries.
\<close>

theorem measurements_refine_expiry_map:
  "meas_inv (fold meas_step evs ([], 0)) \<and>
   meas_expiries (fst (fold meas_step evs ([], 0))) = fold expiry_step evs Map.empty"
proof -
  have "meas_expiries [] = Map.empty"
    by (simp add: fun_eq_iff meas_expiries_def nt_meas_def nt_get_def)
  then show ?thesis using meas_run_refines [OF meas_inv_empty, of evs] by simp
qed

end
