(* ===== verification/FwAlgorithm.thy ===== *)
theory FwAlgorithm
  imports Fib Pit "HOL-Library.Monad_Syntax"
begin

text \<open>
  \<^verbatim>\<open>daemon/fw/algorithm.cpp\<close>: the decisions that pipelines and strategies share, on a PIT entry
  and the faces involved. The face objects are a map \<open>F\<close> from addresses to their attributes. A
  result \<open>None\<close> is a failed assertion.
\<close>

unbundle bit_operations_syntax

section \<open>Scope and loops\<close>

definition wouldViolateScope :: "face \<Rightarrow> interest \<Rightarrow> face \<Rightarrow> bool" where
  "wouldViolateScope inFace i outFace =
     (if f_scope outFace = FACE_SCOPE_LOCAL then False
      else if prefix LOCALHOST (i_name i) then True
      else if prefix LOCALHOP (i_name i) then f_scope inFace \<noteq> FACE_SCOPE_LOCAL
      else False)"

definition DUPLICATE_NONCE_NONE :: int where "DUPLICATE_NONCE_NONE = 0"
definition DUPLICATE_NONCE_IN_SAME :: int where "DUPLICATE_NONCE_IN_SAME = push_bit 0 1"
definition DUPLICATE_NONCE_IN_OTHER :: int where "DUPLICATE_NONCE_IN_OTHER = push_bit 1 1"
definition DUPLICATE_NONCE_OUT_SAME :: int where "DUPLICATE_NONCE_OUT_SAME = push_bit 2 1"
definition DUPLICATE_NONCE_OUT_OTHER :: int where "DUPLICATE_NONCE_OUT_OTHER = push_bit 3 1"

definition findDuplicateNonce :: "pit_entry \<Rightarrow> nonce \<Rightarrow> faceRef \<Rightarrow> int" where
  "findDuplicateNonce e nonce f =
     (let dnw = foldl (\<lambda>dnw r. if fr_lastNonce r = nonce
                  then if fr_face r = f then dnw OR DUPLICATE_NONCE_IN_SAME else dnw OR DUPLICATE_NONCE_IN_OTHER
                  else dnw) DUPLICATE_NONCE_NONE (pe_inRecords e)
      in foldl (\<lambda>dnw r. if fr_lastNonce r = nonce
           then if fr_face r = f then dnw OR DUPLICATE_NONCE_OUT_SAME else dnw OR DUPLICATE_NONCE_OUT_OTHER
           else dnw) dnw (pe_outRecords e))"

section \<open>Upstreams\<close>

definition hasPendingOutRecords :: "time \<Rightarrow> pit_entry \<Rightarrow> bool" where
  "hasPendingOutRecords now e \<longleftrightarrow>
     list_ex (\<lambda>r. now \<le> fr_expiry r \<and> or_incomingNack r = None) (pe_outRecords e)"

text \<open>\<^verbatim>\<open>std::max_element\<close> under a key: the first of the greatest elements.\<close>

definition maxElement :: "('a \<Rightarrow> 'b::linorder) \<Rightarrow> 'a list \<Rightarrow> 'a option" where
  "maxElement g xs = (case xs of [] \<Rightarrow> None | x # xs \<Rightarrow> Some (foldl (\<lambda>m y. if g m < g y then y else m) x xs))"

definition getLastOutgoing :: "pit_entry \<Rightarrow> time option" where
  "getLastOutgoing e = map_option fr_lastRenewed (maxElement fr_lastRenewed (pe_outRecords e))"

definition isNextHopEligible ::
    "(faceRef \<Rightarrow> face) \<Rightarrow> faceRef \<Rightarrow> interest \<Rightarrow> nextHop \<Rightarrow> pit_entry \<Rightarrow> bool \<Rightarrow> time \<Rightarrow> bool" where
  "isNextHopEligible F inFace i nexthop e wantUnused now =
     (let outFace = nh_face nexthop in
      if f_id (F outFace) = f_id (F inFace) \<and> f_linkType (F outFace) \<noteq> LINK_TYPE_AD_HOC \<or>
         wouldViolateScope (F inFace) i (F outFace)
      then False
      else if wantUnused
      then (case getOutRecord outFace e of None \<Rightarrow> True | Some r \<Rightarrow> \<not> now < fr_expiry r)
      else True)"

text \<open>The default arguments of \<^verbatim>\<open>isNextHopEligible\<close>.\<close>

abbreviation nextHopEligible :: "(faceRef \<Rightarrow> face) \<Rightarrow> faceRef \<Rightarrow> interest \<Rightarrow> pit_entry \<Rightarrow> nextHop \<Rightarrow> bool" where
  "nextHopEligible F inFace i e nexthop \<equiv> isNextHopEligible F inFace i nexthop e False TIME_MIN"

definition TIME_MAX :: time where
  "TIME_MAX = 2 ^ 63 - 1"

fun earliestLoop ::
    "(faceRef \<Rightarrow> face) \<Rightarrow> faceRef \<Rightarrow> interest \<Rightarrow> pit_entry \<Rightarrow> nextHop option \<Rightarrow> time \<Rightarrow> nextHop list \<Rightarrow>
     nextHop option option" where
  "earliestLoop F inFace i e found earliestRenewed [] = Some found"
| "earliestLoop F inFace i e found earliestRenewed (nh # nhs) =
     (if \<not> nextHopEligible F inFace i e nh then earliestLoop F inFace i e found earliestRenewed nhs
      else case getOutRecord (nh_face nh) e of
        None \<Rightarrow> None
      | Some r \<Rightarrow>
          if fr_lastRenewed r < earliestRenewed then earliestLoop F inFace i e (Some nh) (fr_lastRenewed r) nhs
          else earliestLoop F inFace i e found earliestRenewed nhs)"

definition findEligibleNextHopWithEarliestOutRecord ::
    "(faceRef \<Rightarrow> face) \<Rightarrow> faceRef \<Rightarrow> interest \<Rightarrow> nextHop list \<Rightarrow> pit_entry \<Rightarrow> nextHop option option" where
  "findEligibleNextHopWithEarliestOutRecord F inFace i nexthops e = earliestLoop F inFace i e None TIME_MAX nexthops"

section \<open>Lemmas\<close>

lemma bit_foldl_or:
  "bit (foldl (\<lambda>d r. if p r then if q r then d OR push_bit a 1 else d OR push_bit b 1 else d) (d :: int) rs) n \<longleftrightarrow>
     bit d n \<or> (n = a \<and> list_ex (\<lambda>r. p r \<and> q r) rs) \<or> (n = b \<and> list_ex (\<lambda>r. p r \<and> \<not> q r) rs)"
  by (induction rs arbitrary: d) (auto simp: bit_simps bit_1_iff)

lemma bit_findDuplicateNonce:
  "bit (findDuplicateNonce e nonce f) n \<longleftrightarrow>
     (n = 0 \<and> list_ex (\<lambda>r. fr_lastNonce r = nonce \<and> fr_face r = f) (pe_inRecords e)) \<or>
     (n = 1 \<and> list_ex (\<lambda>r. fr_lastNonce r = nonce \<and> fr_face r \<noteq> f) (pe_inRecords e)) \<or>
     (n = 2 \<and> list_ex (\<lambda>r. fr_lastNonce r = nonce \<and> fr_face r = f) (pe_outRecords e)) \<or>
     (n = 3 \<and> list_ex (\<lambda>r. fr_lastNonce r = nonce \<and> fr_face r \<noteq> f) (pe_outRecords e))"
  unfolding findDuplicateNonce_def Let_def DUPLICATE_NONCE_IN_SAME_def DUPLICATE_NONCE_IN_OTHER_def
    DUPLICATE_NONCE_OUT_SAME_def DUPLICATE_NONCE_OUT_OTHER_def DUPLICATE_NONCE_NONE_def bit_foldl_or
  by auto

lemma findDuplicateNonce_none:
  "findDuplicateNonce e nonce f = DUPLICATE_NONCE_NONE \<longleftrightarrow>
     list_all (\<lambda>r. fr_lastNonce r \<noteq> nonce) (pe_inRecords e) \<and> list_all (\<lambda>r. fr_lastNonce r \<noteq> nonce) (pe_outRecords e)"
proof -
  have "findDuplicateNonce e nonce f = DUPLICATE_NONCE_NONE \<longleftrightarrow> (\<forall>n. \<not> bit (findDuplicateNonce e nonce f) n)"
    by (auto simp: DUPLICATE_NONCE_NONE_def intro: bit_eqI)
  also have "\<dots> \<longleftrightarrow> \<not> bit (findDuplicateNonce e nonce f) 0 \<and> \<not> bit (findDuplicateNonce e nonce f) 1 \<and>
      \<not> bit (findDuplicateNonce e nonce f) 2 \<and> \<not> bit (findDuplicateNonce e nonce f) 3"
    by (metis bit_findDuplicateNonce)
  also have "\<dots> \<longleftrightarrow> list_all (\<lambda>r. fr_lastNonce r \<noteq> nonce) (pe_inRecords e) \<and>
      list_all (\<lambda>r. fr_lastNonce r \<noteq> nonce) (pe_outRecords e)"
    by (auto simp: bit_findDuplicateNonce list_all_iff list_ex_iff)
  finally show ?thesis .
qed

lemma and_in_same: "dnw AND DUPLICATE_NONCE_IN_SAME = 0 \<longleftrightarrow> \<not> bit dnw 0"
  by (simp add: DUPLICATE_NONCE_IN_SAME_def and_one_eq bit_0 odd_iff_mod_2_eq_one)

lemma maxElement_spec:
  assumes "xs \<noteq> []"
  shows "\<exists>m \<in> set xs. maxElement g xs = Some m \<and> (\<forall>y \<in> set xs. g y \<le> g m)"
proof -
  have "let m = foldl (\<lambda>m y. if g m < g y then y else m) x ys
    in m \<in> set (x # ys) \<and> (\<forall>y \<in> set (x # ys). g y \<le> g m)" for x ys
  proof (induction ys arbitrary: x)
    case (Cons y ys)
    show ?case using Cons.IH [of x] Cons.IH [of y] by (auto simp: Let_def)
  qed simp
  then show ?thesis using assms by (cases xs) (auto simp: maxElement_def Let_def)
qed

lemma maxElement_None [simp]: "maxElement g [] = None"
  by (simp add: maxElement_def)

lemma getLastOutgoing_pending: "hasPendingOutRecords now e \<Longrightarrow> \<exists>t. getLastOutgoing e = Some t"
  using maxElement_spec [of "pe_outRecords e" fr_lastRenewed]
  by (cases "pe_outRecords e") (auto simp: hasPendingOutRecords_def getLastOutgoing_def)

text \<open>If every eligible next hop has an out-record the search succeeds with one of them.\<close>

lemma earliestLoop_returns:
  assumes "\<And>nh. nh \<in> set nhs \<Longrightarrow> nextHopEligible F inFace i e nh \<Longrightarrow> getOutRecord (nh_face nh) e \<noteq> None"
  shows "\<exists>r. earliestLoop F inFace i e found t nhs = Some r \<and>
    (r = found \<or> (\<exists>nh \<in> set nhs. r = Some nh \<and> nextHopEligible F inFace i e nh))"
  using assms
proof (induction nhs arbitrary: found t)
  case (Cons nh nhs)
  have IH: "\<exists>r. earliestLoop F inFace i e found t nhs = Some r \<and>
    (r = found \<or> (\<exists>nh \<in> set nhs. r = Some nh \<and> nextHopEligible F inFace i e nh))" for found t
    using Cons.prems by (intro Cons.IH) simp
  show ?case
  proof (cases "nextHopEligible F inFace i e nh")
    case True
    then obtain r where r: "getOutRecord (nh_face nh) e = Some r" using Cons.prems by auto
    show ?thesis using True r IH [of "Some nh" "fr_lastRenewed r"] IH [of found t] by auto
  next
    case False
    then show ?thesis using IH [of found t] by auto
  qed
qed simp

lemma eligible_iff:
  "isNextHopEligible F inFace i nh e wantUnused now \<longleftrightarrow>
     nextHopEligible F inFace i e nh \<and>
     (wantUnused \<longrightarrow> (case getOutRecord (nh_face nh) e of None \<Rightarrow> True | Some r \<Rightarrow> fr_expiry r \<le> now))"
  by (auto simp: isNextHopEligible_def Let_def split: option.splits)

lemma eligible_scope:
  "isNextHopEligible F inFace i nh e wantUnused now \<Longrightarrow> \<not> wouldViolateScope (F inFace) i (F (nh_face nh))"
  by (simp add: isNextHopEligible_def Let_def split: if_splits)

end
