(* ===== verification/RetxSuppression.thy ===== *)
theory RetxSuppression
  imports FwAlgorithm
begin

text \<open>
  \<^verbatim>\<open>daemon/fw/retx-suppression-exponential.cpp\<close> and \<^verbatim>\<open>retx-suppression-fixed.cpp\<close>: whether a
  retransmitted Interest is forwarded. The intervals of the exponential variant are whole
  microseconds, given here in nanoseconds. Its multiplier is a float in the code; every object
  of it is made with the default of 2, and the model takes the multiplier to be a whole number,
  for which the product is exact.
\<close>

datatype retxSuppressionResult = RETX_NEW | RETX_FORWARD | RETX_SUPPRESS

section \<open>Exponential back-off\<close>

record retxExponential =
  rx_initialInterval :: duration
  rx_multiplier :: nat
  rx_maxInterval :: duration

definition RX_DEFAULT_INITIAL_INTERVAL :: duration where "RX_DEFAULT_INITIAL_INTERVAL = ms 1"
definition RX_DEFAULT_MAX_INTERVAL :: duration where "RX_DEFAULT_MAX_INTERVAL = ms 250"
definition RX_DEFAULT_MULTIPLIER :: nat where "RX_DEFAULT_MULTIPLIER = 2"

definition retxPitInfoTypeId :: int where "retxPitInfoTypeId = 1020"

definition newRetxExponential :: "duration \<Rightarrow> nat \<Rightarrow> duration \<Rightarrow> retxExponential option" where
  "newRetxExponential initialInterval multiplier maxInterval =
     (if 0 < initialInterval \<and> 1 \<le> multiplier \<and> initialInterval \<le> maxInterval
      then Some \<lparr>rx_initialInterval = initialInterval, rx_multiplier = multiplier, rx_maxInterval = maxInterval\<rparr>
      else None)"

text \<open>\<^verbatim>\<open>insertStrategyInfo<PitInfo>(m_initialInterval).first\<close> and the member it points to.\<close>

definition retx_pitInfo :: "retxExponential \<Rightarrow> infoHost \<Rightarrow> (infoHost \<times> duration) option" where
  "retx_pitInfo rx h =
     (case insertStrategyInfo retxPitInfoTypeId (RetxPitInfo (rx_initialInterval rx)) h of
        (h', RetxPitInfo d, _) \<Rightarrow> Some (h', d)
      | _ \<Rightarrow> None)"

definition retx_nextInterval :: "retxExponential \<Rightarrow> duration \<Rightarrow> duration" where
  "retx_nextInterval rx d = min (rx_maxInterval rx) (d * int (rx_multiplier rx))"

definition decidePerPitEntry ::
    "retxExponential \<Rightarrow> time \<Rightarrow> pit_entry \<Rightarrow> (pit_entry \<times> retxSuppressionResult) option" where
  "decidePerPitEntry rx now e =
     (if \<not> hasPendingOutRecords now e then Some (e, RETX_NEW)
      else do {
        lastOutgoing \<leftarrow> getLastOutgoing e;
        (h, suppressionInterval) \<leftarrow> retx_pitInfo rx (pe_info e);
        if now - lastOutgoing < suppressionInterval then Some (e\<lparr>pe_info := h\<rparr>, RETX_SUPPRESS)
        else Some (e\<lparr>pe_info := setStrategyInfo retxPitInfoTypeId
                      (RetxPitInfo (retx_nextInterval rx suppressionInterval)) h\<rparr>, RETX_FORWARD) })"

definition decidePerUpstream ::
    "retxExponential \<Rightarrow> time \<Rightarrow> faceRef \<Rightarrow> pit_entry \<Rightarrow> (pit_entry \<times> retxSuppressionResult) option" where
  "decidePerUpstream rx now outFace e =
     (case getOutRecord outFace e of
        None \<Rightarrow> Some (e, RETX_NEW)
      | Some r \<Rightarrow> do {
          (h, suppressionInterval) \<leftarrow> retx_pitInfo rx (fr_info r);
          let e' = updateOutRecord outFace (\<lambda>r. r\<lparr>fr_info := h\<rparr>) e;
          if now - fr_lastRenewed r < suppressionInterval then Some (e', RETX_SUPPRESS)
          else Some (e', RETX_FORWARD) })"

definition incrementIntervalForOutRecord :: "retxExponential \<Rightarrow> out_record \<Rightarrow> out_record option" where
  "incrementIntervalForOutRecord rx r = do {
     (h, suppressionInterval) \<leftarrow> retx_pitInfo rx (fr_info r);
     Some (r\<lparr>fr_info := setStrategyInfo retxPitInfoTypeId
               (RetxPitInfo (retx_nextInterval rx suppressionInterval)) h\<rparr>) }"

section \<open>Fixed interval\<close>

definition RF_DEFAULT_MIN_RETX_INTERVAL :: int where "RF_DEFAULT_MIN_RETX_INTERVAL = 100" \<comment> \<open>ms\<close>

definition fixed_decidePerPitEntry :: "int \<Rightarrow> time \<Rightarrow> pit_entry \<Rightarrow> retxSuppressionResult option" where
  "fixed_decidePerPitEntry minRetxInterval now e =
     (if \<not> hasPendingOutRecords now e then Some RETX_NEW
      else do {
        lastOutgoing \<leftarrow> getLastOutgoing e;
        Some (if now - lastOutgoing < ms minRetxInterval then RETX_SUPPRESS else RETX_FORWARD) })"

section \<open>Well-formed StrategyInfo\<close>

text \<open>The item under the type identifier of the back-off is one of its own.\<close>

definition retx_ok :: "infoHost \<Rightarrow> bool" where
  "retx_ok h \<longleftrightarrow> (case map_of h retxPitInfoTypeId of None \<Rightarrow> True | Some x \<Rightarrow> (\<exists>d. x = RetxPitInfo d))"

definition retx_interval :: "retxExponential \<Rightarrow> infoHost \<Rightarrow> duration" where
  "retx_interval rx h =
     (case map_of h retxPitInfoTypeId of Some (RetxPitInfo d) \<Rightarrow> d | _ \<Rightarrow> rx_initialInterval rx)"

lemma retx_ok_Nil [simp]: "retx_ok []" "retx_interval rx [] = rx_initialInterval rx"
  by (simp_all add: retx_ok_def retx_interval_def)

lemma map_of_setStrategyInfo:
  "map_of (setStrategyInfo t x h) t' = (if t' = t \<and> map_of h t \<noteq> None then Some x else map_of h t')"
  unfolding setStrategyInfo_def by (induction h) auto

lemma retx_pitInfo_spec:
  assumes "retx_ok h"
  obtains h' where "retx_pitInfo rx h = Some (h', retx_interval rx h)"
    "map_of h' = (map_of h)(retxPitInfoTypeId \<mapsto> RetxPitInfo (retx_interval rx h))"
proof (cases "map_of h retxPitInfoTypeId")
  case None
  then show ?thesis using that by (simp add: retx_pitInfo_def insertStrategyInfo_def retx_interval_def)
next
  case (Some x)
  then obtain d where d: "x = RetxPitInfo d" using assms by (auto simp: retx_ok_def)
  show ?thesis
    by (rule that [of h]) (use Some d in \<open>simp_all add: retx_pitInfo_def insertStrategyInfo_def retx_interval_def
      map_upd_triv\<close>)
qed

lemma retx_stored:
  assumes "map_of h' = m(retxPitInfoTypeId \<mapsto> RetxPitInfo d)"
  shows "retx_ok h'" "retx_interval rx h' = d"
    "retx_ok (setStrategyInfo retxPitInfoTypeId (RetxPitInfo d') h')"
    "retx_interval rx (setStrategyInfo retxPitInfoTypeId (RetxPitInfo d') h') = d'"
    "t \<noteq> retxPitInfoTypeId \<Longrightarrow> map_of (setStrategyInfo retxPitInfoTypeId (RetxPitInfo d') h') t = m t"
  using assms by (auto simp: retx_ok_def retx_interval_def map_of_setStrategyInfo)

text \<open>
  A decision changes nothing of the entry but the StrategyInfo of the back-off: the interval
  grows exactly if the retransmission is forwarded.
\<close>

lemma decidePerPitEntry_spec:
  assumes "retx_ok (pe_info e)"
  shows "\<exists>h r. decidePerPitEntry rx now e = Some (e\<lparr>pe_info := h\<rparr>, r) \<and> retx_ok h \<and>
    (\<forall>t. t \<noteq> retxPitInfoTypeId \<longrightarrow> map_of h t = map_of (pe_info e) t) \<and>
    (case r of
       RETX_NEW \<Rightarrow> \<not> hasPendingOutRecords now e \<and> h = pe_info e
     | RETX_SUPPRESS \<Rightarrow> hasPendingOutRecords now e \<and>
         (\<exists>t. getLastOutgoing e = Some t \<and> now - t < retx_interval rx (pe_info e)) \<and>
         retx_interval rx h = retx_interval rx (pe_info e)
     | RETX_FORWARD \<Rightarrow> hasPendingOutRecords now e \<and>
         (\<exists>t. getLastOutgoing e = Some t \<and> retx_interval rx (pe_info e) \<le> now - t) \<and>
         retx_interval rx h = retx_nextInterval rx (retx_interval rx (pe_info e)))"
proof (cases "hasPendingOutRecords now e")
  case False
  then show ?thesis using assms
    by (intro exI [of _ "pe_info e"] exI [of _ RETX_NEW]) (simp add: decidePerPitEntry_def)
next
  case True
  obtain t where t: "getLastOutgoing e = Some t" using getLastOutgoing_pending [OF True] by auto
  obtain h' where h': "retx_pitInfo rx (pe_info e) = Some (h', retx_interval rx (pe_info e))"
    "map_of h' = (map_of (pe_info e))(retxPitInfoTypeId \<mapsto> RetxPitInfo (retx_interval rx (pe_info e)))"
    using retx_pitInfo_spec [OF assms] .
  note stored = retx_stored [OF h'(2)]
  show ?thesis
  proof (cases "now - t < retx_interval rx (pe_info e)")
    case suppress: True
    then show ?thesis using True t h' stored
      by (intro exI [of _ h'] exI [of _ RETX_SUPPRESS]) (simp add: decidePerPitEntry_def)
  next
    case False
    then show ?thesis using True t h' stored
      by (intro exI [of _ "setStrategyInfo retxPitInfoTypeId
            (RetxPitInfo (retx_nextInterval rx (retx_interval rx (pe_info e)))) h'"]
          exI [of _ RETX_FORWARD]) (simp add: decidePerPitEntry_def)
  qed
qed

section \<open>Runs\<close>

text \<open>
  What a strategy does with the decisions on one PIT entry: unless the Interest is suppressed it
  is sent, which renews the out-record of the next hop chosen. The run records for each Interest
  whether the entry was pending, that is, whether it is a retransmission, and the decision.
\<close>

definition retx_send :: "retxExponential \<Rightarrow> time \<times> faceRef \<times> interest \<Rightarrow> pit_entry \<Rightarrow>
    (pit_entry \<times> retxSuppressionResult) option" where
  "retx_send rx = (\<lambda>(now, f, i) e. do {
     (e', r) \<leftarrow> decidePerPitEntry rx now e;
     Some (if r = RETX_SUPPRESS then e' else insertOrUpdateOutRecord now f i e', r) })"

fun retx_run :: "retxExponential \<Rightarrow> (time \<times> faceRef \<times> interest) list \<Rightarrow> pit_entry \<Rightarrow>
    (pit_entry \<times> (bool \<times> retxSuppressionResult) list) option" where
  "retx_run rx [] e = Some (e, [])"
| "retx_run rx (x # xs) e = do {
     (e', r) \<leftarrow> retx_send rx x e;
     (e'', rs) \<leftarrow> retx_run rx xs e';
     Some (e'', (hasPendingOutRecords (fst x) e, r) # rs) }"

text \<open>The interval after \<open>k\<close> forwarded retransmissions, and the schedule it permits.\<close>

definition backoffInterval :: "retxExponential \<Rightarrow> nat \<Rightarrow> duration" where
  "backoffInterval rx k = min (rx_maxInterval rx) (rx_initialInterval rx * int (rx_multiplier rx) ^ k)"

fun backoff_ok :: "retxExponential \<Rightarrow> nat \<Rightarrow> time \<Rightarrow> (time \<times> bool \<times> retxSuppressionResult) list \<Rightarrow> bool" where
  "backoff_ok rx k prev [] = True"
| "backoff_ok rx k prev ((now, pending, r) # es) =
     (if \<not> pending then r = RETX_NEW \<and> backoff_ok rx k now es
      else if backoffInterval rx k \<le> now - prev then r = RETX_FORWARD \<and> backoff_ok rx (Suc k) now es
      else r = RETX_SUPPRESS \<and> backoff_ok rx k prev es)"

lemma backoff_0: "newRetxExponential i m x = Some rx \<Longrightarrow> backoffInterval rx 0 = rx_initialInterval rx"
  by (auto simp: newRetxExponential_def backoffInterval_def split: if_splits)

lemma backoff_Suc:
  assumes "newRetxExponential i m x = Some rx"
  shows "retx_nextInterval rx (backoffInterval rx k) = backoffInterval rx (Suc k)"
proof -
  have rx: "0 < rx_initialInterval rx" "1 \<le> rx_multiplier rx" "0 < rx_maxInterval rx"
    using assms by (auto simp: newRetxExponential_def split: if_splits)
  let ?m = "int (rx_multiplier rx)" and ?x = "rx_initialInterval rx * int (rx_multiplier rx) ^ k"
  have m: "1 \<le> ?m" using rx by simp
  have up: "a \<le> a * ?m" if "0 < a" for a using mult_left_mono [OF m, of a] that by simp
  have x: "0 < ?x" using rx by simp
  have s: "rx_initialInterval rx * ?m ^ Suc k = ?x * ?m" by simp
  show ?thesis
  proof (cases "?x \<le> rx_maxInterval rx")
    case True
    then show ?thesis unfolding retx_nextInterval_def backoffInterval_def s by (simp add: min_absorb2)
  next
    case False
    then have "rx_maxInterval rx \<le> ?x * ?m" using up [OF x] by linarith
    then show ?thesis using False up [OF rx(3)]
      unfolding retx_nextInterval_def backoffInterval_def s by (simp add: min_absorb1)
  qed
qed

lemma getLastOutgoing_cong [simp]: "getLastOutgoing (e\<lparr>pe_info := h\<rparr>) = getLastOutgoing e"
  by (simp add: getLastOutgoing_def)

lemma insertOrUpdateOutRecord_info [simp]:
  "pe_info (insertOrUpdateOutRecord now f i e) = pe_info e"
  by (simp add: insertOrUpdateOutRecord_def Let_def)

text \<open>Sending at a time not before any other sending makes it the last.\<close>

lemma insertOrUpdateOutRecord_last:
  assumes "\<And>r. r \<in> set (pe_outRecords e) \<Longrightarrow> fr_lastRenewed r \<le> now"
  shows "getLastOutgoing (insertOrUpdateOutRecord now f i e) = Some now"
    and "r \<in> set (pe_outRecords (insertOrUpdateOutRecord now f i e)) \<Longrightarrow> fr_lastRenewed r \<le> now"
proof -
  let ?upd = "updateFirst (\<lambda>r. fr_face r = f) (face_record_update now i) :: out_record list \<Rightarrow> _"
  have bound: "fr_lastRenewed r \<le> now" if "r \<in> set (?upd rs)" "\<And>r. r \<in> set rs \<Longrightarrow> fr_lastRenewed r \<le> now" for r rs
    using that by (induction rs) (auto simp: face_record_update_def split: if_splits)
  have hit: "\<exists>r \<in> set (?upd rs). fr_lastRenewed r = now" if "find (\<lambda>r. fr_face r = f) rs \<noteq> None" for rs
    using that by (induction rs) (auto simp: face_record_update_def split: if_splits)
  let ?rs = "if find (\<lambda>r. fr_face r = f) (pe_outRecords e) = None then newOutRecord f # pe_outRecords e else pe_outRecords e"
  have rs: "pe_outRecords (insertOrUpdateOutRecord now f i e) = ?upd ?rs"
    by (simp add: insertOrUpdateOutRecord_def)
  have le: "fr_lastRenewed r \<le> now" if "r \<in> set (?upd ?rs)" for r
  proof (cases "find (\<lambda>r. fr_face r = f) (pe_outRecords e) = None")
    case True
    then show ?thesis using that assms
      by (auto simp: newOutRecord_def face_record_update_def)
  next
    case False
    then show ?thesis using that assms bound [of r "pe_outRecords e"] by auto
  qed
  then show "r \<in> set (pe_outRecords (insertOrUpdateOutRecord now f i e)) \<Longrightarrow> fr_lastRenewed r \<le> now"
    unfolding rs .
  have "find (\<lambda>r. fr_face r = f) ?rs \<noteq> None" by (simp add: newOutRecord_def)
  from hit [OF this] obtain r0 where r0: "r0 \<in> set (?upd ?rs)" "fr_lastRenewed r0 = now" by blast
  then obtain m where "m \<in> set (?upd ?rs)" "maxElement fr_lastRenewed (?upd ?rs) = Some m"
    "\<forall>y \<in> set (?upd ?rs). fr_lastRenewed y \<le> fr_lastRenewed m"
    using maxElement_spec [of "?upd ?rs" fr_lastRenewed] by fastforce
  then show "getLastOutgoing (insertOrUpdateOutRecord now f i e) = Some now"
    using le r0 unfolding getLastOutgoing_def rs by (metis option.simps(9) order_antisym)
qed

definition retx_state :: "retxExponential \<Rightarrow> nat \<Rightarrow> time \<Rightarrow> pit_entry \<Rightarrow> bool" where
  "retx_state rx k prev e \<longleftrightarrow> retx_ok (pe_info e) \<and> retx_interval rx (pe_info e) = backoffInterval rx k \<and>
     (\<forall>r \<in> set (pe_outRecords e). fr_lastRenewed r \<le> prev) \<and>
     (pe_outRecords e = [] \<or> getLastOutgoing e = Some prev)"

lemma retx_send_step:
  assumes rx: "newRetxExponential i0 m0 x0 = Some rx" and st: "retx_state rx k prev e" and t: "prev \<le> now"
  shows "\<exists>e' r. retx_send rx (now, f, i) e = Some (e', r) \<and>
    (case r of
       RETX_NEW \<Rightarrow> \<not> hasPendingOutRecords now e \<and> retx_state rx k now e'
     | RETX_FORWARD \<Rightarrow> hasPendingOutRecords now e \<and> backoffInterval rx k \<le> now - prev \<and> retx_state rx (Suc k) now e'
     | RETX_SUPPRESS \<Rightarrow> hasPendingOutRecords now e \<and> now - prev < backoffInterval rx k \<and> retx_state rx k prev e')"
proof -
  have ok: "retx_ok (pe_info e)" using st by (simp add: retx_state_def)
  obtain h r where d: "decidePerPitEntry rx now e = Some (e\<lparr>pe_info := h\<rparr>, r)" "retx_ok h" and
    c: "case r of
       RETX_NEW \<Rightarrow> \<not> hasPendingOutRecords now e \<and> h = pe_info e
     | RETX_SUPPRESS \<Rightarrow> hasPendingOutRecords now e \<and>
         (\<exists>t. getLastOutgoing e = Some t \<and> now - t < retx_interval rx (pe_info e)) \<and>
         retx_interval rx h = retx_interval rx (pe_info e)
     | RETX_FORWARD \<Rightarrow> hasPendingOutRecords now e \<and>
         (\<exists>t. getLastOutgoing e = Some t \<and> retx_interval rx (pe_info e) \<le> now - t) \<and>
         retx_interval rx h = retx_nextInterval rx (retx_interval rx (pe_info e))"
    using decidePerPitEntry_spec [OF ok, of rx now] by blast
  have le: "fr_lastRenewed r \<le> now" if "r \<in> set (pe_outRecords (e\<lparr>pe_info := h\<rparr>))" for r
    using st t that by (fastforce simp: retx_state_def)
  let ?e' = "insertOrUpdateOutRecord now f i (e\<lparr>pe_info := h\<rparr>)"
  have sent: "getLastOutgoing ?e' = Some now" "\<And>r. r \<in> set (pe_outRecords ?e') \<Longrightarrow> fr_lastRenewed r \<le> now"
    using insertOrUpdateOutRecord_last [where e = "e\<lparr>pe_info := h\<rparr>" and now = now] le by blast+
  have int: "retx_interval rx (pe_info e) = backoffInterval rx k" using st by (simp add: retx_state_def)
  show ?thesis
  proof (cases r)
    case RETX_NEW
    then show ?thesis using d c sent ok int by (auto simp: retx_send_def retx_state_def)
  next
    case RETX_FORWARD
    then show ?thesis using d c sent int backoff_Suc [OF rx, of k] st
      by (auto simp: retx_send_def retx_state_def hasPendingOutRecords_def)
  next
    case RETX_SUPPRESS
    then show ?thesis using d c int st
      by (auto simp: retx_send_def retx_state_def hasPendingOutRecords_def)
  qed
qed

lemma retx_run_backoff:
  assumes rx: "newRetxExponential i0 m0 x0 = Some rx"
  shows "retx_state rx k prev e \<Longrightarrow> sorted (prev # map fst xs) \<Longrightarrow>
    \<exists>e' rs. retx_run rx xs e = Some (e', rs) \<and> length rs = length xs \<and> backoff_ok rx k prev (zip (map fst xs) rs)"
proof (induction xs arbitrary: k prev e)
  case (Cons x xs)
  obtain now f i where x: "x = (now, f, i)" by (cases x)
  have t: "prev \<le> now" "sorted (now # map fst xs)" "sorted (prev # map fst xs)"
    using Cons.prems(2) by (auto simp: x)
  obtain e' r where r: "retx_send rx x e = Some (e', r)" and
    c: "case r of
       RETX_NEW \<Rightarrow> \<not> hasPendingOutRecords now e \<and> retx_state rx k now e'
     | RETX_FORWARD \<Rightarrow> hasPendingOutRecords now e \<and> backoffInterval rx k \<le> now - prev \<and> retx_state rx (Suc k) now e'
     | RETX_SUPPRESS \<Rightarrow> hasPendingOutRecords now e \<and> now - prev < backoffInterval rx k \<and> retx_state rx k prev e'"
    using retx_send_step [OF rx Cons.prems(1) t(1), of f i] x by blast
  show ?case
  proof (cases r)
    case RETX_NEW
    then show ?thesis using Cons.IH [of k now e'] c t r by (auto simp: x)
  next
    case RETX_FORWARD
    then show ?thesis using Cons.IH [of "Suc k" now e'] c t r by (auto simp: x)
  next
    case RETX_SUPPRESS
    then show ?thesis using Cons.IH [of k prev e'] c t r by (auto simp: x)
  qed
qed simp

section \<open>Theorems\<close>

text \<open>
  C34: retransmissions are spaced by exponential back-off. For a PIT entry that has not been
  forwarded yet, whatever Interests arrive later for it, every decision is made. A retransmission
  after \<open>k\<close> forwarded ones is forwarded if, and only if, at least the initial interval times the
  multiplier to the power of \<open>k\<close>, or the maximal interval if that is less, has passed since the
  last sending on any face, and is suppressed otherwise.
\<close>

theorem retx_exponential_backoff:
  assumes "newRetxExponential initialInterval multiplier maxInterval = Some rx"
    and "pe_outRecords e = []" and "pe_info e = []" and "sorted (start # map fst xs)"
  shows "\<exists>e' rs. retx_run rx xs e = Some (e', rs) \<and> length rs = length xs \<and>
    backoff_ok rx 0 start (zip (map fst xs) rs)"
  by (rule retx_run_backoff [OF assms(1) _ assms(4)])
    (simp add: retx_state_def assms(2,3) backoff_0 [OF assms(1)])

definition retxExample :: retxExponential where
  "retxExample = \<lparr>rx_initialInterval = ms 10, rx_multiplier = 2, rx_maxInterval = ms 250\<rparr>"

lemma retxExample_new: "newRetxExponential (ms 10) RX_DEFAULT_MULTIPLIER (ms 250) = Some retxExample"
  by (simp add: newRetxExponential_def retxExample_def RX_DEFAULT_MULTIPLIER_def ms_def)

theorem retx_exponential_backoff_witness:
  "\<exists>e'. retx_run retxExample [(0, 1, exampleInterest []), (ms 9, 2, exampleInterest []), (ms 10, 1, exampleInterest []),
       (ms 29, 2, exampleInterest [])] (newPitEntry 0 (exampleInterest [])) =
     Some (e', [(False, RETX_NEW), (True, RETX_SUPPRESS), (True, RETX_FORWARD), (True, RETX_SUPPRESS)])"
proof -
  let ?xs = "[(0, 1, exampleInterest []), (ms 9, 2, exampleInterest []), (ms 10, 1, exampleInterest []),
       (ms 29, 2, exampleInterest [])]" and ?e = "newPitEntry 0 (exampleInterest [])"
  have "sorted (0 # map fst ?xs)" by (simp add: ms_def)
  from retx_exponential_backoff [OF retxExample_new _ _ this, of ?e] obtain e' rs where
    r: "retx_run retxExample ?xs ?e = Some (e', rs)" "backoff_ok retxExample 0 0 (zip (map fst ?xs) rs)"
    by (auto simp: newPitEntry_def)
  have "map fst rs = [False, True, True, True]"
    using r(1) by (auto simp: retx_send_def decidePerPitEntry_def newPitEntry_def hasPendingOutRecords_def
        insertOrUpdateOutRecord_def newOutRecord_def face_record_update_def getLastOutgoing_def maxElement_def
        retx_pitInfo_def insertStrategyInfo_def retxExample_def exampleInterest_def ms_def MAX_LIFETIME_def
        setStrategyInfo_def TIME_MIN_def retx_nextInterval_def split: bind_splits if_splits)
  then have "rs = [(False, RETX_NEW), (True, RETX_SUPPRESS), (True, RETX_FORWARD), (True, RETX_SUPPRESS)]"
    using r(2) by (auto simp: map_eq_Cons_conv backoffInterval_def retxExample_def ms_def split: if_splits)
  then show ?thesis using r(1) by blast
qed

end
