(* ===== verification/FaceTable.thy ===== *)
theory FaceTable
  imports NdnTypes "HOL-Library.Monad_Syntax"
begin

text \<open>
  \<^verbatim>\<open>daemon/fw/face-table.cpp\<close>: the faces by identifier. The state holds the face objects as well,
  because the table writes their identifiers. A result \<open>None\<close> is a failed assertion. The signals
  \<^verbatim>\<open>afterAdd\<close> and \<^verbatim>\<open>beforeRemove\<close> are connected by the forwarder.
\<close>

section \<open>State and operations\<close>

record faceTable =
  ft_objects :: "faceRef \<Rightarrow> face"
  ft_lastFaceId :: faceId
  ft_faces :: "faceId \<rightharpoonup> faceRef"

definition newFaceTable :: "(faceRef \<Rightarrow> face) \<Rightarrow> faceTable" where
  "newFaceTable F = \<lparr>ft_objects = F, ft_lastFaceId = FACEID_RESERVED_MAX, ft_faces = Map.empty\<rparr>"

definition ft_get :: "faceId \<Rightarrow> faceTable \<Rightarrow> faceRef option" where
  "ft_get i t = ft_faces t i"

definition face_setId :: "faceRef \<Rightarrow> faceId \<Rightarrow> faceTable \<Rightarrow> faceTable" where
  "face_setId f i t = t\<lparr>ft_objects := (ft_objects t)(f := (ft_objects t f)\<lparr>f_id := i\<rparr>)\<rparr>"

definition ft_addImpl :: "faceRef \<Rightarrow> faceId \<Rightarrow> faceTable \<Rightarrow> faceTable option" where
  "ft_addImpl f faceId t =
     (let t' = face_setId f faceId t
      in if ft_faces t' faceId \<noteq> None then None
         else Some (t'\<lparr>ft_faces := (ft_faces t')(faceId \<mapsto> f)\<rparr>))"

definition ft_add :: "faceRef \<Rightarrow> faceTable \<Rightarrow> faceTable option" where
  "ft_add f t =
     (let i = f_id (ft_objects t f) in
      if i \<noteq> INVALID_FACEID \<and> ft_faces t i \<noteq> None then Some t
      else let faceId = Suc (ft_lastFaceId t); t' = t\<lparr>ft_lastFaceId := faceId\<rparr>
           in if FACEID_RESERVED_MAX < faceId then ft_addImpl f faceId t' else None)"

definition ft_addReserved :: "faceRef \<Rightarrow> faceId \<Rightarrow> faceTable \<Rightarrow> faceTable option" where
  "ft_addReserved f faceId t =
     (if f_id (ft_objects t f) = INVALID_FACEID \<and> faceId \<le> FACEID_RESERVED_MAX
      then ft_addImpl f faceId t else None)"

text \<open>\<^verbatim>\<open>beforeRemove\<close> is emitted where the first component of the result is the face.\<close>

definition ft_remove :: "faceId \<Rightarrow> faceTable \<Rightarrow> (faceRef \<times> faceTable) option" where
  "ft_remove faceId t = do {
     f \<leftarrow> ft_faces t faceId;
     Some (f, face_setId f INVALID_FACEID (t\<lparr>ft_faces := (ft_faces t)(faceId := None)\<rparr>)) }"

section \<open>The invariant\<close>

text \<open>
  A face has an identifier exactly while it is in the table, under that identifier; no
  identifier above the last one assigned is in use.
\<close>

definition ft_inv :: "faceTable \<Rightarrow> bool" where
  "ft_inv t \<longleftrightarrow> FACEID_RESERVED_MAX \<le> ft_lastFaceId t \<and> ft_faces t INVALID_FACEID = None \<and>
     (\<forall>i f. ft_faces t i = Some f \<longrightarrow> f_id (ft_objects t f) = i \<and> i \<le> ft_lastFaceId t) \<and>
     (\<forall>f. f_id (ft_objects t f) \<noteq> INVALID_FACEID \<longrightarrow> ft_faces t (f_id (ft_objects t f)) = Some f)"

lemma face_setId_sel [simp]:
  "f_id (ft_objects (face_setId f i t) g) = (if g = f then i else f_id (ft_objects t g))"
  "f_scope (ft_objects (face_setId f i t) g) = f_scope (ft_objects t g)"
  "f_linkType (ft_objects (face_setId f i t) g) = f_linkType (ft_objects t g)"
  "ft_lastFaceId (face_setId f i t) = ft_lastFaceId t" "ft_faces (face_setId f i t) = ft_faces t"
  by (simp_all add: face_setId_def)

lemma ft_inv_new: "(\<And>f. f_id (F f) = INVALID_FACEID) \<Longrightarrow> ft_inv (newFaceTable F)"
  by (simp add: ft_inv_def newFaceTable_def)

lemma ft_addImpl_inv:
  assumes "ft_inv t" and "f_id (ft_objects t f) = INVALID_FACEID" and "i \<noteq> INVALID_FACEID"
    and "ft_faces t i = None" and "i \<le> ft_lastFaceId t"
  shows "\<exists>t'. ft_addImpl f i t = Some t' \<and> ft_inv t' \<and> ft_lastFaceId t' = ft_lastFaceId t \<and>
    ft_faces t' = (ft_faces t)(i \<mapsto> f)"
  using assms by (auto simp: ft_addImpl_def ft_inv_def Let_def)

lemma ft_add_inv:
  assumes "ft_inv t"
  shows "\<exists>t'. ft_add f t = Some t' \<and> ft_inv t' \<and>
    (if f_id (ft_objects t f) \<noteq> INVALID_FACEID then t' = t
     else ft_lastFaceId t' = Suc (ft_lastFaceId t) \<and> ft_faces t' = (ft_faces t)(Suc (ft_lastFaceId t) \<mapsto> f))"
proof (cases "f_id (ft_objects t f) = INVALID_FACEID")
  case True
  let ?t = "t\<lparr>ft_lastFaceId := Suc (ft_lastFaceId t)\<rparr>"
  have "ft_inv ?t" using assms by (fastforce simp: ft_inv_def)
  moreover have "ft_faces t (Suc (ft_lastFaceId t)) = None"
    using assms unfolding ft_inv_def by (metis Suc_n_not_le_n option.exhaust)
  ultimately show ?thesis
    using True assms ft_addImpl_inv [of ?t f "Suc (ft_lastFaceId t)"]
    by (auto simp: ft_add_def Let_def ft_inv_def INVALID_FACEID_def)
next
  case False
  then show ?thesis using assms by (auto simp: ft_add_def ft_inv_def)
qed

lemma ft_remove_inv:
  assumes "ft_inv t" and "ft_faces t i = Some f"
  shows "\<exists>t'. ft_remove i t = Some (f, t') \<and> ft_inv t' \<and> ft_lastFaceId t' = ft_lastFaceId t \<and>
    ft_faces t' = (ft_faces t)(i := None)"
  using assms by (auto simp: ft_remove_def ft_inv_def INVALID_FACEID_def) metis

section \<open>Runs\<close>

datatype ft_event = FtAdd faceRef | FtAddReserved faceRef faceId | FtClose faceId

text \<open>Closing a face that is not in the table does nothing: no signal is connected any more.\<close>

fun ft_step :: "ft_event \<Rightarrow> faceTable \<Rightarrow> faceTable option" where
  "ft_step (FtAdd f) t = ft_add f t"
| "ft_step (FtAddReserved f i) t = ft_addReserved f i t"
| "ft_step (FtClose i) t = (if ft_faces t i = None then Some t else map_option snd (ft_remove i t))"

text \<open>The run records the faces that are given an identifier, with the identifier.\<close>

fun ft_run :: "ft_event list \<Rightarrow> faceTable \<Rightarrow> (faceTable \<times> (faceId \<times> faceRef) list) option" where
  "ft_run [] t = Some (t, [])"
| "ft_run (x # xs) t = do {
     t1 \<leftarrow> ft_step x t;
     (t2, h) \<leftarrow> ft_run xs t1;
     Some (t2, (if ft_lastFaceId t1 \<noteq> ft_lastFaceId t
                then [(ft_lastFaceId t1, the (ft_faces t1 (ft_lastFaceId t1)))] else []) @ h) }"

text \<open>A reserved identifier is given once, to a face that has none.\<close>

fun reservedOk :: "ft_event list \<Rightarrow> faceTable \<Rightarrow> bool" where
  "reservedOk [] t = True"
| "reservedOk (x # xs) t =
     ((case x of FtAddReserved f i \<Rightarrow> f_id (ft_objects t f) = INVALID_FACEID \<and> i \<noteq> INVALID_FACEID \<and>
                    i \<le> FACEID_RESERVED_MAX \<and> ft_faces t i = None
       | _ \<Rightarrow> True) \<and> (case ft_step x t of None \<Rightarrow> True | Some t' \<Rightarrow> reservedOk xs t'))"

lemma ft_step_inv:
  assumes "ft_inv t" and "reservedOk (x # xs) t"
  shows "\<exists>t'. ft_step x t = Some t' \<and> ft_inv t' \<and> reservedOk xs t' \<and>
    (ft_lastFaceId t' = ft_lastFaceId t \<or>
     (ft_lastFaceId t' = Suc (ft_lastFaceId t) \<and> (\<exists>f. ft_faces t' (ft_lastFaceId t') = Some f)))"
proof (cases x)
  case (FtAdd f)
  then show ?thesis using assms ft_add_inv [OF assms(1), of f] by (auto split: if_splits)
next
  case (FtAddReserved f i)
  have "FACEID_RESERVED_MAX \<le> ft_lastFaceId t" using assms by (simp add: ft_inv_def)
  then show ?thesis using assms FtAddReserved ft_addImpl_inv [OF assms(1), of f i]
    by (auto simp: ft_addReserved_def)
next
  case (FtClose i)
  then show ?thesis using assms ft_remove_inv [OF assms(1), of i] by (cases "ft_faces t i") auto
qed

lemma ft_run_inv:
  "ft_inv t \<Longrightarrow> reservedOk xs t \<Longrightarrow>
   \<exists>t' h. ft_run xs t = Some (t', h) \<and> ft_inv t' \<and> sorted_wrt (<) (ft_lastFaceId t # map fst h)"
proof (induction xs arbitrary: t)
  case (Cons x xs)
  obtain t1 where t1: "ft_step x t = Some t1" "ft_inv t1" "reservedOk xs t1"
    "ft_lastFaceId t1 = ft_lastFaceId t \<or> ft_lastFaceId t1 = Suc (ft_lastFaceId t)"
    using ft_step_inv [OF Cons.prems] by blast
  obtain t' h where "ft_run xs t1 = Some (t', h)" "ft_inv t'" "sorted_wrt (<) (ft_lastFaceId t1 # map fst h)"
    using Cons.IH [OF t1(2,3)] by blast
  then show ?case using t1 by (auto intro: order.strict_trans [OF lessI])
qed simp

section \<open>Theorems\<close>



end
