(* ===== verification/Cleanup.thy ===== *)
theory Cleanup
  imports Fib Pit
begin

text \<open>
  \<^verbatim>\<open>daemon/table/cleanup.cpp\<close>: what happens to the tables when a face is removed, and
  \<^verbatim>\<open>daemon/table/network-region-table.cpp\<close>.
\<close>

definition isInProducerRegion :: "name list \<Rightarrow> name list \<Rightarrow> bool" where
  "isInProducerRegion regions forwardingHint \<longleftrightarrow>
     list_ex (\<lambda>regionName. list_ex (\<lambda>delegation. prefix delegation regionName) forwardingHint) regions"

text \<open>The body of the enumeration loop: FIB, PIT, and the note that the entry may be empty.\<close>

definition deleteRecordsAt :: "faceRef \<Rightarrow> name \<Rightarrow> nameTree \<Rightarrow> nameTree" where
  "deleteRecordsAt f n nt =
     fold (\<lambda>e. pit_deleteInOutRecords f (n, pe_id e)) (nt_pits n nt) nt"

definition cleanupEntry :: "faceRef \<Rightarrow> name \<Rightarrow> fib \<times> name list \<Rightarrow> fib \<times> name list" where
  "cleanupEntry f n = (\<lambda>((nt, k), maybeEmpty).
     let (nt1, k1) = (if nt_fib n nt \<noteq> None then fst (fib_removeNextHop n f (nt, k)) else (nt, k));
         nt2 = deleteRecordsAt f n nt1;
         hasTables = (case nt_get n nt2 of None \<Rightarrow> True | Some e \<Rightarrow> hasTableEntries e)
     in ((nt2, k1), if hasTables then maybeEmpty else maybeEmpty @ [n]))"

text \<open>
  \<^verbatim>\<open>maybeEmptyNtes\<close> is a multimap keyed by the length of the name, read backwards; entries of
  equal length keep their order of insertion in it.
\<close>

definition eraseEmptyEntries :: "name list \<Rightarrow> nameTree \<Rightarrow> nameTree" where
  "eraseEmptyEntries maybeEmpty nt =
     fold (\<lambda>n nt. fst (eraseIfEmpty n False nt)) (rev (sort_key length maybeEmpty)) nt"

definition cleanupOnFaceRemoval :: "faceRef \<Rightarrow> fib \<Rightarrow> fib" where
  "cleanupOnFaceRemoval f s =
     (let ((nt, k), maybeEmpty) = fold (cleanupEntry f) (map fst (fst s)) (s, [])
      in (eraseEmptyEntries maybeEmpty nt, k))"

section \<open>The enumeration pass\<close>

definition withoutFace :: "faceRef \<Rightarrow> pit_entry \<Rightarrow> pit_entry" where
  "withoutFace f e = deleteOutRecord f (deleteInRecord f e)"

lemma fold_updateFirst_ids:
  assumes g: "\<And>x. pe_id (g x) = pe_id x"
  shows "distinct (map pe_id (ys @ xs)) \<Longrightarrow>
    fold (\<lambda>e. updateFirst (\<lambda>p. pe_id p = pe_id e) g) xs (map g ys @ xs) = map g (ys @ xs)"
proof (induction xs arbitrary: ys)
  case (Cons x xs)
  have "updateFirst (\<lambda>p. pe_id p = pe_id x) g (map g ys @ x # xs) = map g (ys @ [x]) @ xs"
    using Cons.prems g by (induction ys) auto
  then show ?case using Cons.IH [of "ys @ [x]"] Cons.prems by simp
qed simp

lemma nt_pits_fold_delete:
  "nt_pits m (fold (\<lambda>e. pit_deleteInOutRecords f (n, pe_id e)) ps nt) =
     (if m = n then fold (\<lambda>e. updateFirst (\<lambda>p. pe_id p = pe_id e) (withoutFace f)) ps (nt_pits n nt)
      else nt_pits m nt)"
  by (induction ps arbitrary: nt) (auto simp: pit_deleteInOutRecords_def withoutFace_def [abs_def])

lemma deleteRecordsAt_views:
  "nt_fib m (deleteRecordsAt f n nt) = nt_fib m nt"
  "nt_meas m (deleteRecordsAt f n nt) = nt_meas m nt"
  "nt_sc m (deleteRecordsAt f n nt) = nt_sc m nt"
  "nt_get m (deleteRecordsAt f n nt) = None \<longleftrightarrow> nt_get m nt = None"
proof -
  have "nt_fib m (fold (\<lambda>e. pit_deleteInOutRecords f (n, pe_id e)) ps nt) = nt_fib m nt \<and>
    nt_meas m (fold (\<lambda>e. pit_deleteInOutRecords f (n, pe_id e)) ps nt) = nt_meas m nt \<and>
    nt_sc m (fold (\<lambda>e. pit_deleteInOutRecords f (n, pe_id e)) ps nt) = nt_sc m nt \<and>
    (nt_get m (fold (\<lambda>e. pit_deleteInOutRecords f (n, pe_id e)) ps nt) = None \<longleftrightarrow> nt_get m nt = None)" for ps :: "pit_entry list"
    by (induction ps arbitrary: nt) (simp_all add: pit_deleteInOutRecords_def)
  then show "nt_fib m (deleteRecordsAt f n nt) = nt_fib m nt"
    "nt_meas m (deleteRecordsAt f n nt) = nt_meas m nt"
    "nt_sc m (deleteRecordsAt f n nt) = nt_sc m nt"
    "nt_get m (deleteRecordsAt f n nt) = None \<longleftrightarrow> nt_get m nt = None"
    by (simp_all add: deleteRecordsAt_def)
qed

lemma pit_inv_delete:
  assumes "pit_inv L (nt, k, a)"
  shows "pit_inv L (pit_deleteInOutRecords f r nt, k, a)"
  unfolding pit_deleteInOutRecords_def
  by (rule pit_modify_spec [OF assms]) (simp_all add: nfd_inv)

lemma deleteRecordsAt_spec:
  assumes "pit_inv L (nt, k, a)"
  shows "pit_inv L (deleteRecordsAt f n nt, k, a)"
    and "nt_pits m (deleteRecordsAt f n nt) =
      (if m = n then map (withoutFace f) (nt_pits n nt) else nt_pits m nt)"
proof -
  have "pit_inv L (nt, k, a) \<Longrightarrow>
      pit_inv L (fold (\<lambda>e. pit_deleteInOutRecords f (n, pe_id e)) ps nt, k, a)" for ps :: "pit_entry list" and nt
    by (induction ps arbitrary: nt) (simp_all add: pit_inv_delete)
  then show "pit_inv L (deleteRecordsAt f n nt, k, a)"
    using assms by (simp add: deleteRecordsAt_def)
  have "distinct (map pe_id (nt_pits n nt))"
    using assms by (simp add: pit_inv_def pit_wf_def pits_ok_def)
  then show "nt_pits m (deleteRecordsAt f n nt) =
      (if m = n then map (withoutFace f) (nt_pits n nt) else nt_pits m nt)"
    using fold_updateFirst_ids [of "withoutFace f" "[]" "nt_pits n nt"]
    by (simp add: deleteRecordsAt_def nt_pits_fold_delete withoutFace_def)
qed

lemma fib_removeNextHop_views:
  "nt_pits m (fst (fst (fib_removeNextHop n f (nt, k)))) = nt_pits m nt"
  "nt_meas m (fst (fst (fib_removeNextHop n f (nt, k)))) = nt_meas m nt"
  "nt_sc m (fst (fst (fib_removeNextHop n f (nt, k)))) = nt_sc m nt"
  "nt_get m (fst (fst (fib_removeNextHop n f (nt, k)))) = None \<longleftrightarrow> nt_get m nt = None"
  by (auto simp: fib_removeNextHop_def fib_eraseNte_def Let_def split_def split: option.split)

text \<open>The joint invariant of the two tables; the PIT's counter and address do not change.\<close>

definition tables_inv :: "ndn_lib \<Rightarrow> 64 word \<Rightarrow> nat \<Rightarrow> fib \<Rightarrow> bool" where
  "tables_inv L k a s \<longleftrightarrow> fib_inv s \<and> pit_inv L (fst s, k, a)"

lemma pit_inv_views:
  assumes "pit_inv L (nt, k, a)" and "nt_inv nt'" and "\<And>m. nt_pits m nt' = nt_pits m nt"
  shows "pit_inv L (nt', k, a)"
  using assms by (simp add: pit_inv_def pit_wf_def pitCount_def)

lemma fib_inv_views:
  assumes "fib_inv (nt, k)" and "nt_inv nt'" and "\<And>m. nt_fib m nt' = nt_fib m nt"
  shows "fib_inv (nt', k)"
  using assms by (simp add: fib_inv_def fib_wf_def)

definition routesWithout :: "faceRef \<Rightarrow> (faceRef \<rightharpoonup> nat) option \<Rightarrow> (faceRef \<rightharpoonup> nat) option" where
  "routesWithout f r = Option.bind r (withoutRoute f)"

lemma cleanupEntry_spec:
  assumes inv: "tables_inv L kp a (nt, k)"
    and r: "cleanupEntry f n ((nt, k), me) = ((nt', k'), me')"
  shows "tables_inv L kp a (nt', k')"
    and "fib_routes nt' m = (if m = n then routesWithout f (fib_routes nt n) else fib_routes nt m)"
    and "nt_pits m nt' = (if m = n then map (withoutFace f) (nt_pits n nt) else nt_pits m nt)"
    and "nt_meas m nt' = nt_meas m nt" and "nt_sc m nt' = nt_sc m nt"
    and "nt_get m nt' = None \<longleftrightarrow> nt_get m nt = None"
    and "me' = me @ (if nt_get n nt' \<noteq> None \<and> \<not> hasTableEntries (the (nt_get n nt')) then [n] else [])"
proof -
  let ?s1 = "if nt_fib n nt \<noteq> None then fst (fib_removeNextHop n f (nt, k)) else (nt, k)"
  obtain nt1 k1 where s1: "?s1 = (nt1, k1)" by (cases ?s1) auto
  have nt': "nt' = deleteRecordsAt f n nt1" and k': "k' = k1"
    and me': "me' = me @ (if nt_get n nt' \<noteq> None \<and> \<not> hasTableEntries (the (nt_get n nt')) then [n] else [])"
    using r s1 by (auto simp: cleanupEntry_def Let_def split: option.splits if_splits)
  have fi: "fib_inv (nt, k)" and pi: "pit_inv L (nt, kp, a)" using inv by (simp_all add: tables_inv_def)
  have f1: "fib_inv (nt1, k1)"
    using fib_removeNextHop_facts(1) [OF fi, of n f] fi s1 by (auto split: if_splits)
  then have n1: "nt_inv nt1" by (simp add: fib_inv_def)
  have v1: "nt_pits q nt1 = nt_pits q nt" "nt_meas q nt1 = nt_meas q nt" "nt_sc q nt1 = nt_sc q nt"
    "nt_get q nt1 = None \<longleftrightarrow> nt_get q nt = None" for q
    using s1 fib_removeNextHop_views [of q n f nt k] by (auto split: if_splits)
  have r1: "fib_routes nt1 q = (if q = n then routesWithout f (fib_routes nt n) else fib_routes nt q)" for q
  proof (cases "nt_fib n nt")
    case None
    then have "nt1 = nt" "fib_routes nt n = None" using s1 by (simp_all add: fib_routes_def)
    then show ?thesis by (auto simp: routesWithout_def)
  next
    case (Some e)
    then have "fst (fst (fib_removeNextHop n f (nt, k))) = nt1" using s1 by simp
    then show ?thesis using fib_removeNextHop_facts(2) [OF fi, of n f] by (simp add: routesWithout_def)
  qed
  have p1: "pit_inv L (nt1, kp, a)" by (rule pit_inv_views [OF pi n1 v1(1)])
  note d = deleteRecordsAt_spec [OF p1, where f = f and n = n] deleteRecordsAt_views [where f = f and n = n and nt = nt1]
  have "nt_inv nt'" using d(1) by (simp add: nt' pit_inv_def)
  then have "fib_inv (nt', k')" using fib_inv_views [OF f1] d(3) by (simp add: nt' k')
  then show "tables_inv L kp a (nt', k')" using d(1) by (simp add: tables_inv_def nt')
  show "fib_routes nt' m = (if m = n then routesWithout f (fib_routes nt n) else fib_routes nt m)"
    using r1 d(3) by (simp add: fib_routes_def nt')
  show "nt_pits m nt' = (if m = n then map (withoutFace f) (nt_pits n nt) else nt_pits m nt)"
    "nt_meas m nt' = nt_meas m nt" "nt_sc m nt' = nt_sc m nt" "nt_get m nt' = None \<longleftrightarrow> nt_get m nt = None"
    using d v1 by (simp_all add: nt')
  show "me' = me @ (if nt_get n nt' \<noteq> None \<and> \<not> hasTableEntries (the (nt_get n nt')) then [n] else [])"
    by (fact me')
qed

lemma hasTableEntries_views:
  "nt_get n nt = Some e \<Longrightarrow> hasTableEntries e \<longleftrightarrow>
     nt_fib n nt \<noteq> None \<or> nt_pits n nt \<noteq> [] \<or> nt_meas n nt \<noteq> None \<or> nt_sc n nt \<noteq> None"
  by (simp add: hasTableEntries_def nt_views)

lemma hasTables_cong:
  assumes "fib_routes nt' n = fib_routes nt n" "nt_pits n nt' = nt_pits n nt" "nt_meas n nt' = nt_meas n nt"
    "nt_sc n nt' = nt_sc n nt" "nt_get n nt = Some e" "nt_get n nt' = Some e'"
  shows "hasTableEntries e' \<longleftrightarrow> hasTableEntries e"
proof -
  have "nt_fib n nt' = None \<longleftrightarrow> nt_fib n nt = None" using assms(1) by (metis fib_routes_def map_option_is_None)
  then show ?thesis
    using assms unfolding hasTableEntries_views [OF assms(5)] hasTableEntries_views [OF assms(6)] by simp
qed

definition withoutTables :: "nameTree \<Rightarrow> name \<Rightarrow> bool" where
  "withoutTables nt n \<longleftrightarrow> (case nt_get n nt of None \<Rightarrow> False | Some e \<Rightarrow> \<not> hasTableEntries e)"

text \<open>What a pass over the names of \<open>S\<close> does at a name.\<close>

definition cleanedAt :: "faceRef \<Rightarrow> name set \<Rightarrow> nameTree \<Rightarrow> nameTree \<Rightarrow> name \<Rightarrow> bool" where
  "cleanedAt f S nt nt' m \<longleftrightarrow>
     fib_routes nt' m = (if m \<in> S then routesWithout f (fib_routes nt m) else fib_routes nt m) \<and>
     nt_pits m nt' = (if m \<in> S then map (withoutFace f) (nt_pits m nt) else nt_pits m nt) \<and>
     nt_meas m nt' = nt_meas m nt \<and> nt_sc m nt' = nt_sc m nt \<and>
     (nt_get m nt' = None \<longleftrightarrow> nt_get m nt = None)"

lemma cleanedAt_empty [simp]: "cleanedAt f {} nt nt = (\<lambda>m. True)"
  by (simp add: cleanedAt_def fun_eq_iff)

lemma cleanedAt_trans:
  assumes "cleanedAt f S nt nt1 m" "cleanedAt f T nt1 nt2 m" "S \<inter> T = {}"
  shows "cleanedAt f (S \<union> T) nt nt2 m"
proof -
  from assms(3) have "m \<notin> S \<or> m \<notin> T" by auto
  then show ?thesis using assms(1,2) by (auto simp: cleanedAt_def)
qed

lemma withoutTables_cong:
  assumes "cleanedAt f S nt nt' n" "n \<notin> S"
  shows "withoutTables nt' n = withoutTables nt n"
proof (cases "nt_get n nt")
  case None
  then show ?thesis using assms by (simp add: withoutTables_def cleanedAt_def)
next
  case (Some e)
  moreover obtain e' where "nt_get n nt' = Some e'"
    using assms(1) Some by (cases "nt_get n nt'") (simp_all add: cleanedAt_def)
  moreover have "fib_routes nt' n = fib_routes nt n" "nt_pits n nt' = nt_pits n nt"
    "nt_meas n nt' = nt_meas n nt" "nt_sc n nt' = nt_sc n nt"
    using assms unfolding cleanedAt_def by presburger+
  ultimately have "hasTableEntries e' \<longleftrightarrow> hasTableEntries e" by (rule hasTables_cong [rotated 4])
  then show ?thesis using Some \<open>nt_get n nt' = Some e'\<close> by (simp add: withoutTables_def)
qed

lemma cleanupPass_spec:
  "tables_inv L kp a (nt, k) \<Longrightarrow> distinct ns \<Longrightarrow>
   fold (cleanupEntry f) ns ((nt, k), me) = ((nt', k'), me') \<Longrightarrow>
   tables_inv L kp a (nt', k') \<and> (\<forall>m. cleanedAt f (set ns) nt nt' m) \<and>
   me' = me @ filter (withoutTables nt') ns"
proof (induction ns arbitrary: nt k me)
  case (Cons n ns)
  obtain nt1 k1 me1 where s: "cleanupEntry f n ((nt, k), me) = ((nt1, k1), me1)" by (metis prod.exhaust)
  note c = cleanupEntry_spec [OF Cons.prems(1) s]
  have n: "n \<notin> set ns" and d: "distinct ns" using Cons.prems(2) by auto
  have rest: "fold (cleanupEntry f) ns ((nt1, k1), me1) = ((nt', k'), me')"
    using Cons.prems(3) s by simp
  note ih = Cons.IH [OF c(1) d rest]
  have "cleanedAt f {n} nt nt1 m" for m
    using c(2-6) [of m] by (simp add: cleanedAt_def)
  then have all: "cleanedAt f (set (n # ns)) nt nt' m" for m
    using cleanedAt_trans [of f "{n}" nt nt1 m "set ns" nt'] ih n by simp
  have "withoutTables nt' n = withoutTables nt1 n"
    by (rule withoutTables_cong [where f = f and S = "set ns"]) (use ih n in simp_all)
  also have "\<dots> \<longleftrightarrow> nt_get n nt1 \<noteq> None \<and> \<not> hasTableEntries (the (nt_get n nt1))"
    by (simp add: withoutTables_def split: option.split)
  finally have "me' = me @ filter (withoutTables nt') (n # ns)" using ih c(7) by simp
  then show ?case using ih all by simp
qed simp

section \<open>The erasing pass\<close>

lemma eraseIfEmpty_leaf:
  fixes n :: name and nt :: nameTree
  assumes inv: "nt_inv nt"
  defines "nt' \<equiv> fst (eraseIfEmpty n False nt)"
  shows "length n \<le> length m \<Longrightarrow> m \<noteq> n \<Longrightarrow> nt_get m nt' = nt_get m nt"
    and "nt_get n nt' = Some e \<Longrightarrow> \<not> nte_isEmpty e"
proof -
  have r: "nt' = (case nt_get n nt of None \<Rightarrow> nt | Some e \<Rightarrow> if nte_isEmpty e then unlink n e nt else nt)"
    by (simp add: nt'_def eraseIfEmpty.simps [of n] unlink_def Let_def split: option.split)
  show "nt_get m nt' = nt_get m nt" if "length n \<le> length m" "m \<noteq> n"
  proof -
    have "\<not> (n \<noteq> [] \<and> m = butlast n)" using that(1) by (cases n rule: rev_cases) auto
    then show ?thesis using nt_get_unlink [OF inv] that(2) by (auto simp: r split: option.split)
  qed
  show "nt_get n nt' = Some e \<Longrightarrow> \<not> nte_isEmpty e"
    using nt_get_unlink [OF inv] by (auto simp: r split: option.splits if_splits)
qed

lemma erase_longest_first:
  assumes "nt_inv nt" and "sorted_wrt (\<lambda>x y. length y \<le> length x) ns"
    and "\<And>b e. b \<in> B \<Longrightarrow> nt_get b nt = Some e \<Longrightarrow> \<not> nte_isEmpty e"
    and "\<And>b n. b \<in> B \<Longrightarrow> n \<in> set ns \<Longrightarrow> length n \<le> length b"
  shows "let nt' = fold (\<lambda>n nt. fst (eraseIfEmpty n False nt)) ns nt in
    nt_inv nt' \<and> sameTables nt nt' \<and> (\<forall>m. nt_get m nt' \<noteq> None \<longrightarrow> nt_get m nt \<noteq> None) \<and>
    (\<forall>b e. b \<in> B \<union> set ns \<longrightarrow> nt_get b nt' = Some e \<longrightarrow> \<not> nte_isEmpty e)"
  using assms
proof (induction ns arbitrary: nt B)
  case (Cons n ns)
  let ?nt = "fst (eraseIfEmpty n False nt)"
  note f = eraseIfEmpty_facts(1-4) [OF Cons.prems(1), where n = n and anc = False]
  note leaf = eraseIfEmpty_leaf [OF Cons.prems(1), where n = n]
  have B: "\<not> nte_isEmpty e" if "b \<in> insert n B" "nt_get b ?nt = Some e" for b e
  proof (cases "b = n")
    case True
    then show ?thesis using leaf(2) that(2) by simp
  next
    case False
    then have "b \<in> B" using that(1) by simp
    then have "nt_get b nt = Some e"
      using leaf(1) [of b] that(2) False Cons.prems(4) [of b n] by simp
    then show ?thesis using Cons.prems(3) \<open>b \<in> B\<close> by blast
  qed
  have len: "length m \<le> length b" if "b \<in> insert n B" "m \<in> set ns" for b m
    using that Cons.prems(2) Cons.prems(4) [of b m] by auto
  have sorted: "sorted_wrt (\<lambda>x y. length y \<le> length x) ns" using Cons.prems(2) by simp
  define nt' where "nt' = fold (\<lambda>n nt. fst (eraseIfEmpty n False nt)) ns ?nt"
  have ih: "nt_inv nt' \<and> sameTables ?nt nt' \<and> (\<forall>m. nt_get m nt' \<noteq> None \<longrightarrow> nt_get m ?nt \<noteq> None) \<and>
    (\<forall>b e. b \<in> insert n B \<union> set ns \<longrightarrow> nt_get b nt' = Some e \<longrightarrow> \<not> nte_isEmpty e)"
    unfolding nt'_def by (rule Cons.IH [unfolded Let_def, OF f(1) sorted]) (erule (1) B len)+
  have em: "\<not> nte_isEmpty e" if "b \<in> B \<union> set (n # ns)" "nt_get b nt' = Some e" for b e
    using ih that by auto
  have pr: "nt_get m nt \<noteq> None" if "nt_get m nt' \<noteq> None" for m
    using ih that f(4) [of m] by blast
  have st: "sameTables nt nt'" using sameTables_trans [OF f(2)] ih by blast
  have ok: "nt_inv nt'" using ih by blast
  show ?case
    unfolding Let_def fold_simps(2) nt'_def [symmetric]
    using ok st pr em by blast
qed (simp add: Let_def)

lemma eraseEmptyEntries_spec:
  assumes inv: "nt_inv nt" and all: "\<And>n. withoutTables nt n \<Longrightarrow> n \<in> set ns"
  shows "nt_inv (eraseEmptyEntries ns nt)" "sameTables nt (eraseEmptyEntries ns nt)"
    "nt_trimmed (eraseEmptyEntries ns nt)"
proof -
  let ?nt = "eraseEmptyEntries ns nt"
  have "sorted_wrt (\<lambda>x y. length y \<le> length x) (rev (sort_key length ns))"
    using sorted_sort_key [of length ns] unfolding sorted_wrt_rev sorted_map .
  note e = erase_longest_first [OF inv this, of "{}"]
  then have e: "nt_inv ?nt" "sameTables nt ?nt" "\<And>m. nt_get m ?nt \<noteq> None \<Longrightarrow> nt_get m nt \<noteq> None"
    "\<And>b e. b \<in> set ns \<Longrightarrow> nt_get b ?nt = Some e \<Longrightarrow> \<not> nte_isEmpty e"
    by (simp_all add: Let_def eraseEmptyEntries_def)
  show "nt_inv ?nt" "sameTables nt ?nt" using e by auto
  have "\<not> nte_isEmpty e'" if g: "nt_get n ?nt = Some e'" for n e'
  proof (cases "n \<in> set ns")
    case True
    then show ?thesis using e(4) g by blast
  next
    case False
    obtain e0 where e0: "nt_get n nt = Some e0" using e(3) [of n] g by auto
    then have "hasTableEntries e0" using all [of n] False by (auto simp: withoutTables_def)
    then have "hasTableEntries e'"
      using e(2) unfolding hasTableEntries_views [OF e0] hasTableEntries_views [OF g] sameTables_def by simp
    then show ?thesis by (simp add: nte_isEmpty_def)
  qed
  then show "nt_trimmed ?nt" using nt_trimmed_iff [OF e(1)] by blast
qed

lemma absent_views:
  "n \<notin> set (map fst nt) \<Longrightarrow> fib_routes nt n = None \<and> nt_pits n nt = []"
  by (simp add: fib_routes_def nt_views nt_get_def map_of_eq_None_iff [THEN iffD2])

lemma cleanupOnFaceRemoval_spec:
  fixes f :: faceRef and s :: fib
  assumes inv: "tables_inv L kp a s"
  defines "s' \<equiv> cleanupOnFaceRemoval f s"
  shows "tables_inv L kp a s'" and "nt_trimmed (fst s')"
    and "fib_routes (fst s') m = routesWithout f (fib_routes (fst s) m)"
    and "nt_pits m (fst s') = map (withoutFace f) (nt_pits m (fst s))"
    and "nt_meas m (fst s') = nt_meas m (fst s)" and "nt_sc m (fst s') = nt_sc m (fst s)"
proof -
  obtain nt k where s: "s = (nt, k)" by (cases s)
  obtain nt1 k1 me where pass: "fold (cleanupEntry f) (map fst nt) ((nt, k), []) = ((nt1, k1), me)"
    by (metis prod.exhaust)
  have "distinct (map fst nt)" using inv by (simp add: s tables_inv_def fib_inv_def nt_inv_def)
  note p = cleanupPass_spec [OF inv [unfolded s] this pass]
  have s': "s' = (eraseEmptyEntries me nt1, k1)"
    using pass unfolding s'_def s cleanupOnFaceRemoval_def fst_conv by simp
  have c: "cleanedAt f (set (map fst nt)) nt nt1 m" for m using p by blast
  have inv1: "fib_inv (nt1, k1)" "pit_inv L (nt1, kp, a)" using p by (simp_all add: tables_inv_def)
  have all: "n \<in> set me" if "withoutTables nt1 n" for n
  proof -
    have "nt_get n nt \<noteq> None" using that c [of n] by (auto simp: withoutTables_def cleanedAt_def split: option.splits)
    then have "n \<in> set (map fst nt)" unfolding nt_get_def map_of_eq_None_iff by simp
    then show ?thesis using p that by simp
  qed
  have "nt_inv nt1" using inv1(1) by (simp add: fib_inv_def)
  note e = eraseEmptyEntries_spec [OF this, of me, OF all]
  have t: "nt_fib m (fst s') = nt_fib m nt1" "nt_pits m (fst s') = nt_pits m nt1"
    "nt_meas m (fst s') = nt_meas m nt1" "nt_sc m (fst s') = nt_sc m nt1" for m
    using e(2) by (simp_all add: s' sameTables_def)
  show "tables_inv L kp a s'"
    using fib_inv_views [OF inv1(1) e(1)] pit_inv_views [OF inv1(2) e(1)] e(2)
    by (simp add: s' tables_inv_def sameTables_def)
  show "nt_trimmed (fst s')" using e(3) by (simp add: s')
  show "fib_routes (fst s') m = routesWithout f (fib_routes (fst s) m)"
    "nt_pits m (fst s') = map (withoutFace f) (nt_pits m (fst s))"
    using c [of m] absent_views [of m nt] t [of m]
    by (auto simp: s cleanedAt_def fib_routes_def routesWithout_def)
  show "nt_meas m (fst s') = nt_meas m (fst s)" "nt_sc m (fst s') = nt_sc m (fst s)"
    using c [of m] t [of m] unfolding s cleanedAt_def fst_conv by presburger+
qed

text \<open>
  C23: removing a face from the tables. Afterwards no FIB entry has a next hop over the face
  (an entry left without next hops is gone), no PIT entry has an in-record or out-record of it,
  every other route, record, measurement and strategy choice is as before, the counters of the
  tables still count, and the assertion that ends the function holds: no entry of the name
  tree is empty.
\<close>

theorem face_removal_cleans_tables:
  assumes "tables_inv L kp a s"
  shows "let s' = cleanupOnFaceRemoval f s in
    tables_inv L kp a s' \<and> nt_trimmed (fst s') \<and>
    (\<forall>p. fib_routes (fst s') p = Option.bind (fib_routes (fst s) p) (withoutRoute f)) \<and>
    (\<forall>p. nt_pits p (fst s') = map (withoutFace f) (nt_pits p (fst s))) \<and>
    (\<forall>p. \<forall>e \<in> set (nt_pits p (fst s')). getInRecord f e = None \<and> getOutRecord f e = None) \<and>
    (\<forall>p. nt_meas p (fst s') = nt_meas p (fst s) \<and> nt_sc p (fst s') = nt_sc p (fst s))"
proof -
  note c = cleanupOnFaceRemoval_spec [OF assms, where f = f]
  have pe: "getInRecord f (withoutFace f e) = None \<and> getOutRecord f (withoutFace f e) = None"
    if "e \<in> set (nt_pits p (fst s))" for p e
  proof -
    have "pit_wf L a (fst s)" using assms by (simp add: tables_inv_def pit_inv_def)
    then have i: "pe_inv e" using that by (rule pit_wfD(1))
    then have "getOutRecord f (withoutFace f e) = None"
      by (simp add: withoutFace_def getOutRecord_delete nfd_inv)
    moreover have "getInRecord f (withoutFace f e) = getInRecord f (deleteInRecord f e)"
      by (simp add: withoutFace_def deleteOutRecord_def getInRecord_def)
    ultimately show ?thesis using i by (simp add: getInRecord_delete)
  qed
  show ?thesis
    unfolding Let_def c(4) using c(1,2,3,5,6) pe by (simp add: routesWithout_def)
qed

theorem face_removal_cleans_tables_witness:
  "fib_routes (fst (cleanupOnFaceRemoval 7
      (setFibEntry [compA] (Some \<lparr>fe_prefix = [compA], fe_nextHops = [\<lparr>nh_face = 7, nh_cost = 10\<rparr>]\<rparr>) exampleTree, 1)))
     [compA] = None"
proof -
  let ?e = "\<lparr>fe_prefix = [compA], fe_nextHops = [\<lparr>nh_face = 7, nh_cost = 10\<rparr>]\<rparr>"
  let ?nt = "setFibEntry [compA] (Some ?e) exampleTree"
  have f: "nt_fib p exampleTree = (if p = [compA] then Some (newFibEntry [compA]) else None)" for p
    by (simp add: exampleTree_eq nt_fib_def nt_get_def newNte_def)
  have i: "fib_inv (exampleTree, 1)"
    using exampleTree_inv fe_inv_new by (simp add: fib_inv_def fib_wf_def f newFibEntry_def)
  have e: "nt_fib [compA] exampleTree = Some (newFibEntry [compA])" by (simp add: f)
  note u = fib_update_entry [OF i e, of ?e]
  have fi: "fib_inv (?nt, 1)" by (rule u(1)) (simp_all add: fe_inv_def newFibEntry_def)
  have r: "fib_routes ?nt [compA] = Some [7 \<mapsto> 10]"
    unfolding fib_routes_def by (subst u(2)) (simp_all add: fe_inv_def newFibEntry_def fe_costs_def)
  have "nt_pits p exampleTree = []" for p by (simp add: exampleTree_eq nt_pits_def nt_get_def newNte_def)
  then have "nt_pits p ?nt = []" for p by simp
  then have "pit_inv canonicalLib (?nt, 0, 0)"
    using fi by (simp add: pit_inv_def pit_wf_def pits_ok_def pitCount_def fib_inv_def)
  then have "tables_inv canonicalLib 0 0 (?nt, 1)" using fi by (simp add: tables_inv_def)
  from face_removal_cleans_tables [OF this, of 7] show ?thesis
    using r by (simp add: Let_def withoutRoute_def)
qed

end
