(* ===== verification/StrategyRegistry.thy ===== *)
theory StrategyRegistry
  imports NdnTypes
begin

text \<open>
  The static part of \<^verbatim>\<open>daemon/fw/strategy.cpp\<close>: the registry of strategy types, a \<^verbatim>\<open>std::map\<close> from
  strategy names to constructors, and the interpretation of strategy instance names. The
  registry is the list of its items in key order. A constructor takes an instance name and
  throws \<^verbatim>\<open>std::invalid_argument\<close> (\<open>Inl\<close>) or makes a strategy, known by its instance name.
\<close>

type_synonym registry = "(name \<times> (name \<Rightarrow> string + name)) list"

record parsedInstanceName =
  pi_strategyName :: name
  pi_version :: "component option"
  pi_parameters :: name

primrec parseFrom :: "ndn_lib \<Rightarrow> name \<Rightarrow> nat \<Rightarrow> parsedInstanceName" where
  "parseFrom L input 0 = \<lparr>pi_strategyName = input, pi_version = None, pi_parameters = []\<rparr>"
| "parseFrom L input (Suc i) =
     (if isVersion L (input ! Suc i)
      then \<lparr>pi_strategyName = take (Suc (Suc i)) input, pi_version = Some (input ! Suc i),
            pi_parameters = drop (Suc (Suc i)) input\<rparr>
      else parseFrom L input i)"

definition parseInstanceName :: "ndn_lib \<Rightarrow> name \<Rightarrow> parsedInstanceName" where
  "parseInstanceName L input = parseFrom L input (length input - 1)"

definition makeInstanceName :: "ndn_lib \<Rightarrow> name \<Rightarrow> name \<Rightarrow> name" where
  "makeInstanceName L input strategyName =
     (if list_ex (isVersion L) input then input else input @ [last strategyName])"

definition strategy_find :: "ndn_lib \<Rightarrow> registry \<Rightarrow> name \<Rightarrow> (name \<times> (name \<Rightarrow> string + name)) option" where
  "strategy_find L reg instanceName =
     (let parsed = parseInstanceName L instanceName; s = pi_strategyName parsed
      in if pi_version parsed \<noteq> None
         then (case dropWhile (\<lambda>x. compareName L (fst x) s < 0) reg of
                 [] \<Rightarrow> None
               | found # _ \<Rightarrow> if prefix (butlast s) (fst found) then Some found else None)
         else if s \<noteq> []
         then (case rev (takeWhile (\<lambda>x. compareName L (fst x) (getSuccessor L s) < 0) reg) of
                 [] \<Rightarrow> None
               | found # _ \<Rightarrow> if prefix s (fst found) then Some found else None)
         else None)"

definition canCreate :: "ndn_lib \<Rightarrow> registry \<Rightarrow> name \<Rightarrow> bool" where
  "canCreate L reg n \<longleftrightarrow> strategy_find L reg n \<noteq> None"

text \<open>\<open>None\<close> is the null pointer returned for an unknown strategy.\<close>

definition strategy_create :: "ndn_lib \<Rightarrow> registry \<Rightarrow> name \<Rightarrow> (string + name) option" where
  "strategy_create L reg n =
     (case strategy_find L reg n of None \<Rightarrow> None | Some found \<Rightarrow> Some (snd found n))"

definition areSameType :: "ndn_lib \<Rightarrow> registry \<Rightarrow> name \<Rightarrow> name \<Rightarrow> bool" where
  "areSameType L reg a b \<longleftrightarrow>
     map_option fst (strategy_find L reg a) = map_option fst (strategy_find L reg b)"

definition registry_ok :: "ndn_lib \<Rightarrow> registry \<Rightarrow> bool" where
  "registry_ok L reg \<longleftrightarrow> sorted_wrt (\<lambda>a b. compareName L (fst a) (fst b) < 0) reg"

lemma parseFrom_split:
  "pi_strategyName (parseFrom L input i) @ pi_parameters (parseFrom L input i) = input"
  by (induction i) auto

lemma takeWhile_sorted:
  "sorted_wrt R xs \<Longrightarrow> (\<And>x y. R x y \<Longrightarrow> P y \<Longrightarrow> P x) \<Longrightarrow> takeWhile P xs = filter P xs"
proof (induction xs)
  case (Cons x xs)
  have "P x \<or> filter P xs = []"
    using Cons.prems by (auto simp: filter_empty_conv)
  then show ?case using Cons by auto
qed simp

lemma dropWhile_sorted:
  "sorted_wrt R xs \<Longrightarrow> (\<And>x y. R x y \<Longrightarrow> P y \<Longrightarrow> P x) \<Longrightarrow> dropWhile P xs = filter (\<lambda>x. \<not> P x) xs"
proof (induction xs)
  case (Cons x xs)
  have "P x \<or> filter (\<lambda>y. \<not> P y) xs = xs"
    using Cons.prems by (auto simp: filter_id_conv)
  then show ?case using Cons by auto
qed simp

context ndn_lib_laws begin

lemma find_versioned:
  assumes "sorted_wrt (\<lambda>a b. compareName L (fst a) (fst b) < 0) (reg :: registry)"
  shows "(case dropWhile (\<lambda>x. compareName L (fst x) s < 0) reg of
       [] \<Rightarrow> None | found # _ \<Rightarrow> if prefix (butlast s) (fst found) then Some found else None) =
    (case filter (\<lambda>x. \<not> compareName L (fst x) s < 0 \<and> prefix (butlast s) (fst x)) reg of
       [] \<Rightarrow> None | found # _ \<Rightarrow> Some found)"
proof -
  let ?ge = "filter (\<lambda>x. \<not> compareName L (fst x) s < 0) reg"
  have d: "dropWhile (\<lambda>x. compareName L (fst x) s < 0) reg = ?ge"
    by (rule dropWhile_sorted [OF assms]) (rule compare_trans)
  have f: "filter (\<lambda>x. \<not> compareName L (fst x) s < 0 \<and> prefix (butlast s) (fst x)) reg =
      filter (\<lambda>x. prefix (butlast s) (fst x)) ?ge"
    by (simp add: conj_commute)
  show ?thesis
  proof (cases ?ge)
    case (Cons k ks)
    have "k \<in> set ?ge" unfolding Cons by simp
    then have k: "\<not> compareName L (fst k) s < 0" by simp
    have "sorted_wrt (\<lambda>a b. compareName L (fst a) (fst b) < 0) (k # ks)"
      using sorted_wrt_filter [OF assms] unfolding Cons [symmetric] by blast
    then have "\<not> prefix (butlast s) (fst y)" if "\<not> prefix (butlast s) (fst k)" "y \<in> set ks" for y
      using that k prefix_contiguous [of "butlast s" s "fst y" "fst k"] prefixeq_butlast [of s]
        compare_asym by auto
    then show ?thesis
      unfolding d f Cons by (auto simp: filter_empty_conv split: list.split)
  qed (simp add: d f)
qed

lemma find_unversioned:
  assumes "sorted_wrt (\<lambda>a b. compareName L (fst a) (fst b) < 0) (reg :: registry)" and "s \<noteq> []"
  shows "(case rev (takeWhile (\<lambda>x. compareName L (fst x) (getSuccessor L s) < 0) reg) of
       [] \<Rightarrow> None | found # _ \<Rightarrow> if prefix s (fst found) then Some found else None) =
    (case rev (filter (\<lambda>x. prefix s (fst x)) reg) of [] \<Rightarrow> None | found # _ \<Rightarrow> Some found)"
proof -
  let ?lt = "filter (\<lambda>x. compareName L (fst x) s < 0 \<or> prefix s (fst x)) reg"
  have t: "takeWhile (\<lambda>x. compareName L (fst x) (getSuccessor L s) < 0) reg = ?lt"
    unfolding successor [OF assms(2), symmetric]
    by (rule takeWhile_sorted [OF assms(1)]) (rule compare_trans)
  have f: "filter (\<lambda>x. prefix s (fst x)) reg = filter (\<lambda>x. prefix s (fst x)) ?lt"
    unfolding filter_filter by (rule filter_cong) auto
  show ?thesis
  proof (cases ?lt rule: rev_cases)
    case (snoc ks k)
    have "sorted_wrt (\<lambda>a b. compareName L (fst a) (fst b) < 0) (ks @ [k])"
      using sorted_wrt_filter [OF assms(1)] unfolding snoc [symmetric] by blast
    then have lt: "compareName L (fst y) (fst k) < 0" if "y \<in> set ks" for y
      using that by (auto simp: sorted_wrt_append)
    have "k \<in> set ?lt" unfolding snoc by simp
    then have "compareName L (fst k) s < 0" if "\<not> prefix s (fst k)" using that by auto
    then have "\<not> prefix s (fst y)" if "\<not> prefix s (fst k)" "y \<in> set ks" for y
      using that lt [of y] compare_trans [of "fst y" "fst k" s] compare_prefix [of s "fst y"] compare_asym
      by (metis prefix_order.less_le compare_refl less_irrefl)
    then show ?thesis
      unfolding t f snoc by (auto simp: filter_empty_conv split: list.split)
  qed (simp add: t f)
qed

end

section \<open>Properties\<close>

text \<open>
  C20: which strategy type an instance name means. Without a version component it is the
  registered strategy with that name prefix and the highest version; with one, the
  registered strategy with that exact version or else the next higher one of the same name.
\<close>

theorem strategy_find_picks_version:
  assumes "ndn_lib_laws L" and "registry_ok L reg"
    and "s = pi_strategyName (parseInstanceName L n)" and "s \<noteq> []"
  shows "strategy_find L reg n =
    (if pi_version (parseInstanceName L n) = None
     then (case rev (filter (\<lambda>x. prefix s (fst x)) reg) of [] \<Rightarrow> None | x # _ \<Rightarrow> Some x)
     else (case filter (\<lambda>x. \<not> compareName L (fst x) s < 0 \<and> prefix (butlast s) (fst x)) reg of
             [] \<Rightarrow> None | x # _ \<Rightarrow> Some x))"
proof -
  note srt = assms(2) [unfolded registry_ok_def]
  show ?thesis
    unfolding strategy_find_def Let_def assms(3) [symmetric]
    using ndn_lib_laws.find_versioned [OF assms(1) srt, of s]
      ndn_lib_laws.find_unversioned [OF assms(1) srt assms(4)] assms(4)
    by (cases "pi_version (parseInstanceName L n) = None") (simp_all only: if_True if_False simp_thms)
qed

definition exampleRegistry :: registry where
  "exampleRegistry =
     [([Component 8 ''s'', Component 54 [CHR 0x01]], Inr),
      ([Component 8 ''s'', Component 54 [CHR 0x03]], Inr),
      ([Component 8 ''t'', Component 54 [CHR 0x01]], Inr)]"

lemma exampleRegistry_ok: "registry_ok canonicalLib exampleRegistry"
  by (simp add: registry_ok_def exampleRegistry_def canonicalLib_def componentCompare_def thenCompare_def
      charCompare_def of_char_def)

theorem strategy_find_picks_version_witness:
  "map_option fst (strategy_find canonicalLib exampleRegistry [Component 8 ''s''])
     = Some [Component 8 ''s'', Component 54 [CHR 0x03]]"
proof -
  have p: "parseInstanceName canonicalLib [Component 8 ''s''] =
      \<lparr>pi_strategyName = [Component 8 ''s''], pi_version = None, pi_parameters = []\<rparr>"
    by (simp add: parseInstanceName_def)
  show ?thesis
    using strategy_find_picks_version [OF canonical.ndn_lib_laws_axioms exampleRegistry_ok refl,
        of "[Component 8 ''s'']"]
    unfolding p by (simp add: exampleRegistry_def)
qed

end
