(* ===== verification/StrategyChoice.thy ===== *)
theory StrategyChoice
  imports NameTree StrategyRegistry
begin

text \<open>
  \<^verbatim>\<open>daemon/table/strategy-choice.cpp\<close>: which strategy serves which part of the namespace. The
  state is the shared name tree and the counter \<^verbatim>\<open>m_nItems\<close>; a strategy object is known by its
  instance name, and the empty name stands for the null pointer an entry holds between its
  construction and \<^verbatim>\<open>setStrategy\<close>.
\<close>

type_synonym strategyChoice = "nameTree \<times> 64 word"

definition nteHasStrategyChoiceEntry :: "name \<Rightarrow> nte \<Rightarrow> bool" where
  "nteHasStrategyChoiceEntry n e \<longleftrightarrow> nte_sc e \<noteq> None"

definition newScEntry :: "name \<Rightarrow> sc_entry" where
  "newScEntry p = \<lparr>sc_prefix = p, sc_strategy = []\<rparr>"

definition sc_setStrategy :: "name \<Rightarrow> sc_entry \<Rightarrow> sc_entry" where
  "sc_setStrategy s e = e\<lparr>sc_strategy := s\<rparr>"

definition sc_setDefaultStrategy :: "ndn_lib \<Rightarrow> registry \<Rightarrow> name \<Rightarrow> strategyChoice \<Rightarrow> (string + strategyChoice) option" where
  "sc_setDefaultStrategy L reg strategyName = (\<lambda>(nt, k).
     case strategy_create L reg strategyName of
       None \<Rightarrow> None
     | Some (Inl msg) \<Rightarrow> Some (Inl msg)
     | Some (Inr inst) \<Rightarrow>
         Some (Inr (setStrategyChoiceEntry [] (Some (sc_setStrategy inst (newScEntry []))) (lookup [] 0 nt), k + 1)))"

text \<open>\<open>None\<close> is the failing assertion that a match exists.\<close>

definition findEffectiveStrategy :: "name \<Rightarrow> nameTree \<Rightarrow> name option" where
  "findEffectiveStrategy name nt =
     (case findLongestPrefixMatch name nteHasStrategyChoiceEntry nt of
        None \<Rightarrow> None
      | Some n \<Rightarrow> map_option sc_strategy (nt_sc n nt))"

definition findEffectiveStrategy_pit :: "name \<Rightarrow> name \<Rightarrow> nameTree \<Rightarrow> name option" where
  "findEffectiveStrategy_pit n name nt =
     (case findLongestPrefixMatch_pit n name nteHasStrategyChoiceEntry nt of
        None \<Rightarrow> None
      | Some m \<Rightarrow> map_option sc_strategy (nt_sc m nt))"

definition pe_clearInfo :: "pit_entry \<Rightarrow> pit_entry" where
  "pe_clearInfo e =
     e\<lparr>pe_info := clearStrategyInfo (pe_info e),
       pe_inRecords := map (\<lambda>r. r\<lparr>fr_info := clearStrategyInfo (fr_info r)\<rparr>) (pe_inRecords e),
       pe_outRecords := map (\<lambda>r. r\<lparr>fr_info := clearStrategyInfo (fr_info r)\<rparr>) (pe_outRecords e)\<rparr>"

definition me_clearInfo :: "meas_entry \<Rightarrow> meas_entry" where
  "me_clearInfo m = m\<lparr>me_info := clearStrategyInfo (me_info m)\<rparr>"

definition nte_clearStrategyInfo :: "name \<Rightarrow> nameTree \<Rightarrow> nameTree" where
  "nte_clearStrategyInfo n =
     nt_update n (\<lambda>e. e\<lparr>nte_pits := map pe_clearInfo (nte_pits e),
                        nte_meas := map_option me_clearInfo (nte_meas e)\<rparr>)"

definition changedSubtree :: "name \<Rightarrow> name \<Rightarrow> nte \<Rightarrow> bool \<times> bool" where
  "changedSubtree root n e =
     (if n = root then (True, True)
      else if nte_sc e \<noteq> None then (False, False)
      else (True, True))"

definition changeStrategy :: "ndn_lib \<Rightarrow> registry \<Rightarrow> name \<Rightarrow> name \<Rightarrow> name \<Rightarrow> nameTree \<Rightarrow> nameTree" where
  "changeStrategy L reg p oldStrategy newStrategy nt =
     (if areSameType L reg oldStrategy newStrategy then nt
      else case partialEnumerate p (changedSubtree p) nt of
             None \<Rightarrow> nt
           | Some ntChanged \<Rightarrow> fold nte_clearStrategyInfo ntChanged nt)"

datatype insertResult = OK | NOT_REGISTERED | EXCEPTION string | DEPTH_EXCEEDED

definition getStatusCode :: "insertResult \<Rightarrow> nat" where
  "getStatusCode r =
     (case r of OK \<Rightarrow> 200 | NOT_REGISTERED \<Rightarrow> 404 | EXCEPTION _ \<Rightarrow> 409 | DEPTH_EXCEEDED \<Rightarrow> 414)"

definition sc_insert :: "ndn_lib \<Rightarrow> registry \<Rightarrow> name \<Rightarrow> name \<Rightarrow> strategyChoice \<Rightarrow> strategyChoice \<times> insertResult" where
  "sc_insert L reg p strategyName = (\<lambda>(nt, k).
     if length p > getMaxDepth then ((nt, k), DEPTH_EXCEEDED)
     else case strategy_create L reg strategyName of
            None \<Rightarrow> ((nt, k), NOT_REGISTERED)
          | Some (Inl msg) \<Rightarrow> ((nt, k), EXCEPTION msg)
          | Some (Inr strategy) \<Rightarrow>
              let nt1 = lookup p (length p) nt
              in case nt_sc p nt1 of
                   Some entry \<Rightarrow>
                     if sc_strategy entry = strategy then ((nt1, k), OK)
                     else ((setStrategyChoiceEntry p (Some (sc_setStrategy strategy entry))
                              (changeStrategy L reg p (sc_strategy entry) strategy nt1), k), OK)
                 | None \<Rightarrow>
                     let old = (case findEffectiveStrategy p nt1 of None \<Rightarrow> [] | Some s \<Rightarrow> s);
                         nt2 = setStrategyChoiceEntry p (Some (newScEntry p)) nt1
                     in ((setStrategyChoiceEntry p (Some (sc_setStrategy strategy (newScEntry p)))
                            (changeStrategy L reg p old strategy nt2), k + 1), OK))"

definition sc_erase :: "ndn_lib \<Rightarrow> registry \<Rightarrow> name \<Rightarrow> strategyChoice \<Rightarrow> strategyChoice" where
  "sc_erase L reg p = (\<lambda>(nt, k).
     case findExactMatch p (length p) nt of
       None \<Rightarrow> (nt, k)
     | Some n \<Rightarrow>
         (case nt_sc n nt of
            None \<Rightarrow> (nt, k)
          | Some entry \<Rightarrow>
              let parent = (case findEffectiveStrategy (butlast p) nt of None \<Rightarrow> [] | Some s \<Rightarrow> s);
                  nt1 = changeStrategy L reg p (sc_strategy entry) parent nt;
                  nt2 = setStrategyChoiceEntry n None nt1
              in (fst (eraseIfEmpty n True nt2), k - 1)))"

definition sc_get :: "name \<Rightarrow> nameTree \<Rightarrow> bool \<times> name" where
  "sc_get p nt =
     (case findExactMatch p (length p) nt of
        None \<Rightarrow> (False, [])
      | Some n \<Rightarrow> (case nt_sc n nt of None \<Rightarrow> (False, []) | Some e \<Rightarrow> (True, sc_strategy e)))"

section \<open>Membership in a pre-order\<close>

lemma preorderTo_prefix:
  assumes inv: "nt_inv nt"
  shows "x \<in> set (preorderTo d pred nt k) \<Longrightarrow> prefix k x"
proof (induction d arbitrary: k)
  case (Suc d)
  consider "x = k" | c where "c \<in> set (childrenAt nt k)" "x \<in> set (preorderTo d pred nt c)"
    using Suc.prems by (auto simp: split_def Let_def split: if_splits)
  then show ?case
  proof cases
    case 2
    then have "prefix c x" "butlast c = k" using Suc.IH childrenAt_inv(2) [OF inv] by auto
    then show ?thesis using prefixeq_butlast [of c] prefix_order.trans by blast
  qed simp
qed simp

lemma child_towards:
  assumes inv: "nt_inv nt" and "strict_prefix n m" and "nt_get m nt \<noteq> None"
  obtains c where "c \<in> set (childrenAt nt n)" and "prefix c m" and "length c = Suc (length n)"
proof -
  let ?c = "take (Suc (length n)) m"
  have l: "length n < length m" using assms(2) by (rule prefix_length_less)
  have "butlast ?c = take (length n) m" using l by (simp add: butlast_take)
  also have "\<dots> = n" using assms(2) by (metis append_eq_conv_conj prefixE strict_prefix_def)
  finally have "butlast ?c = n" .
  moreover have "nt_get ?c nt \<noteq> None"
    using nt_inv_prefix [OF inv assms(3) take_is_prefix] .
  ultimately have "?c \<in> set (childrenAt nt n)"
    using childrenAt_inv(2) [OF inv] l by auto
  then show thesis using that [of ?c] take_is_prefix [of "Suc (length n)" m] l by simp
qed

lemma in_preorder:
  assumes inv: "nt_inv nt" and m: "nt_get m nt \<noteq> None"
  shows "prefix n m \<Longrightarrow>
    m \<in> set (preorder pred nt n) \<longleftrightarrow>
      fst (predAt pred nt m) \<and> (\<forall>q. prefix n q \<longrightarrow> strict_prefix q m \<longrightarrow> snd (predAt pred nt q))"
proof (induction "length m - length n" arbitrary: n rule: less_induct)
  case less
  have n: "nt_get n nt \<noteq> None" using nt_inv_prefix [OF inv m less.prems] .
  note unf = preorder_unfold [OF inv n, of pred]
  show ?case
  proof (cases "m = n")
    case True
    have "m \<notin> set (preorder pred nt c)" if "c \<in> set (childrenAt nt n)" for c
      using preorderTo_prefix [OF inv, of m _ pred c] prefix_length_le [of c m]
        childrenAt_length [OF inv that] True by (auto simp: preorder_def)
    then show ?thesis using True by (auto simp: unf)
  next
    case False
    then have nm: "strict_prefix n m" using less.prems by (simp add: strict_prefix_def)
    obtain c where c: "c \<in> set (childrenAt nt n)" "prefix c m" "length c = Suc (length n)"
      using child_towards [OF inv nm m] .
    have "d = c" if "d \<in> set (childrenAt nt n)" "m \<in> set (preorder pred nt d)" for d
      using that c childrenAt_length [OF inv that(1)] preorderTo_prefix [OF inv, of m _ pred d]
      by (metis preorder_def prefix_length_prefix prefix_order.antisym order_refl)
    then have "m \<in> set (preorder pred nt n) \<longleftrightarrow> snd (predAt pred nt n) \<and> m \<in> set (preorder pred nt c)"
      using False c(1) by (auto simp: unf)
    also have "m \<in> set (preorder pred nt c) \<longleftrightarrow> fst (predAt pred nt m) \<and>
        (\<forall>q. prefix c q \<longrightarrow> strict_prefix q m \<longrightarrow> snd (predAt pred nt q))"
      using less.hyps [OF _ c(2)] c(3) prefix_length_less [OF nm] by simp
    finally have step: "m \<in> set (preorder pred nt n) \<longleftrightarrow> snd (predAt pred nt n) \<and> fst (predAt pred nt m) \<and>
        (\<forall>q. prefix c q \<longrightarrow> strict_prefix q m \<longrightarrow> snd (predAt pred nt q))" by blast
    have nc: "prefix n c" using c(1) childrenAt_inv(2) [OF inv] prefixeq_butlast [of c] by auto
    have "q = n \<or> prefix c q" if "prefix n q" "strict_prefix q m" for q
      using that c by (metis Suc_leI le_neq_implies_less prefix_length_le prefix_length_prefix
          prefix_order.antisym strict_prefix_def order_refl)
    then show ?thesis unfolding step using nm nc prefix_order.trans by blast
  qed
qed

section \<open>The region a choice governs\<close>

text \<open>The names below a prefix that no longer choice overrides.\<close>

definition governed :: "nameTree \<Rightarrow> name \<Rightarrow> name \<Rightarrow> bool" where
  "governed nt p n \<longleftrightarrow> prefix p n \<and> (\<forall>q. prefix p q \<longrightarrow> q \<noteq> p \<longrightarrow> prefix q n \<longrightarrow> nt_sc q nt = None)"

lemma predAt_changedSubtree:
  "nt_get q nt \<noteq> None \<Longrightarrow> predAt (changedSubtree p) nt q =
     (if q = p \<or> nt_sc q nt = None then (True, True) else (False, False))"
  by (auto simp: predAt_def changedSubtree_def nt_sc_def split: option.splits)

lemma in_changed_preorder:
  assumes inv: "nt_inv nt" and p: "nt_get p nt \<noteq> None" and m: "nt_get m nt \<noteq> None"
  shows "m \<in> set (preorder (changedSubtree p) nt p) \<longleftrightarrow> governed nt p m"
proof (cases "prefix p m")
  case True
  have pres: "nt_get q nt \<noteq> None" if "prefix q m" for q using nt_inv_prefix [OF inv m that] .
  have "m \<in> set (preorder (changedSubtree p) nt p) \<longleftrightarrow>
      (m = p \<or> nt_sc m nt = None) \<and> (\<forall>q. prefix p q \<longrightarrow> strict_prefix q m \<longrightarrow> q = p \<or> nt_sc q nt = None)"
    unfolding in_preorder [OF inv m True] predAt_changedSubtree [OF m]
    using pres predAt_changedSubtree by (auto simp: strict_prefix_def)
  then show ?thesis using True by (auto simp: governed_def strict_prefix_def)
next
  case False
  then show ?thesis
    using preorderTo_prefix [OF inv] by (auto simp: governed_def preorder_def)
qed

lemma clearInfo_idem [simp]:
  "pe_clearInfo (pe_clearInfo e) = pe_clearInfo e" "me_clearInfo (me_clearInfo m) = me_clearInfo m"
  by (simp_all add: pe_clearInfo_def me_clearInfo_def clearStrategyInfo_def comp_def)

lemma views_clear [simp]:
  "nt_get m (nte_clearStrategyInfo n nt) = None \<longleftrightarrow> nt_get m nt = None"
  "nt_fib m (nte_clearStrategyInfo n nt) = nt_fib m nt"
  "nt_sc m (nte_clearStrategyInfo n nt) = nt_sc m nt"
  "nt_pits m (nte_clearStrategyInfo n nt) =
     (if m = n then map pe_clearInfo (nt_pits m nt) else nt_pits m nt)"
  "nt_meas m (nte_clearStrategyInfo n nt) =
     (if m = n then map_option me_clearInfo (nt_meas m nt) else nt_meas m nt)"
  by (auto simp: nte_clearStrategyInfo_def nt_views nt_get_update split: option.split)

lemma nt_inv_clear [nfd_inv]: "nt_inv nt \<Longrightarrow> nt_inv (nte_clearStrategyInfo n nt)"
  unfolding nte_clearStrategyInfo_def by (rule nt_inv_update) simp_all

lemma clear_all:
  "nt_inv nt \<Longrightarrow> nt_inv (fold nte_clearStrategyInfo ns nt)"
  "nt_get m (fold nte_clearStrategyInfo ns nt) = None \<longleftrightarrow> nt_get m nt = None"
  "nt_fib m (fold nte_clearStrategyInfo ns nt) = nt_fib m nt"
  "nt_sc m (fold nte_clearStrategyInfo ns nt) = nt_sc m nt"
  "nt_pits m (fold nte_clearStrategyInfo ns nt) =
     (if m \<in> set ns then map pe_clearInfo (nt_pits m nt) else nt_pits m nt)"
  "nt_meas m (fold nte_clearStrategyInfo ns nt) =
     (if m \<in> set ns then map_option me_clearInfo (nt_meas m nt) else nt_meas m nt)"
  by (induction ns arbitrary: nt)
    (auto simp: nt_inv_clear comp_def option.map_comp)

lemma changeStrategy_spec:
  fixes L :: ndn_lib and reg :: registry and old new :: name
  assumes inv: "nt_inv nt" and p: "nt_get p nt \<noteq> None"
  defines "R \<equiv> \<lambda>m. \<not> areSameType L reg old new \<and> governed nt p m"
  shows "nt_inv (changeStrategy L reg p old new nt)"
    and "nt_get m (changeStrategy L reg p old new nt) = None \<longleftrightarrow> nt_get m nt = None"
    and "nt_fib m (changeStrategy L reg p old new nt) = nt_fib m nt"
    and "nt_sc m (changeStrategy L reg p old new nt) = nt_sc m nt"
    and "nt_pits m (changeStrategy L reg p old new nt) =
      (if R m then map pe_clearInfo (nt_pits m nt) else nt_pits m nt)"
    and "nt_meas m (changeStrategy L reg p old new nt) =
      (if R m then map_option me_clearInfo (nt_meas m nt) else nt_meas m nt)"
proof -
  let ?ns = "preorder (changedSubtree p) nt p"
  have eq: "changeStrategy L reg p old new nt =
      (if areSameType L reg old new then nt else fold nte_clearStrategyInfo ?ns nt)"
    using p by (auto simp: changeStrategy_def partialEnumerate_aux [OF inv])
  note c = clear_all [where ns = ?ns and nt = nt]
  show "nt_inv (changeStrategy L reg p old new nt)" using inv c(1) by (simp add: eq)
  show "nt_get m (changeStrategy L reg p old new nt) = None \<longleftrightarrow> nt_get m nt = None"
    "nt_fib m (changeStrategy L reg p old new nt) = nt_fib m nt"
    "nt_sc m (changeStrategy L reg p old new nt) = nt_sc m nt"
    using c(2-4) by (simp_all add: eq)
  have "m \<in> set ?ns \<longleftrightarrow> governed nt p m" if "nt_get m nt \<noteq> None"
    by (rule in_changed_preorder [OF inv p that])
  then show "nt_pits m (changeStrategy L reg p old new nt) =
      (if R m then map pe_clearInfo (nt_pits m nt) else nt_pits m nt)"
    and "nt_meas m (changeStrategy L reg p old new nt) =
      (if R m then map_option me_clearInfo (nt_meas m nt) else nt_meas m nt)"
    using c(5,6) by (cases "nt_get m nt"; auto simp: eq R_def nt_pits_def [of m nt] nt_meas_def [of m nt])+
qed

section \<open>Effective strategies\<close>

lemma findEffectiveStrategy_eq:
  "findEffectiveStrategy name nt =
     Option.bind (longestMatch (take getMaxDepth name) (\<lambda>q. nt_sc q nt \<noteq> None))
       (\<lambda>q. map_option sc_strategy (nt_sc q nt))"
proof -
  have "hit nteHasStrategyChoiceEntry nt = (\<lambda>q. nt_sc q nt \<noteq> None)"
    by (simp add: fun_eq_iff hit_def nt_sc_def nteHasStrategyChoiceEntry_def split: option.split)
  then show ?thesis
    by (simp add: findEffectiveStrategy_def findLongestPrefixMatch_aux Option.bind_eq_None_conv
        split: option.split)
qed

text \<open>Setting the choice of one prefix.\<close>

lemma longestMatch_governed:
  assumes "governed nt p n" and "nt_sc p nt \<noteq> None"
  shows "longestMatch n (\<lambda>q. nt_sc q nt \<noteq> None) = Some p"
  unfolding longestMatch_Some_iff
proof (intro conjI allI impI)
  show "prefix p n" "nt_sc p nt \<noteq> None" using assms by (simp_all add: governed_def)
  show "length q \<le> length p" if "prefix q n" "nt_sc q nt \<noteq> None" for q
  proof (rule ccontr)
    assume "\<not> length q \<le> length p"
    then have "prefix p q" "q \<noteq> p"
      using assms(1) that(1) by (auto simp: governed_def intro: prefix_length_prefix)
    then show False using assms(1) that by (auto simp: governed_def)
  qed
qed

lemma longestMatch_ungoverned:
  assumes "\<And>q. q \<noteq> p \<Longrightarrow> nt_sc q nt' = nt_sc q nt" and "\<not> governed nt p n"
  shows "longestMatch n (\<lambda>q. nt_sc q nt' \<noteq> None) = longestMatch n (\<lambda>q. nt_sc q nt \<noteq> None) \<and>
    longestMatch n (\<lambda>q. nt_sc q nt \<noteq> None) \<noteq> Some p"
proof (cases "prefix p n")
  case False
  then have ne: "q \<noteq> p" if "prefix q n" for q using that by auto
  have "find (\<lambda>q. nt_sc q nt' \<noteq> None) (rev (prefixes n)) = find (\<lambda>q. nt_sc q nt \<noteq> None) (rev (prefixes n))"
    by (rule find_cong) (use ne assms(1) in \<open>auto simp: in_set_prefixes\<close>)
  then show ?thesis
    using False by (auto simp: longestMatch_def [symmetric] longestMatch_Some_iff)
next
  case True
  then obtain q where q: "prefix p q" "q \<noteq> p" "prefix q n" "nt_sc q nt \<noteq> None"
    using assms(2) by (auto simp: governed_def)
  have len: "length p < length q"
    using q(1,2) by (simp add: prefix_length_less strict_prefix_def)
  obtain r where r: "longestMatch n (\<lambda>q. nt_sc q nt \<noteq> None) = Some r"
    using q longestMatch_None_iff [of n "\<lambda>q. nt_sc q nt \<noteq> None"] by fastforce
  then have rs: "prefix r n" "nt_sc r nt \<noteq> None" "\<And>s. prefix s n \<Longrightarrow> nt_sc s nt \<noteq> None \<Longrightarrow> length s \<le> length r"
    by (auto simp: longestMatch_Some_iff)
  have rq: "length q \<le> length r" using rs(3) q(3,4) by blast
  then have rp: "r \<noteq> p" using len by auto
  have "length s \<le> length r" if "prefix s n" "nt_sc s nt' \<noteq> None" for s
    using that rs(3) assms(1) len rq by (cases "s = p") auto
  then have "longestMatch n (\<lambda>q. nt_sc q nt' \<noteq> None) = Some r"
    unfolding longestMatch_Some_iff using rs(1,2) assms(1) [OF rp] by auto
  then show ?thesis using r rp by simp
qed

lemma governed_cong:
  "(\<And>q. q \<noteq> p \<Longrightarrow> nt_sc q nt' = nt_sc q nt) \<Longrightarrow> governed nt' p n \<longleftrightarrow> governed nt p n"
  by (auto simp: governed_def)

lemma effective_after_set:
  assumes "\<And>q. nt_sc q nt' = (if q = p then Some e else nt_sc q nt)"
  shows "findEffectiveStrategy n nt' =
    (if governed nt p (take getMaxDepth n) then Some (sc_strategy e) else findEffectiveStrategy n nt)"
proof (cases "governed nt p (take getMaxDepth n)")
  case True
  then have "governed nt' p (take getMaxDepth n)" using governed_cong [of p nt' nt] assms by auto
  then show ?thesis
    using longestMatch_governed [of nt' p] assms True by (simp add: findEffectiveStrategy_eq)
next
  case False
  have "longestMatch (take getMaxDepth n) (\<lambda>q. nt_sc q nt' \<noteq> None) =
      longestMatch (take getMaxDepth n) (\<lambda>q. nt_sc q nt \<noteq> None) \<and>
    longestMatch (take getMaxDepth n) (\<lambda>q. nt_sc q nt \<noteq> None) \<noteq> Some p"
    by (rule longestMatch_ungoverned [OF _ False]) (simp add: assms)
  then show ?thesis
    unfolding findEffectiveStrategy_eq using False assms
    by (cases "longestMatch (take getMaxDepth n) (\<lambda>q. nt_sc q nt \<noteq> None)") auto
qed

lemma effective_governed:
  assumes "governed nt p (take getMaxDepth n)" and "nt_sc p nt = Some e"
  shows "findEffectiveStrategy n nt = Some (sc_strategy e)"
  using longestMatch_governed [OF assms(1)] assms(2) by (simp add: findEffectiveStrategy_eq)

section \<open>The invariant\<close>

definition scCount :: "nameTree \<Rightarrow> nat" where
  "scCount nt = card {n. nt_sc n nt \<noteq> None}"

text \<open>Entries sit at their prefix, and the root always has one: the default strategy.\<close>

definition sc_inv :: "strategyChoice \<Rightarrow> bool" where
  "sc_inv = (\<lambda>(nt, k). nt_inv nt \<and> (\<forall>n e. nt_sc n nt = Some e \<longrightarrow> sc_prefix e = n) \<and>
     nt_sc [] nt \<noteq> None \<and> k = of_nat (scCount nt))"

lemma finite_sc: "finite {n. nt_sc n nt \<noteq> None}"
  by (rule finite_subset [OF _ finite_present [of nt]]) (auto simp: nt_sc_def split: option.splits)

lemma scCount_set:
  assumes "\<And>m. nt_sc m nt' = (if m = n then x else nt_sc m nt)"
  shows "scCount nt' + (if nt_sc n nt = None then 0 else 1) = scCount nt + (if x = None then 0 else 1)"
  unfolding scCount_def by (rule card_keys_update [OF finite_sc assms])

lemma effective_exists: "nt_sc [] nt \<noteq> None \<Longrightarrow> findEffectiveStrategy n nt \<noteq> None"
proof -
  assume r: "nt_sc [] nt \<noteq> None"
  then obtain q where q: "longestMatch (take getMaxDepth n) (\<lambda>q. nt_sc q nt \<noteq> None) = Some q"
    using longestMatch_None_iff [of "take getMaxDepth n" "\<lambda>q. nt_sc q nt \<noteq> None"] by fastforce
  then have "nt_sc q nt \<noteq> None" by (simp add: longestMatch_Some_iff)
  then show ?thesis using q by (auto simp: findEffectiveStrategy_eq)
qed

text \<open>What a successful change leaves behind.\<close>

definition changedTo :: "ndn_lib \<Rightarrow> registry \<Rightarrow> name \<Rightarrow> name \<Rightarrow> sc_entry option \<Rightarrow> name \<Rightarrow> nameTree \<Rightarrow> nameTree \<Rightarrow> bool" where
  "changedTo L reg p old x new nt nt' \<longleftrightarrow>
     nt_inv nt' \<and> (\<forall>q. nt_sc q nt' = (if q = p then x else nt_sc q nt)) \<and>
     (\<forall>m. nt_fib m nt' = nt_fib m nt) \<and>
     (\<forall>m. nt_pits m nt' = (if \<not> areSameType L reg old new \<and> governed nt p m
                           then map pe_clearInfo (nt_pits m nt) else nt_pits m nt)) \<and>
     (\<forall>m. nt_meas m nt' = (if \<not> areSameType L reg old new \<and> governed nt p m
                           then map_option me_clearInfo (nt_meas m nt) else nt_meas m nt))"

lemma areSameType_refl [simp]: "areSameType L reg a a"
  by (simp add: areSameType_def)

lemma sc_insert_spec:
  assumes inv: "sc_inv (nt, k)" and len: "length p \<le> getMaxDepth"
    and cr: "strategy_create L reg s = Some (Inr inst)"
  shows "\<exists>nt' k'. sc_insert L reg p s (nt, k) = ((nt', k'), OK) \<and> sc_inv (nt', k') \<and>
    changedTo L reg p (the (findEffectiveStrategy p nt)) (Some \<lparr>sc_prefix = p, sc_strategy = inst\<rparr>) inst nt nt'"
proof -
  let ?old = "the (findEffectiveStrategy p nt)" and ?e = "\<lparr>sc_prefix = p, sc_strategy = inst\<rparr>"
  let ?l = "lookup p (length p) nt"
  have i: "nt_inv nt" "\<And>n e. nt_sc n nt = Some e \<Longrightarrow> sc_prefix e = n" "nt_sc [] nt \<noteq> None"
    "k = of_nat (scCount nt)" using inv by (auto simp: sc_inv_def)
  have l: "nt_inv ?l" "sameTables nt ?l" "nt_get p ?l \<noteq> None"
    using lookup_spec [OF i(1) order_refl len] by auto
  note same = l(2) [unfolded sameTables_def]
  have eff: "findEffectiveStrategy p ?l = findEffectiveStrategy p nt"
    using same by (simp add: findEffectiveStrategy_eq)
  have wf: "sc_inv (nt', k')" if "nt_inv nt'" "\<And>q. nt_sc q nt' = (if q = p then Some ?e else nt_sc q nt)"
    "k' = k + (if nt_sc p nt = None then 1 else 0)" for nt' k'
    using scCount_set [OF that(2)] that i by (auto simp: sc_inv_def split: if_splits)
  show ?thesis
  proof (cases "nt_sc p nt")
    case (Some e)
    have g: "governed nt p (take getMaxDepth p)"
      using len by (auto simp: governed_def dest: prefix_order.antisym)
    have old: "?old = sc_strategy e" using effective_governed [OF g Some] by simp
    have ep: "sc_prefix e = p" using i(2) [OF Some] .
    show ?thesis
    proof (cases "sc_strategy e = inst")
      case True
      then have e: "e = ?e" using ep by simp
      have "changedTo L reg p ?old (Some ?e) inst nt ?l"
        using same l(1) Some e old True by (auto simp: changedTo_def)
      moreover have "sc_inv (?l, k)" by (rule wf) (use l(1) same Some e in auto)
      moreover have "sc_insert L reg p s (nt, k) = ((?l, k), OK)"
        using len cr same Some True by (simp add: sc_insert_def)
      ultimately show ?thesis by blast
    next
      case False
      let ?c = "changeStrategy L reg p (sc_strategy e) inst ?l"
      let ?t = "setStrategyChoiceEntry p (Some ?e) ?c"
      note c = changeStrategy_spec [OF l(1,3), where L = L and reg = reg and old = "sc_strategy e" and new = inst]
      have gl: "governed ?l p m = governed nt p m" for m using same by (simp add: governed_def)
      have t: "nt_sc q ?t = (if q = p then Some ?e else nt_sc q nt)" for q
        using c(2,4) l(3) same by simp
      have e': "e\<lparr>sc_strategy := inst\<rparr> = ?e" using ep by simp
      have "changedTo L reg p ?old (Some ?e) inst nt ?t"
        using nt_inv_setters(5) [OF c(1)] t c(3,5,6) same old gl by (simp add: changedTo_def)
      moreover have "sc_inv (?t, k)" by (rule wf [OF nt_inv_setters(5) [OF c(1)] t]) (simp add: Some)
      moreover have "sc_insert L reg p s (nt, k) = ((?t, k), OK)"
        using len cr same Some False by (simp add: sc_insert_def Let_def sc_setStrategy_def e')
      ultimately show ?thesis by blast
    qed
  next
    case None
    let ?n = "setStrategyChoiceEntry p (Some (newScEntry p)) ?l"
    let ?c = "changeStrategy L reg p ?old inst ?n"
    let ?t = "setStrategyChoiceEntry p (Some ?e) ?c"
    have n: "nt_inv ?n" "nt_get p ?n \<noteq> None" using nt_inv_setters(5) [OF l(1)] l(3) by simp_all
    note c = changeStrategy_spec [OF n, where L = L and reg = reg and old = ?old and new = inst]
    have gl: "governed ?n p m = governed nt p m" for m using same l(3) by (auto simp: governed_def)
    have t: "nt_sc q ?t = (if q = p then Some ?e else nt_sc q nt)" for q
      using c(2,4) l(3) same by simp
    have "changedTo L reg p ?old (Some ?e) inst nt ?t"
      using nt_inv_setters(5) [OF c(1)] t c(3,5,6) same gl by (simp add: changedTo_def)
    moreover have "sc_inv (?t, k + 1)" by (rule wf [OF nt_inv_setters(5) [OF c(1)] t]) (simp add: None)
    moreover have "sc_insert L reg p s (nt, k) = ((?t, k + 1), OK)"
      using len cr same None eff effective_exists [OF i(3), of p]
      by (auto simp: sc_insert_def Let_def sc_setStrategy_def newScEntry_def)
    ultimately show ?thesis by blast
  qed
qed

lemma sc_erase_spec:
  assumes inv: "sc_inv (nt, k)" and p: "p \<noteq> []" and e: "nt_sc p nt = Some e"
  shows "\<exists>nt' k'. sc_erase L reg p (nt, k) = (nt', k') \<and> sc_inv (nt', k') \<and>
    changedTo L reg p (sc_strategy e) None (the (findEffectiveStrategy (butlast p) nt)) nt nt'"
proof -
  let ?new = "the (findEffectiveStrategy (butlast p) nt)"
  let ?c = "changeStrategy L reg p (sc_strategy e) ?new nt"
  let ?t = "setStrategyChoiceEntry p None ?c"
  let ?r = "fst (eraseIfEmpty p True ?t)"
  have i: "nt_inv nt" "\<And>n e. nt_sc n nt = Some e \<Longrightarrow> sc_prefix e = n" "nt_sc [] nt \<noteq> None"
    "k = of_nat (scCount nt)" using inv by (auto simp: sc_inv_def)
  have g: "nt_get p nt \<noteq> None" using nt_view_present(4) e by auto
  note c = changeStrategy_spec [OF i(1) g, where L = L and reg = reg and old = "sc_strategy e" and new = ?new]
  have t: "nt_inv ?t" using nt_inv_setters(5) [OF c(1)] .
  note r = eraseIfEmpty_facts(1,2) [OF t, of p True]
  have sc: "nt_sc q ?r = (if q = p then None else nt_sc q nt)" for q
    using r(2) c(2,4) g by (simp add: sameTables_def)
  have cnt: "Suc (scCount ?r) = scCount nt" using scCount_set [OF sc] e by simp
  have "k - 1 = of_nat (scCount ?r)"
    by (rule counter_pred) (use i(4) in \<open>simp only: cnt\<close>)
  then have "sc_inv (?r, k - 1)" using r(1) sc i(2,3) p by (auto simp: sc_inv_def)
  moreover have "changedTo L reg p (sc_strategy e) None ?new nt ?r"
    using r sc c(3,5,6) by (simp add: changedTo_def sameTables_def)
  moreover have "length p \<le> getMaxDepth" using nt_inv_parent(3) [OF i(1)] g by auto
  then have "findExactMatch p (length p) nt = Some p" using g by (simp add: findExactMatch_def)
  then have "sc_erase L reg p (nt, k) = (?r, k - 1)"
    using e effective_exists [OF i(3), of "butlast p"] by (auto simp: sc_erase_def Let_def)
  ultimately show ?thesis by blast
qed

lemma effective_after_clear:
  assumes sc: "\<And>q. nt_sc q nt' = (if q = p then None else nt_sc q nt)" and p: "p \<noteq> []" "length p \<le> getMaxDepth"
  shows "findEffectiveStrategy n nt' =
    (if governed nt p (take getMaxDepth n) then findEffectiveStrategy (butlast p) nt
     else findEffectiveStrategy n nt)"
proof (cases "governed nt p (take getMaxDepth n)")
  case True
  let ?P = "\<lambda>q. nt_sc q nt \<noteq> None" and ?P' = "\<lambda>q. nt_sc q nt' \<noteq> None"
  have "prefix p (take getMaxDepth n)" using True by (simp add: governed_def)
  from prefix_order.trans [OF prefixeq_butlast this] have pn: "prefix (butlast p) (take getMaxDepth n)" .
  have "longestMatch (take getMaxDepth n) ?P' = longestMatch (butlast p) ?P'"
  proof (rule longestMatch_cut [OF pn])
    show "\<not> ?P' q" if q: "prefix q (take getMaxDepth n)" "length (butlast p) < length q" for q
    proof -
      have "length p \<le> length q" using q(2) p(1) by simp
      then have "prefix p q"
        using \<open>prefix p (take getMaxDepth n)\<close> q(1) prefix_length_prefix by blast
      then have "q \<noteq> p \<Longrightarrow> nt_sc q nt = None" using True q(1) unfolding governed_def by blast
      then show ?thesis by (simp add: sc)
    qed
  qed
  also have "\<dots> = longestMatch (butlast p) ?P"
  proof -
    have "q \<noteq> p" if "prefix q (butlast p)" for q
      using prefix_length_le [OF that] p(1) by (metis diff_less length_butlast length_greater_0_conv not_le zero_less_one)
    then have "?P' q = ?P q" if "q \<in> set (rev (prefixes (butlast p)))" for q
      using that by (auto simp: in_set_prefixes sc)
    then show ?thesis
      unfolding longestMatch_def by (rule find_cong [OF refl])
  qed
  finally have eq: "longestMatch (take getMaxDepth n) ?P' = longestMatch (butlast p) ?P" .
  have "take getMaxDepth (butlast p) = butlast p" using p(2) by simp
  moreover have "nt_sc q nt' = nt_sc q nt" if "longestMatch (butlast p) ?P = Some q" for q
  proof -
    have "prefix q (butlast p)" using that unfolding longestMatch_Some_iff by blast
    then have "q \<noteq> p" using prefix_length_le [of q "butlast p"] p(1)
      by (metis diff_less length_butlast length_greater_0_conv not_le zero_less_one)
    then show ?thesis by (simp add: sc)
  qed
  ultimately show ?thesis
    using True unfolding findEffectiveStrategy_eq eq
    by (cases "longestMatch (butlast p) ?P") auto
next
  case False
  have "longestMatch (take getMaxDepth n) (\<lambda>q. nt_sc q nt' \<noteq> None) =
      longestMatch (take getMaxDepth n) (\<lambda>q. nt_sc q nt \<noteq> None) \<and>
    longestMatch (take getMaxDepth n) (\<lambda>q. nt_sc q nt \<noteq> None) \<noteq> Some p"
    by (rule longestMatch_ungoverned [OF _ False]) (simp add: sc)
  then show ?thesis
    unfolding findEffectiveStrategy_eq using False sc
    by (cases "longestMatch (take getMaxDepth n) (\<lambda>q. nt_sc q nt \<noteq> None)") auto
qed

lemma effective_governed_eq:
  assumes "governed nt p (take getMaxDepth n)" and "length p \<le> getMaxDepth"
  shows "findEffectiveStrategy n nt = findEffectiveStrategy p nt"
proof -
  have p: "prefix p (take getMaxDepth n)" using assms(1) by (simp add: governed_def)
  have "longestMatch (take getMaxDepth n) (\<lambda>q. nt_sc q nt \<noteq> None) =
      longestMatch p (\<lambda>q. nt_sc q nt \<noteq> None)"
  proof (rule longestMatch_cut [OF p])
    show "\<not> nt_sc q nt \<noteq> None" if q: "prefix q (take getMaxDepth n)" "length p < length q" for q
    proof -
      have "prefix p q" using p q prefix_length_prefix less_imp_le by blast
      then show ?thesis using assms(1) q unfolding governed_def by auto
    qed
  qed
  then show ?thesis using assms(2) by (simp add: findEffectiveStrategy_eq)
qed

section \<open>Properties\<close>

definition infoCleared :: "name \<Rightarrow> nameTree \<Rightarrow> bool" where
  "infoCleared n nt \<longleftrightarrow>
     list_all (\<lambda>p. pe_info p = [] \<and> list_all (\<lambda>r. fr_info r = []) (pe_inRecords p) \<and>
                   list_all (\<lambda>r. fr_info r = []) (pe_outRecords p)) (nt_pits n nt) \<and>
     (case nt_meas n nt of None \<Rightarrow> True | Some m \<Rightarrow> me_info m = [])"

lemma changedTo_cleared:
  assumes "changedTo L reg p old x new nt nt'" and "\<not> areSameType L reg old new" and "governed nt p n"
  shows "infoCleared n nt'"
  using assms
  by (auto simp: changedTo_def infoCleared_def pe_clearInfo_def me_clearInfo_def clearStrategyInfo_def
      list_all_iff split: option.split)

lemma sc_insert_OK:
  assumes "sc_insert L reg p s (nt, k) = ((nt', k'), OK)"
  obtains inst where "length p \<le> getMaxDepth" and "strategy_create L reg s = Some (Inr inst)"
  using assms
  by (auto simp: sc_insert_def not_less split: if_splits option.splits sum.splits)



text \<open>A tree with the default strategy \<open>/s\<close> and a pending Interest \<open>/a\<close> that carries StrategyInfo.\<close>

definition exampleS :: name where "exampleS = [Component 8 ''s'', Component 54 [CHR 0x03]]"
definition exampleT :: name where "exampleT = [Component 8 ''t'', Component 54 [CHR 0x01]]"

definition scTree :: nameTree where
  "scTree = setStrategyChoiceEntry [] (Some \<lparr>sc_prefix = [], sc_strategy = exampleS\<rparr>)
     (setMeasurementsEntry [compA]
        (Some \<lparr>me_name = [compA], me_expiry = 0, me_cleanup = Some 0, me_info = [(1, RetxPitInfo 5)]\<rparr>)
        exampleTree)"

lemma scTree_sc: "nt_sc n scTree = (if n = [] then Some \<lparr>sc_prefix = [], sc_strategy = exampleS\<rparr> else None)"
  by (simp add: scTree_def exampleTree_eq nt_sc_def nt_get_def setStrategyChoiceEntry_def
      setMeasurementsEntry_def nt_update_def newNte_def)

lemma scTree_inv: "sc_inv (scTree, 1)"
proof -
  have "{n. nt_sc n scTree \<noteq> None} = {[]}" by (simp add: scTree_sc)
  then have "scCount scTree = 1" by (simp add: scCount_def)
  moreover have "nt_inv scTree" unfolding scTree_def by (intro nt_inv_setters exampleTree_inv)
  ultimately show ?thesis by (simp add: sc_inv_def scTree_sc)
qed

lemma scTree_effective: "findEffectiveStrategy n scTree = Some exampleS"
proof -
  have "longestMatch (take getMaxDepth n) (\<lambda>q. nt_sc q scTree \<noteq> None) = Some []"
    by (auto simp: longestMatch_Some_iff scTree_sc split: if_splits)
  then show ?thesis by (simp add: findEffectiveStrategy_eq scTree_sc)
qed

lemma example_types:
  "strategy_find canonicalLib exampleRegistry exampleS = Some (exampleS, Inr)"
  "strategy_find canonicalLib exampleRegistry exampleT = Some (exampleT, Inr)"
  by (simp_all add: strategy_find_def parseInstanceName_def exampleRegistry_def exampleS_def exampleT_def
      canonicalLib_def componentCompare_def thenCompare_def charCompare_def of_char_def Let_def)

lemma example_create: "strategy_create canonicalLib exampleRegistry exampleT = Some (Inr exampleT)"
  by (simp add: strategy_create_def example_types)

lemma exampleS_T: "\<not> areSameType canonicalLib exampleRegistry exampleS exampleT"
  by (simp add: areSameType_def example_types) (simp add: exampleS_def exampleT_def)

lemma governed_scTree: "governed scTree [compA] [compA]"
  by (auto simp: governed_def scTree_sc)



end
