(* ===== verification/CsEntry.thy ===== *)
theory CsEntry
  imports NdnTypes
begin

text \<open>
  \<^verbatim>\<open>daemon/table/cs-entry.hpp\<close> and \<^verbatim>\<open>cs-entry.cpp\<close>: an entry of the content store, and the
  table, a \<^verbatim>\<open>std::set\<close> ordered by \<^verbatim>\<open>operator<\<close> and searched by names. The table is the list
  of its elements in order; an iterator into it is the full name of the entry it refers to,
  since the order compares full names.
\<close>

section \<open>Entries\<close>

record cs_entry =
  ce_data :: data
  ce_unsolicited :: bool
  ce_freshUntil :: time

definition ce_key :: "cs_entry \<Rightarrow> name" where
  "ce_key e = d_fullName (ce_data e)"

definition isFresh :: "time \<Rightarrow> cs_entry \<Rightarrow> bool" where
  "isFresh now e \<longleftrightarrow> now \<le> ce_freshUntil e"

definition updateFreshUntil :: "time \<Rightarrow> cs_entry \<Rightarrow> cs_entry" where
  "updateFreshUntil now e = e\<lparr>ce_freshUntil := now + ms (d_freshnessPeriod (ce_data e))\<rparr>"

definition newCsEntry :: "time \<Rightarrow> data \<Rightarrow> bool \<Rightarrow> cs_entry" where
  "newCsEntry now d isUnsolicited =
     updateFreshUntil now \<lparr>ce_data = d, ce_unsolicited = isUnsolicited, ce_freshUntil = 0\<rparr>"

definition clearUnsolicited :: "cs_entry \<Rightarrow> cs_entry" where
  "clearUnsolicited e = e\<lparr>ce_unsolicited := False\<rparr>"

definition canSatisfy :: "ndn_lib \<Rightarrow> time \<Rightarrow> interest \<Rightarrow> cs_entry \<Rightarrow> bool" where
  "canSatisfy L now i e \<longleftrightarrow>
     (if \<not> matchesData L i (ce_data e) then False
      else if i_mustBeFresh i \<and> \<not> isFresh now e then False
      else True)"

text \<open>
  \<^verbatim>\<open>Component::compare\<close> is the comparison of the names that consist of the component alone.
\<close>

definition queryIsFullName :: "ndn_lib \<Rightarrow> name \<Rightarrow> bool" where
  "queryIsFullName L q \<longleftrightarrow> q \<noteq> [] \<and> isImplicitSha256Digest L (last q)"

definition compareQueryWithData :: "ndn_lib \<Rightarrow> name \<Rightarrow> data \<Rightarrow> int" where
  "compareQueryWithData L q d =
     (let cmp = (if queryIsFullName L q then compareName L (butlast q) (d_name d)
                 else compareName L q (d_name d))
      in if cmp \<noteq> 0 then cmp
         else if queryIsFullName L q then compareName L [last q] [last (d_fullName d)]
         else -1)"

definition compareDataWithData :: "ndn_lib \<Rightarrow> data \<Rightarrow> data \<Rightarrow> int" where
  "compareDataWithData L a b =
     (let cmp = compareName L (d_name a) (d_name b)
      in if cmp \<noteq> 0 then cmp else compareName L [last (d_fullName a)] [last (d_fullName b)])"

definition entryBelow :: "ndn_lib \<Rightarrow> name \<Rightarrow> cs_entry \<Rightarrow> bool" where
  "entryBelow L q e \<longleftrightarrow> compareQueryWithData L q (ce_data e) > 0"

definition entryLess :: "ndn_lib \<Rightarrow> cs_entry \<Rightarrow> cs_entry \<Rightarrow> bool" where
  "entryLess L a b \<longleftrightarrow> compareDataWithData L (ce_data a) (ce_data b) < 0"

section \<open>The table\<close>

type_synonym cs_table = "cs_entry list"

fun table_emplace :: "ndn_lib \<Rightarrow> cs_entry \<Rightarrow> cs_table \<Rightarrow> cs_table \<times> bool" where
  "table_emplace L e [] = ([e], True)"
| "table_emplace L e (x # xs) =
     (if entryLess L x e then (let (ys, isNew) = table_emplace L e xs in (x # ys, isNew))
      else if entryLess L e x then (e # x # xs, True)
      else (x # xs, False))"

definition lowerBound :: "ndn_lib \<Rightarrow> name \<Rightarrow> cs_table \<Rightarrow> nat" where
  "lowerBound L q t = length (takeWhile (entryBelow L q) t)"

definition table_get :: "name \<Rightarrow> cs_table \<Rightarrow> cs_entry option" where
  "table_get i t = find (\<lambda>e. ce_key e = i) t"

definition table_update :: "name \<Rightarrow> (cs_entry \<Rightarrow> cs_entry) \<Rightarrow> cs_table \<Rightarrow> cs_table" where
  "table_update i f t = updateFirst (\<lambda>e. ce_key e = i) f t"

definition table_erase :: "name \<Rightarrow> cs_table \<Rightarrow> cs_table" where
  "table_erase i t = removeFirst (\<lambda>e. ce_key e = i) t"

definition table_keys :: "cs_table \<Rightarrow> name set" where
  "table_keys t = set (map ce_key t)"

section \<open>Laws of the packet library the table relies on\<close>

text \<open>
  Names that differ in the last component compare as these components do; the successor of a
  name differs from it in the last component, which is a digest if that of the name is one.
\<close>

locale cs_lib_laws = ndn_lib_laws +
  assumes compare_last: "compareName L (n @ [a]) (n @ [b]) < 0 \<longleftrightarrow> compareName L [a] [b] < 0"
    and successor_last: "n \<noteq> [] \<Longrightarrow> getSuccessor L n \<noteq> [] \<and> butlast (getSuccessor L n) = butlast n \<and>
      (isImplicitSha256Digest L (last (getSuccessor L n)) \<longrightarrow> isImplicitSha256Digest L (last n))"
begin

lemma entryLess_iff:
  "entryLess L a b \<longleftrightarrow>
     compareName L (d_name (ce_data a)) (d_name (ce_data b)) < 0 \<or>
     d_name (ce_data a) = d_name (ce_data b) \<and> compareName L [d_digest (ce_data a)] [d_digest (ce_data b)] < 0"
  by (auto simp: entryLess_def compareDataWithData_def Let_def d_fullName_def compare_eq)

lemma entryLess_trans: "entryLess L a b \<Longrightarrow> entryLess L b c \<Longrightarrow> entryLess L a c"
  unfolding entryLess_iff using compare_trans by metis

lemma entryLess_asym: "entryLess L a b \<Longrightarrow> \<not> entryLess L b a"
  unfolding entryLess_iff using compare_asym by (metis compare_refl less_irrefl)

lemma ce_key_eq_iff:
  "ce_key a = ce_key b \<longleftrightarrow> d_name (ce_data a) = d_name (ce_data b) \<and> d_digest (ce_data a) = d_digest (ce_data b)"
  by (auto simp: ce_key_def d_fullName_def)

lemma entryLess_total: "entryLess L a b \<or> entryLess L b a \<or> ce_key a = ce_key b"
  unfolding entryLess_iff ce_key_eq_iff
  using compare_total [of "d_name (ce_data a)" "d_name (ce_data b)"]
    compare_total [of "[d_digest (ce_data a)]" "[d_digest (ce_data b)]"] by auto

lemma entryLess_key_cong:
  "ce_key a = ce_key a' \<Longrightarrow> ce_key b = ce_key b' \<Longrightarrow> entryLess L a b = entryLess L a' b'"
  by (simp add: entryLess_iff ce_key_eq_iff)

lemma entryLess_neq: "entryLess L a b \<Longrightarrow> ce_key a \<noteq> ce_key b"
  using entryLess_asym entryLess_key_cong by metis

lemma sorted_distinct: "sorted_wrt (entryLess L) t \<Longrightarrow> distinct (map ce_key t)"
  by (induction t) (auto dest: entryLess_neq)

text \<open>The entries below a query come first.\<close>

lemma entryBelow_iff:
  "entryBelow L q e \<longleftrightarrow>
     (if queryIsFullName L q
      then compareName L (d_name (ce_data e)) (butlast q) < 0 \<or>
           d_name (ce_data e) = butlast q \<and> compareName L [d_digest (ce_data e)] [last q] < 0
      else compareName L (d_name (ce_data e)) q < 0)"
  using compare_eq compare_antisym
  by (auto simp: entryBelow_def compareQueryWithData_def Let_def d_fullName_def)

lemma entryBelow_downward: "entryLess L a b \<Longrightarrow> entryBelow L q b \<Longrightarrow> entryBelow L q a"
  unfolding entryLess_iff entryBelow_iff using compare_trans by (metis (full_types))

lemma lowerBound_split:
  assumes "sorted_wrt (entryLess L) t"
  shows "take (lowerBound L q t) t = filter (entryBelow L q) t"
    and "drop (lowerBound L q t) t = filter (\<lambda>e. \<not> entryBelow L q e) t"
proof -
  have *: "takeWhile (entryBelow L q) t = filter (entryBelow L q) t \<and>
      dropWhile (entryBelow L q) t = filter (\<lambda>e. \<not> entryBelow L q e) t"
    using assms
  proof (induction t)
    case (Cons e t)
    have "\<not> entryBelow L q e \<Longrightarrow> \<not> entryBelow L q x" if "x \<in> set t" for x
      using Cons.prems that entryBelow_downward [of e x] by auto
    then have "\<not> entryBelow L q e \<Longrightarrow> filter (entryBelow L q) t = [] \<and> filter (\<lambda>e. \<not> entryBelow L q e) t = t"
      by (auto simp: filter_empty_conv filter_id_conv)
    then show ?case using Cons by auto
  qed simp
  then show "take (lowerBound L q t) t = filter (entryBelow L q) t"
    by (metis lowerBound_def takeWhile_eq_take)
  from * show "drop (lowerBound L q t) t = filter (\<lambda>e. \<not> entryBelow L q e) t"
    by (metis lowerBound_def dropWhile_eq_drop)
qed

text \<open>Insertion keeps the order, and inserts unless an entry with the full name is there.\<close>

lemma table_emplace_spec:
  assumes "sorted_wrt (entryLess L) t"
  shows "sorted_wrt (entryLess L) (fst (table_emplace L e t))"
    and "snd (table_emplace L e t) \<longleftrightarrow> ce_key e \<notin> table_keys t"
    and "set (fst (table_emplace L e t)) = (if ce_key e \<in> table_keys t then set t else insert e (set t))"
    and "length (fst (table_emplace L e t)) = (if ce_key e \<in> table_keys t then length t else Suc (length t))"
proof -
  have "sorted_wrt (entryLess L) (fst (table_emplace L e t)) \<and>
    (snd (table_emplace L e t) \<longleftrightarrow> ce_key e \<notin> table_keys t) \<and>
    set (fst (table_emplace L e t)) = (if ce_key e \<in> table_keys t then set t else insert e (set t)) \<and>
    length (fst (table_emplace L e t)) = (if ce_key e \<in> table_keys t then length t else Suc (length t))"
    using assms
  proof (induction t)
    case (Cons x t)
    have x: "\<forall>y \<in> set t. entryLess L x y" and s: "sorted_wrt (entryLess L) t" using Cons.prems by auto
    consider (lt) "entryLess L x e" | (gt) "entryLess L e x" "\<not> entryLess L x e" | (eq) "ce_key e = ce_key x"
      "\<not> entryLess L x e" "\<not> entryLess L e x"
      using entryLess_total [of x e] entryLess_neq [of x e] by metis
    then show ?case
    proof cases
      case lt
      then have "ce_key e \<noteq> ce_key x" using entryLess_neq by metis
      then show ?thesis using Cons.IH [OF s] lt x by (auto simp: split_def table_keys_def)
    next
      case gt
      have all: "\<forall>y \<in> set (x # t). entryLess L e y" using gt x entryLess_trans by auto
      then have "ce_key e \<notin> table_keys (x # t)" using entryLess_neq by (fastforce simp: table_keys_def)
      then show ?thesis using gt all x s by (auto simp: table_keys_def)
    next
      case eq
      then show ?thesis using x s by (simp add: table_keys_def)
    qed
  qed (simp add: table_keys_def)
  then show "sorted_wrt (entryLess L) (fst (table_emplace L e t))"
    "snd (table_emplace L e t) \<longleftrightarrow> ce_key e \<notin> table_keys t"
    "set (fst (table_emplace L e t)) = (if ce_key e \<in> table_keys t then set t else insert e (set t))"
    "length (fst (table_emplace L e t)) = (if ce_key e \<in> table_keys t then length t else Suc (length t))"
    by blast+
qed

end

lemma lexCompare_append:
  assumes "\<And>a. cmp a a = 0"
  shows "lexCompare cmp (n @ a) (n @ b) = lexCompare cmp a b"
  using assms by (induction n) auto

interpretation canonical_cs: cs_lib_laws canonicalLib
proof unfold_locales
  fix n a b
  have "lexCompare componentCompare (n @ [a]) (n @ [b]) = lexCompare componentCompare [a] [b]"
    by (rule lexCompare_append) (simp add: componentCompare.cmp_eq)
  then show "compareName canonicalLib (n @ [a]) (n @ [b]) < 0 \<longleftrightarrow> compareName canonicalLib [a] [b] < 0"
    by (simp add: canonicalLib_def)
next
  fix n :: name
  assume "n \<noteq> []"
  then show "getSuccessor canonicalLib n \<noteq> [] \<and> butlast (getSuccessor canonicalLib n) = butlast n \<and>
      (isImplicitSha256Digest canonicalLib (last (getSuccessor canonicalLib n)) \<longrightarrow>
       isImplicitSha256Digest canonicalLib (last n))"
    by (simp add: canonicalLib_def nameSuccessor_def componentSuccessor_def)
qed

end
