(* ===== verification/CsPolicy.thy ===== *)
theory CsPolicy
  imports CsEntry "HOL-Library.Monad_Syntax"
begin

text \<open>
  The replacement policies of the content store: \<^verbatim>\<open>daemon/table/cs-policy.hpp\<close> (the virtual
  functions of \<^verbatim>\<open>Policy\<close>), \<^verbatim>\<open>cs-policy-lru.cpp\<close> and \<^verbatim>\<open>cs-policy-priority-fifo.cpp\<close>. A policy
  works on its own state and on the table, whose entries it removes through the
  \<^verbatim>\<open>beforeEvict\<close> signal. \<open>None\<close> is a failed assertion, an access through an invalid
  iterator, or a loop that does not end.
\<close>

section \<open>The virtual functions of a policy\<close>

record 'p policy_ops =
  po_doAfterInsert :: "time \<Rightarrow> nat \<Rightarrow> name \<Rightarrow> 'p \<times> cs_table \<Rightarrow> ('p \<times> cs_table) option"
  po_doAfterRefresh :: "time \<Rightarrow> name \<Rightarrow> 'p \<times> cs_table \<Rightarrow> 'p option"
  po_doBeforeErase :: "name \<Rightarrow> 'p \<Rightarrow> 'p option"
  po_doBeforeUse :: "name \<Rightarrow> 'p \<Rightarrow> 'p option"
  po_evictEntries :: "nat \<Rightarrow> 'p \<times> cs_table \<Rightarrow> ('p \<times> cs_table) option"

section \<open>Least recently used\<close>

text \<open>The queue is a \<^verbatim>\<open>multi_index_container\<close>: a sequence with a unique index.\<close>

definition lru_insertToQueue :: "name \<Rightarrow> bool \<Rightarrow> name list \<Rightarrow> name list option" where
  "lru_insertToQueue i isNewEntry q =
     (let isNew = i \<notin> set q; q1 = (if isNew then q @ [i] else q)
      in if isNew \<noteq> isNewEntry then None
         else if \<not> isNewEntry then Some (remove1 i q1 @ [i]) else Some q1)"

partial_function (option) lru_evictEntries :: "nat \<Rightarrow> name list \<times> cs_table \<Rightarrow> (name list \<times> cs_table) option" where
  "lru_evictEntries limit s =
     (if limit < length (snd s)
      then (case fst s of [] \<Rightarrow> None | i # q \<Rightarrow> lru_evictEntries limit (q, table_erase i (snd s)))
      else Some s)"

definition lru_doAfterInsert :: "time \<Rightarrow> nat \<Rightarrow> name \<Rightarrow> name list \<times> cs_table \<Rightarrow> (name list \<times> cs_table) option" where
  "lru_doAfterInsert now limit i s = do {
     q \<leftarrow> lru_insertToQueue i True (fst s);
     lru_evictEntries limit (q, snd s) }"

definition lru_doAfterRefresh :: "time \<Rightarrow> name \<Rightarrow> name list \<times> cs_table \<Rightarrow> name list option" where
  "lru_doAfterRefresh now i s = lru_insertToQueue i False (fst s)"

definition lru_doBeforeErase :: "name \<Rightarrow> name list \<Rightarrow> name list option" where
  "lru_doBeforeErase i q = Some (remove1 i q)"

definition lru_doBeforeUse :: "name \<Rightarrow> name list \<Rightarrow> name list option" where
  "lru_doBeforeUse i q = lru_insertToQueue i False q"

definition lruOps :: "name list policy_ops" where
  "lruOps = \<lparr>po_doAfterInsert = lru_doAfterInsert, po_doAfterRefresh = lru_doAfterRefresh,
     po_doBeforeErase = lru_doBeforeErase, po_doBeforeUse = lru_doBeforeUse,
     po_evictEntries = lru_evictEntries\<rparr>"

section \<open>Priority FIFO\<close>

text \<open>
  An \<^verbatim>\<open>EntryInfo\<close> has the queue the entry is in and the time its \<^verbatim>\<open>moveStaleEventId\<close> is
  scheduled for; its \<^verbatim>\<open>queueIt\<close> is the position of the entry in that queue.
\<close>

datatype queueType = QUEUE_UNSOLICITED | QUEUE_STALE | QUEUE_FIFO

record entryInfo =
  ei_queueType :: queueType
  ei_moveStaleEvent :: "time option"

record pfPolicy =
  pf_queues :: "queueType \<Rightarrow> name list"
  pf_entryInfoMap :: "name \<rightharpoonup> entryInfo"

definition newPfPolicy :: pfPolicy where
  "newPfPolicy = \<lparr>pf_queues = (\<lambda>_. []), pf_entryInfoMap = Map.empty\<rparr>"

definition pf_newEntryInfo :: "time \<Rightarrow> cs_entry \<Rightarrow> entryInfo" where
  "pf_newEntryInfo now e =
     (if ce_unsolicited e then \<lparr>ei_queueType = QUEUE_UNSOLICITED, ei_moveStaleEvent = None\<rparr>
      else if \<not> isFresh now e then \<lparr>ei_queueType = QUEUE_STALE, ei_moveStaleEvent = None\<rparr>
      else \<lparr>ei_queueType = QUEUE_FIFO, ei_moveStaleEvent = Some (now + ms (d_freshnessPeriod (ce_data e)))\<rparr>)"

definition pf_attachQueue :: "time \<Rightarrow> name \<Rightarrow> pfPolicy \<times> cs_table \<Rightarrow> pfPolicy option" where
  "pf_attachQueue now i = (\<lambda>(p, t).
     (if pf_entryInfoMap p i \<noteq> None then None
      else case table_get i t of
        None \<Rightarrow> None
      | Some e \<Rightarrow>
          let info = pf_newEntryInfo now e; q = ei_queueType info
          in Some (p\<lparr>pf_queues := (pf_queues p)(q := pf_queues p q @ [i]),
                    pf_entryInfoMap := (pf_entryInfoMap p)(i \<mapsto> info)\<rparr>)))"

definition pf_detachQueue :: "name \<Rightarrow> pfPolicy \<Rightarrow> pfPolicy option" where
  "pf_detachQueue i p =
     (case pf_entryInfoMap p i of
        None \<Rightarrow> None
      | Some info \<Rightarrow>
          let q = ei_queueType info
          in Some (p\<lparr>pf_queues := (pf_queues p)(q := remove1 i (pf_queues p q)),
                    pf_entryInfoMap := (pf_entryInfoMap p)(i := None)\<rparr>))"

definition pf_moveToStaleQueue :: "name \<Rightarrow> pfPolicy \<Rightarrow> pfPolicy option" where
  "pf_moveToStaleQueue i p =
     (case pf_entryInfoMap p i of
        None \<Rightarrow> None
      | Some info \<Rightarrow>
          if ei_queueType info \<noteq> QUEUE_FIFO then None
          else let qs = (pf_queues p)(QUEUE_FIFO := remove1 i (pf_queues p QUEUE_FIFO))
               in Some (p\<lparr>pf_queues := qs(QUEUE_STALE := qs QUEUE_STALE @ [i]),
                         pf_entryInfoMap := (pf_entryInfoMap p)(i \<mapsto>
                           \<lparr>ei_queueType = QUEUE_STALE, ei_moveStaleEvent = None\<rparr>)\<rparr>))"

definition pf_evictOne :: "pfPolicy \<times> cs_table \<Rightarrow> (pfPolicy \<times> cs_table) option" where
  "pf_evictOne = (\<lambda>(p, t). do {
     i \<leftarrow> (if pf_queues p QUEUE_UNSOLICITED \<noteq> [] then Some (hd (pf_queues p QUEUE_UNSOLICITED))
           else if pf_queues p QUEUE_STALE \<noteq> [] then Some (hd (pf_queues p QUEUE_STALE))
           else if pf_queues p QUEUE_FIFO \<noteq> [] then Some (hd (pf_queues p QUEUE_FIFO))
           else None);
     p' \<leftarrow> pf_detachQueue i p;
     Some (p', table_erase i t) })"

partial_function (option) pf_evictEntries :: "nat \<Rightarrow> pfPolicy \<times> cs_table \<Rightarrow> (pfPolicy \<times> cs_table) option" where
  "pf_evictEntries limit s =
     (if limit < length (snd s)
      then (case pf_evictOne s of None \<Rightarrow> None | Some s' \<Rightarrow> pf_evictEntries limit s')
      else Some s)"

definition pf_doAfterInsert :: "time \<Rightarrow> nat \<Rightarrow> name \<Rightarrow> pfPolicy \<times> cs_table \<Rightarrow> (pfPolicy \<times> cs_table) option" where
  "pf_doAfterInsert now limit i s = do {
     p \<leftarrow> pf_attachQueue now i s;
     pf_evictEntries limit (p, snd s) }"

definition pf_doAfterRefresh :: "time \<Rightarrow> name \<Rightarrow> pfPolicy \<times> cs_table \<Rightarrow> pfPolicy option" where
  "pf_doAfterRefresh now i s = do {
     p \<leftarrow> pf_detachQueue i (fst s);
     pf_attachQueue now i (p, snd s) }"

definition pf_doBeforeErase :: "name \<Rightarrow> pfPolicy \<Rightarrow> pfPolicy option" where
  "pf_doBeforeErase i p = pf_detachQueue i p"

definition pf_doBeforeUse :: "name \<Rightarrow> pfPolicy \<Rightarrow> pfPolicy option" where
  "pf_doBeforeUse i p = (if pf_entryInfoMap p i \<noteq> None then Some p else None)"

definition pfOps :: "pfPolicy policy_ops" where
  "pfOps = \<lparr>po_doAfterInsert = pf_doAfterInsert, po_doAfterRefresh = pf_doAfterRefresh,
     po_doBeforeErase = pf_doBeforeErase, po_doBeforeUse = pf_doBeforeUse,
     po_evictEntries = pf_evictEntries\<rparr>"

section \<open>Policies by name\<close>

text \<open>
  The objects \<^verbatim>\<open>Policy::create\<close> makes, and the dispatch of the virtual functions on them.
\<close>

datatype policy = LruPolicy "name list" | PriorityFifoPolicy pfPolicy

definition policy_create :: "string \<Rightarrow> policy option" where
  "policy_create policyName =
     map_of [(''lru'', LruPolicy []), (''priority_fifo'', PriorityFifoPolicy newPfPolicy)] policyName"

definition policy_getName :: "policy \<Rightarrow> string" where
  "policy_getName p = (case p of LruPolicy _ \<Rightarrow> ''lru'' | PriorityFifoPolicy _ \<Rightarrow> ''priority_fifo'')"

definition policyOps :: "policy policy_ops" where
  "policyOps = \<lparr>
     po_doAfterInsert = (\<lambda>now limit i (p, t). case p of
        LruPolicy q \<Rightarrow> map_option (apfst LruPolicy) (lru_doAfterInsert now limit i (q, t))
      | PriorityFifoPolicy f \<Rightarrow> map_option (apfst PriorityFifoPolicy) (pf_doAfterInsert now limit i (f, t))),
     po_doAfterRefresh = (\<lambda>now i (p, t). case p of
        LruPolicy q \<Rightarrow> map_option LruPolicy (lru_doAfterRefresh now i (q, t))
      | PriorityFifoPolicy f \<Rightarrow> map_option PriorityFifoPolicy (pf_doAfterRefresh now i (f, t))),
     po_doBeforeErase = (\<lambda>i p. case p of
        LruPolicy q \<Rightarrow> map_option LruPolicy (lru_doBeforeErase i q)
      | PriorityFifoPolicy f \<Rightarrow> map_option PriorityFifoPolicy (pf_doBeforeErase i f)),
     po_doBeforeUse = (\<lambda>i p. case p of
        LruPolicy q \<Rightarrow> map_option LruPolicy (lru_doBeforeUse i q)
      | PriorityFifoPolicy f \<Rightarrow> map_option PriorityFifoPolicy (pf_doBeforeUse i f)),
     po_evictEntries = (\<lambda>limit (p, t). case p of
        LruPolicy q \<Rightarrow> map_option (apfst LruPolicy) (lru_evictEntries limit (q, t))
      | PriorityFifoPolicy f \<Rightarrow> map_option (apfst PriorityFifoPolicy) (pf_evictEntries limit (f, t)))\<rparr>"

section \<open>The contract of a policy\<close>

text \<open>
  A policy keeps track of a set of entries. Told of every insertion, refresh, use and removal,
  it tracks the entries of the table, and evicting leaves as many of them as the limit allows.
\<close>

definition evictedTo :: "nat \<Rightarrow> cs_table \<Rightarrow> cs_table \<Rightarrow> bool" where
  "evictedTo limit t t' \<longleftrightarrow> subseq t' t \<and> length t' = min limit (length t)"

locale cs_policy_laws =
  fixes ops :: "'p policy_ops" and tracks :: "'p \<Rightarrow> name set \<Rightarrow> bool"
  assumes evict_law: "tracks p (table_keys t) \<Longrightarrow> distinct (map ce_key t) \<Longrightarrow>
      \<exists>p' t'. po_evictEntries ops limit (p, t) = Some (p', t') \<and> tracks p' (table_keys t') \<and> evictedTo limit t t'"
    and insert_law: "tracks p (table_keys t - {i}) \<Longrightarrow> i \<in> table_keys t \<Longrightarrow> distinct (map ce_key t) \<Longrightarrow>
      \<exists>p' t'. po_doAfterInsert ops now limit i (p, t) = Some (p', t') \<and> tracks p' (table_keys t') \<and> evictedTo limit t t'"
    and refresh_law: "tracks p (table_keys t) \<Longrightarrow> i \<in> table_keys t \<Longrightarrow> distinct (map ce_key t) \<Longrightarrow>
      \<exists>p'. po_doAfterRefresh ops now i (p, t) = Some p' \<and> tracks p' (table_keys t)"
    and erase_law: "tracks p S \<Longrightarrow> i \<in> S \<Longrightarrow> \<exists>p'. po_doBeforeErase ops i p = Some p' \<and> tracks p' (S - {i})"
    and use_law: "tracks p S \<Longrightarrow> i \<in> S \<Longrightarrow> \<exists>p'. po_doBeforeUse ops i p = Some p' \<and> tracks p' S"

lemma table_erase_facts:
  assumes "distinct (map ce_key t)"
  shows "table_keys (table_erase i t) = table_keys t - {i}"
    and "distinct (map ce_key (table_erase i t))"
    and "subseq (table_erase i t) t"
    and "i \<in> table_keys t \<Longrightarrow> Suc (length (table_erase i t)) = length t"
proof -
  have e: "table_erase i t = filter (\<lambda>e. ce_key e \<noteq> i) t"
    using assms by (simp add: table_erase_def removeFirst_key_filter)
  show "table_keys (table_erase i t) = table_keys t - {i}" by (auto simp: e table_keys_def)
  show "distinct (map ce_key (table_erase i t))" by (simp add: e assms distinct_map_filter)
  show "subseq (table_erase i t) t" by (simp add: e)
  show "i \<in> table_keys t \<Longrightarrow> Suc (length (table_erase i t)) = length t"
    by (auto simp: table_erase_def length_removeFirst table_keys_def neq_Nil_conv dest!: split_list)
qed

lemma card_table_keys: "distinct (map ce_key t) \<Longrightarrow> card (table_keys t) = length t"
  by (metis distinct_card length_map table_keys_def)

lemma evictedTo_refl: "length t \<le> limit \<Longrightarrow> evictedTo limit t t"
  by (simp add: evictedTo_def)

lemma evictedTo_keys: "evictedTo limit t t' \<Longrightarrow> table_keys t' \<subseteq> table_keys t"
  by (auto simp: evictedTo_def table_keys_def dest: list_emb_set)

lemma evictedTo_erase:
  assumes "distinct (map ce_key t)" "i \<in> table_keys t" "limit < length t" "evictedTo limit (table_erase i t) t'"
  shows "evictedTo limit t t'"
  using assms(3,4) table_erase_facts(3,4) [OF assms(1), of i] assms(2)
  by (auto simp: evictedTo_def intro: subseq_order.trans)

subsection \<open>LRU implements it\<close>

definition lru_tracks :: "name list \<Rightarrow> name set \<Rightarrow> bool" where
  "lru_tracks q S \<longleftrightarrow> distinct q \<and> set q = S"

text \<open>Eviction takes the front of the queue.\<close>

lemma lru_evict_spec:
  assumes "lru_tracks q (table_keys t)" and "distinct (map ce_key t)"
  shows "\<exists>t'. lru_evictEntries limit (q, t) = Some (drop (length t - limit) q, t') \<and>
    table_keys t' = set (drop (length t - limit) q) \<and> evictedTo limit t t'"
  using assms
proof (induction "length t - limit" arbitrary: q t)
  case 0
  then show ?case by (subst lru_evictEntries.simps) (auto simp: lru_tracks_def intro: evictedTo_refl)
next
  case (Suc k)
  have len: "length q = length t"
    using Suc.prems card_table_keys distinct_card unfolding lru_tracks_def by metis
  then obtain i q' where q: "q = i # q'" using Suc.hyps(2) by (cases q) auto
  have i: "i \<in> table_keys t" and q': "lru_tracks q' (table_keys (table_erase i t))"
    using Suc.prems table_erase_facts(1) [OF Suc.prems(2)] by (auto simp: lru_tracks_def q)
  note e = table_erase_facts [OF Suc.prems(2), of i]
  have k: "k = length (table_erase i t) - limit" using e(4) [OF i] Suc.hyps(2) by simp
  from Suc.hyps(1) [OF k q' e(2)] obtain t' where
    t': "lru_evictEntries limit (q', table_erase i t) = Some (drop k q', t')"
    "table_keys t' = set (drop k q')" "evictedTo limit (table_erase i t) t'"
    unfolding k [symmetric] by blast
  have lt: "limit < length t" using Suc.hyps(2) by simp
  have "lru_evictEntries limit (q, t) = Some (drop (length t - limit) q, t')"
    using lt t'(1) by (subst lru_evictEntries.simps) (simp add: q Suc.hyps(2) [symmetric])
  then show ?case
    using t'(2) evictedTo_erase [OF Suc.prems(2) i lt t'(3)] by (simp add: q Suc.hyps(2) [symmetric])
qed

interpretation lru: cs_policy_laws lruOps lru_tracks
proof
  fix p t limit i now S
  show ev: "\<exists>p' t'. po_evictEntries lruOps limit (p, t) = Some (p', t') \<and> lru_tracks p' (table_keys t') \<and> evictedTo limit t t'"
    if "lru_tracks p (table_keys t)" "distinct (map ce_key t)" for p limit
    using lru_evict_spec [OF that, of limit] that(1) by (auto simp: lruOps_def lru_tracks_def)
  show "\<exists>p' t'. po_doAfterInsert lruOps now limit i (p, t) = Some (p', t') \<and> lru_tracks p' (table_keys t') \<and> evictedTo limit t t'"
    if "lru_tracks p (table_keys t - {i})" "i \<in> table_keys t" "distinct (map ce_key t)"
  proof -
    have "lru_tracks (p @ [i]) (table_keys t)" "i \<notin> set p" using that(1,2) by (auto simp: lru_tracks_def)
    then show ?thesis using ev [of "p @ [i]"] that(3)
      by (simp add: lruOps_def lru_doAfterInsert_def lru_insertToQueue_def)
  qed
  show "\<exists>p'. po_doAfterRefresh lruOps now i (p, t) = Some p' \<and> lru_tracks p' (table_keys t)"
    if "lru_tracks p (table_keys t)" "i \<in> table_keys t" "distinct (map ce_key t)"
    using that by (auto simp: lruOps_def lru_doAfterRefresh_def lru_insertToQueue_def lru_tracks_def)
  show "\<exists>p'. po_doBeforeErase lruOps i p = Some p' \<and> lru_tracks p' (S - {i})"
    if "lru_tracks p S" "i \<in> S"
    using that by (auto simp: lruOps_def lru_doBeforeErase_def lru_tracks_def)
  show "\<exists>p'. po_doBeforeUse lruOps i p = Some p' \<and> lru_tracks p' S"
    if "lru_tracks p S" "i \<in> S"
    using that by (auto simp: lruOps_def lru_doBeforeUse_def lru_insertToQueue_def lru_tracks_def)
qed

subsection \<open>Priority FIFO implements it\<close>

text \<open>
  Every entry is in exactly one queue, the one its \<^verbatim>\<open>EntryInfo\<close> names, and an event is pending
  only for an entry of the FIFO queue.
\<close>

definition pf_tracks :: "pfPolicy \<Rightarrow> name set \<Rightarrow> bool" where
  "pf_tracks p S \<longleftrightarrow> dom (pf_entryInfoMap p) = S \<and>
     (\<forall>q. distinct (pf_queues p q) \<and>
          set (pf_queues p q) = {i. \<exists>info. pf_entryInfoMap p i = Some info \<and> ei_queueType info = q}) \<and>
     (\<forall>i info. pf_entryInfoMap p i = Some info \<longrightarrow> ei_moveStaleEvent info \<noteq> None \<longrightarrow> ei_queueType info = QUEUE_FIFO)"

lemma pf_newEntryInfo_event: "ei_moveStaleEvent (pf_newEntryInfo now e) = Some x \<Longrightarrow> ei_queueType (pf_newEntryInfo now e) = QUEUE_FIFO"
  by (auto simp: pf_newEntryInfo_def split: if_splits)

lemma pf_detach_spec:
  assumes "pf_tracks p S" and "i \<in> S"
  shows "\<exists>p'. pf_detachQueue i p = Some p' \<and> pf_tracks p' (S - {i}) \<and>
    pf_entryInfoMap p' = (pf_entryInfoMap p)(i := None)"
proof -
  obtain info where "pf_entryInfoMap p i = Some info" using assms by (auto simp: pf_tracks_def)
  then show ?thesis using assms by (auto simp: pf_detachQueue_def Let_def pf_tracks_def)
qed

lemma pf_attach_spec:
  assumes "pf_tracks p S" and "i \<notin> S" and "table_get i t = Some e"
  shows "\<exists>p'. pf_attachQueue now i (p, t) = Some p' \<and> pf_tracks p' (insert i S) \<and>
    pf_entryInfoMap p' = (pf_entryInfoMap p)(i \<mapsto> pf_newEntryInfo now e)"
proof -
  have "pf_entryInfoMap p i = None" using assms by (auto simp: pf_tracks_def domIff)
  moreover have "i \<notin> set (pf_queues p q)" for q using assms(1) calculation by (auto simp: pf_tracks_def)
  ultimately show ?thesis using assms(1,3) unfolding pf_tracks_def
    by (auto simp: pf_attachQueue_def Let_def pf_newEntryInfo_event)
qed

lemma table_get_Some: "i \<in> table_keys t \<Longrightarrow> \<exists>e. table_get i t = Some e \<and> e \<in> set t \<and> ce_key e = i"
  by (cases "table_get i t") (auto simp: table_get_def table_keys_def find_None_iff find_Some_iff)

definition pf_rank :: "queueType \<Rightarrow> nat" where
  "pf_rank q = (case q of QUEUE_UNSOLICITED \<Rightarrow> 0 | QUEUE_STALE \<Rightarrow> 1 | QUEUE_FIFO \<Rightarrow> 2)"

definition pf_rankOf :: "pfPolicy \<Rightarrow> name \<Rightarrow> nat" where
  "pf_rankOf p i = (case pf_entryInfoMap p i of None \<Rightarrow> 3 | Some info \<Rightarrow> pf_rank (ei_queueType info))"

lemma pf_evictOne_spec:
  assumes tr: "pf_tracks p (table_keys t)" and ne: "t \<noteq> []"
  shows "\<exists>i p'. pf_evictOne (p, t) = Some (p', table_erase i t) \<and> i \<in> table_keys t \<and>
    pf_tracks p' (table_keys t - {i}) \<and> pf_entryInfoMap p' = (pf_entryInfoMap p)(i := None) \<and>
    (\<forall>j. pf_rankOf p i \<le> pf_rankOf p j)"
proof -
  have q: "set (pf_queues p q) = {i. \<exists>info. pf_entryInfoMap p i = Some info \<and> ei_queueType info = q}" for q
    using tr by (simp add: pf_tracks_def)
  let ?q = "if pf_queues p QUEUE_UNSOLICITED \<noteq> [] then QUEUE_UNSOLICITED
    else if pf_queues p QUEUE_STALE \<noteq> [] then QUEUE_STALE else QUEUE_FIFO"
  have "dom (pf_entryInfoMap p) \<noteq> {}" using ne tr by (simp add: table_keys_def pf_tracks_def)
  then obtain j info where "pf_entryInfoMap p j = Some info" by blast
  then have j: "j \<in> set (pf_queues p (ei_queueType info))" using q by auto
  have nonempty: "pf_queues p ?q \<noteq> []"
    using j by (cases "ei_queueType info") auto
  define i where "i = hd (pf_queues p ?q)"
  have "i \<in> set (pf_queues p ?q)" using nonempty by (simp add: i_def)
  then obtain inf where inf: "pf_entryInfoMap p i = Some inf" "ei_queueType inf = ?q" using q by auto
  then have i: "i \<in> table_keys t" using tr by (auto simp: pf_tracks_def)
  obtain p' where p': "pf_detachQueue i p = Some p'" "pf_tracks p' (table_keys t - {i})"
    "pf_entryInfoMap p' = (pf_entryInfoMap p)(i := None)" using pf_detach_spec [OF tr i] by blast
  have "pf_evictOne (p, t) = Some (p', table_erase i t)"
    using p'(1) nonempty by (simp add: pf_evictOne_def i_def split: if_splits)
  moreover have "pf_rankOf p i \<le> pf_rankOf p k" for k
  proof (cases "pf_entryInfoMap p k")
    case None
    then show ?thesis using inf by (simp add: pf_rankOf_def pf_rank_def split: queueType.split)
  next
    case (Some info)
    then have "k \<in> set (pf_queues p (ei_queueType info))" using q by auto
    then show ?thesis using Some inf
      by (cases "ei_queueType info") (auto simp: pf_rankOf_def pf_rank_def)
  qed
  ultimately show ?thesis using i p' by blast
qed

lemma pf_evict_spec:
  assumes "pf_tracks p (table_keys t)" and "distinct (map ce_key t)"
  shows "\<exists>p' t'. pf_evictEntries limit (p, t) = Some (p', t') \<and> pf_tracks p' (table_keys t') \<and>
    evictedTo limit t t' \<and> pf_entryInfoMap p' = (pf_entryInfoMap p) |` table_keys t' \<and>
    (\<forall>v \<in> table_keys t - table_keys t'. \<forall>e \<in> table_keys t'. pf_rankOf p v \<le> pf_rankOf p e)"
  using assms
proof (induction "length t - limit" arbitrary: p t)
  case 0
  have "dom (pf_entryInfoMap p) = table_keys t" using 0 by (simp add: pf_tracks_def)
  then have "pf_entryInfoMap p |` table_keys t = pf_entryInfoMap p"
    by (metis domIff ext restrict_map_def)
  with 0 show ?case by (subst pf_evictEntries.simps) (auto intro: evictedTo_refl)
next
  case (Suc k)
  have lt: "limit < length t" and "t \<noteq> []" using Suc.hyps(2) by auto
  obtain i p1 where one: "pf_evictOne (p, t) = Some (p1, table_erase i t)" "i \<in> table_keys t"
    "pf_tracks p1 (table_keys t - {i})" "pf_entryInfoMap p1 = (pf_entryInfoMap p)(i := None)"
    "\<forall>j. pf_rankOf p i \<le> pf_rankOf p j"
    using pf_evictOne_spec [OF Suc.prems(1) \<open>t \<noteq> []\<close>] by blast
  note e = table_erase_facts [OF Suc.prems(2), of i]
  have k: "k = length (table_erase i t) - limit" using e(4) [OF one(2)] Suc.hyps(2) by simp
  have "pf_tracks p1 (table_keys (table_erase i t))" using one(3) e(1) by simp
  from Suc.hyps(1) [OF k this e(2)] obtain p' t' where
    r: "pf_evictEntries limit (p1, table_erase i t) = Some (p', t')" "pf_tracks p' (table_keys t')"
    "evictedTo limit (table_erase i t) t'" "pf_entryInfoMap p' = pf_entryInfoMap p1 |` table_keys t'"
    "\<forall>v \<in> table_keys t - {i} - table_keys t'. \<forall>e \<in> table_keys t'. pf_rankOf p1 v \<le> pf_rankOf p1 e"
    unfolding e(1) by blast
  have sub: "table_keys t' \<subseteq> table_keys t - {i}"
    using evictedTo_keys [OF r(3)] e(1) by simp
  have "pf_evictEntries limit (p, t) = Some (p', t')"
    using lt one(1) r(1) by (subst pf_evictEntries.simps) simp
  moreover have "pf_entryInfoMap p' = pf_entryInfoMap p |` table_keys t'"
    using r(4) one(4) sub by (auto simp: restrict_map_def fun_eq_iff)
  moreover have "pf_rankOf p v \<le> pf_rankOf p e" if "v \<in> table_keys t - table_keys t'" "e \<in> table_keys t'" for v e
  proof (cases "v = i")
    case False
    then have "pf_rankOf p1 v \<le> pf_rankOf p1 e" using r(5) that by simp
    moreover have "e \<noteq> i" using that(2) sub by blast
    ultimately show ?thesis using False one(4) by (simp add: pf_rankOf_def)
  qed (use one(5) in simp)
  ultimately show ?case
    using r(2) evictedTo_erase [OF Suc.prems(2) one(2) lt r(3)] by blast
qed

interpretation pfifo: cs_policy_laws pfOps pf_tracks
proof
  fix p t limit i now S
  show ev: "\<exists>p' t'. po_evictEntries pfOps limit (p, t) = Some (p', t') \<and> pf_tracks p' (table_keys t') \<and> evictedTo limit t t'"
    if "pf_tracks p (table_keys t)" "distinct (map ce_key t)" for p limit
    using pf_evict_spec [OF that, of limit] by (auto simp: pfOps_def)
  show "\<exists>p' t'. po_doAfterInsert pfOps now limit i (p, t) = Some (p', t') \<and> pf_tracks p' (table_keys t') \<and> evictedTo limit t t'"
    if i: "pf_tracks p (table_keys t - {i})" "i \<in> table_keys t" "distinct (map ce_key t)"
  proof -
    obtain e where "table_get i t = Some e" using table_get_Some [OF i(2)] by blast
    from pf_attach_spec [OF i(1) _ this] obtain p1 where
      "pf_attachQueue now i (p, t) = Some p1" "pf_tracks p1 (table_keys t)"
      using i(2) by (auto simp: insert_absorb)
    then show ?thesis using ev [OF _ i(3)] by (simp add: pfOps_def pf_doAfterInsert_def)
  qed
  show "\<exists>p'. po_doAfterRefresh pfOps now i (p, t) = Some p' \<and> pf_tracks p' (table_keys t)"
    if i: "pf_tracks p (table_keys t)" "i \<in> table_keys t" "distinct (map ce_key t)"
  proof -
    obtain e where e: "table_get i t = Some e" using table_get_Some [OF i(2)] by blast
    obtain p1 where p1: "pf_detachQueue i p = Some p1" "pf_tracks p1 (table_keys t - {i})"
      using pf_detach_spec [OF i(1,2)] by blast
    from pf_attach_spec [OF p1(2) _ e] obtain p2 where
      "pf_attachQueue now i (p1, t) = Some p2" "pf_tracks p2 (table_keys t)"
      using i(2) by (auto simp: insert_absorb)
    then show ?thesis using p1 by (simp add: pfOps_def pf_doAfterRefresh_def)
  qed
  show "\<exists>p'. po_doBeforeErase pfOps i p = Some p' \<and> pf_tracks p' (S - {i})" if "pf_tracks p S" "i \<in> S"
    using pf_detach_spec [OF that] by (auto simp: pfOps_def pf_doBeforeErase_def)
  show "\<exists>p'. po_doBeforeUse pfOps i p = Some p' \<and> pf_tracks p' S" if "pf_tracks p S" "i \<in> S"
    using that by (auto simp: pfOps_def pf_doBeforeUse_def pf_tracks_def)
qed

subsection \<open>So does the dispatch\<close>

definition policy_tracks :: "policy \<Rightarrow> name set \<Rightarrow> bool" where
  "policy_tracks p S \<longleftrightarrow> (case p of LruPolicy q \<Rightarrow> lru_tracks q S | PriorityFifoPolicy f \<Rightarrow> pf_tracks f S)"

lemmas ops_simps = lruOps_def pfOps_def policyOps_def policy_tracks_def

interpretation dispatch: cs_policy_laws policyOps policy_tracks
proof
  fix p t limit i now S
  show "\<exists>p' t'. po_evictEntries policyOps limit (p, t) = Some (p', t') \<and> policy_tracks p' (table_keys t') \<and> evictedTo limit t t'"
    if "policy_tracks p (table_keys t)" "distinct (map ce_key t)"
    using that lru.evict_law [of _ t limit] pfifo.evict_law [of _ t limit]
    by (cases p) (fastforce simp: ops_simps)+
  show "\<exists>p' t'. po_doAfterInsert policyOps now limit i (p, t) = Some (p', t') \<and> policy_tracks p' (table_keys t') \<and> evictedTo limit t t'"
    if "policy_tracks p (table_keys t - {i})" "i \<in> table_keys t" "distinct (map ce_key t)"
    using that lru.insert_law [of _ t i now limit] pfifo.insert_law [of _ t i now limit]
    by (cases p) (fastforce simp: ops_simps)+
  show "\<exists>p'. po_doAfterRefresh policyOps now i (p, t) = Some p' \<and> policy_tracks p' (table_keys t)"
    if "policy_tracks p (table_keys t)" "i \<in> table_keys t" "distinct (map ce_key t)"
    using that lru.refresh_law [of _ t i now] pfifo.refresh_law [of _ t i now]
    by (cases p) (fastforce simp: ops_simps)+
  show "\<exists>p'. po_doBeforeErase policyOps i p = Some p' \<and> policy_tracks p' (S - {i})" if "policy_tracks p S" "i \<in> S"
    using that lru.erase_law [of _ S i] pfifo.erase_law [of _ S i] by (cases p) (fastforce simp: ops_simps)+
  show "\<exists>p'. po_doBeforeUse policyOps i p = Some p' \<and> policy_tracks p' S" if "policy_tracks p S" "i \<in> S"
    using that lru.use_law [of _ S i] pfifo.use_law [of _ S i] by (cases p) (fastforce simp: ops_simps)+
qed

end
