(* ===== verification/Cs.thy ===== *)
theory Cs
  imports CsPolicy
begin

text \<open>
  \<^verbatim>\<open>daemon/table/cs.cpp\<close>: the content store, over the virtual functions of its replacement
  policy. The table order, the policies and the packet library come in through the locales of
  the theories below, so that what is proved here holds for every policy.
\<close>

section \<open>State and operations\<close>

record 'p cs =
  cs_table :: cs_table
  cs_policy :: 'p
  cs_limit :: nat
  cs_shouldAdmit :: bool
  cs_shouldServe :: bool

definition cs_setLimit :: "'p policy_ops \<Rightarrow> nat \<Rightarrow> 'p cs \<Rightarrow> 'p cs option" where
  "cs_setLimit ops nMaxEntries s = do {
     (p, t) \<leftarrow> po_evictEntries ops nMaxEntries (cs_policy s, cs_table s);
     Some (s\<lparr>cs_limit := nMaxEntries, cs_policy := p, cs_table := t\<rparr>) }"

definition newCs :: "'p policy_ops \<Rightarrow> 'p \<Rightarrow> nat \<Rightarrow> 'p cs option" where
  "newCs ops policy nMaxPackets = cs_setLimit ops nMaxPackets
     \<lparr>cs_table = [], cs_policy = policy, cs_limit = 0, cs_shouldAdmit = True, cs_shouldServe = True\<rparr>"

definition cs_insert :: "'p policy_ops \<Rightarrow> ndn_lib \<Rightarrow> time \<Rightarrow> data \<Rightarrow> bool \<Rightarrow> 'p cs \<Rightarrow> 'p cs option" where
  "cs_insert ops L now d isUnsolicited s =
     (if \<not> cs_shouldAdmit s \<or> cs_limit s = 0 then Some s
      else if d_noCache d then Some s
      else
        let (t, isNewEntry) = table_emplace L (newCsEntry now d isUnsolicited) (cs_table s);
            i = d_fullName d;
            t1 = table_update i (updateFreshUntil now) t
        in if \<not> isNewEntry
           then let t2 = table_update i (\<lambda>e. if ce_unsolicited e \<and> \<not> isUnsolicited then clearUnsolicited e else e) t1
                in do { p \<leftarrow> po_doAfterRefresh ops now i (cs_policy s, t2);
                        Some (s\<lparr>cs_table := t2, cs_policy := p\<rparr>) }
           else do { (p, t2) \<leftarrow> po_doAfterInsert ops now (cs_limit s) i (cs_policy s, t1);
                     Some (s\<lparr>cs_table := t2, cs_policy := p\<rparr>) })"

definition findPrefixRange :: "ndn_lib \<Rightarrow> name \<Rightarrow> cs_table \<Rightarrow> nat \<times> nat" where
  "findPrefixRange L pfx t =
     (lowerBound L pfx t,
      if 0 < length pfx then lowerBound L (getSuccessor L pfx) t else length t)"

definition rangeEntries :: "nat \<times> nat \<Rightarrow> cs_table \<Rightarrow> cs_entry list" where
  "rangeEntries = (\<lambda>(first, last) t. take (last - first) (drop first t))"

fun cs_eraseLoop :: "'p policy_ops \<Rightarrow> nat \<Rightarrow> name list \<Rightarrow> nat \<Rightarrow> 'p \<times> cs_table \<Rightarrow> (('p \<times> cs_table) \<times> nat) option" where
  "cs_eraseLoop ops limit [] nErased s = Some (s, nErased)"
| "cs_eraseLoop ops limit (i # is) nErased s =
     (if nErased < limit
      then do { p \<leftarrow> po_doBeforeErase ops i (fst s);
                cs_eraseLoop ops limit is (Suc nErased) (p, table_erase i (snd s)) }
      else Some (s, nErased))"

definition cs_eraseImpl :: "'p policy_ops \<Rightarrow> ndn_lib \<Rightarrow> name \<Rightarrow> nat \<Rightarrow> 'p cs \<Rightarrow> ('p cs \<times> nat) option" where
  "cs_eraseImpl ops L pfx limit s =
     (let range = rangeEntries (findPrefixRange L pfx (cs_table s)) (cs_table s)
      in do { ((p, t), nErased) \<leftarrow> cs_eraseLoop ops limit (map ce_key range) 0 (cs_policy s, cs_table s);
              Some (s\<lparr>cs_policy := p, cs_table := t\<rparr>, nErased) })"

definition cs_findImpl :: "'p policy_ops \<Rightarrow> ndn_lib \<Rightarrow> time \<Rightarrow> interest \<Rightarrow> 'p cs \<Rightarrow> ('p cs \<times> cs_entry option) option" where
  "cs_findImpl ops L now interest s =
     (if \<not> cs_shouldServe s \<or> cs_limit s = 0 then Some (s, None)
      else
        let range = rangeEntries (findPrefixRange L (i_name interest) (cs_table s)) (cs_table s)
        in case find (canSatisfy L now interest) range of
             None \<Rightarrow> Some (s, None)
           | Some match \<Rightarrow> do { p \<leftarrow> po_doBeforeUse ops (ce_key match) (cs_policy s);
                               Some (s\<lparr>cs_policy := p\<rparr>, Some match) })"

definition cs_find :: "'p policy_ops \<Rightarrow> ndn_lib \<Rightarrow> time \<Rightarrow> interest \<Rightarrow> 'p cs \<Rightarrow> ('p cs \<times> data option) option" where
  "cs_find ops L now interest s = do {
     (s', match) \<leftarrow> cs_findImpl ops L now interest s;
     Some (s', map_option ce_data match) }"

definition cs_setPolicy :: "'p policy_ops \<Rightarrow> 'p \<Rightarrow> 'p cs \<Rightarrow> 'p cs option" where
  "cs_setPolicy ops policy s =
     (let limit = cs_limit s in cs_setLimit ops limit (s\<lparr>cs_policy := policy\<rparr>))"

definition cs_enableAdmit :: "bool \<Rightarrow> 'p cs \<Rightarrow> 'p cs" where
  "cs_enableAdmit shouldAdmit s =
     (if cs_shouldAdmit s = shouldAdmit then s else s\<lparr>cs_shouldAdmit := shouldAdmit\<rparr>)"

definition cs_enableServe :: "bool \<Rightarrow> 'p cs \<Rightarrow> 'p cs" where
  "cs_enableServe shouldServe s =
     (if cs_shouldServe s = shouldServe then s else s\<lparr>cs_shouldServe := shouldServe\<rparr>)"

section \<open>What holds for every policy\<close>

definition plainName :: "ndn_lib \<Rightarrow> name \<Rightarrow> bool" where
  "plainName L n \<longleftrightarrow> list_all (\<lambda>c. \<not> isImplicitSha256Digest L c) n"

definition cs_table_ok :: "ndn_lib \<Rightarrow> cs_table \<Rightarrow> bool" where
  "cs_table_ok L t \<longleftrightarrow> sorted_wrt (entryLess L) t \<and> list_all (\<lambda>e. plainName L (d_name (ce_data e))) t"

definition cs_inv :: "('p \<Rightarrow> name set \<Rightarrow> bool) \<Rightarrow> ndn_lib \<Rightarrow> 'p cs \<Rightarrow> bool" where
  "cs_inv tracks L s \<longleftrightarrow> cs_table_ok L (cs_table s) \<and> tracks (cs_policy s) (table_keys (cs_table s)) \<and>
     length (cs_table s) \<le> cs_limit s"

lemma ce_key_update [simp]:
  "ce_key (updateFreshUntil now e) = ce_key e" "ce_key (clearUnsolicited e) = ce_key e"
  "ce_data (updateFreshUntil now e) = ce_data e" "ce_data (clearUnsolicited e) = ce_data e"
  "ce_data (newCsEntry now d u) = d" "ce_key (newCsEntry now d u) = d_fullName d"
  by (simp_all add: ce_key_def updateFreshUntil_def clearUnsolicited_def newCsEntry_def)

lemma updateFirst_fixed: "(\<And>x. x \<in> set xs \<Longrightarrow> p x \<Longrightarrow> f x = x) \<Longrightarrow> updateFirst p f xs = xs"
  by (induction xs) auto

lemma table_update_data:
  assumes "\<And>e. ce_data (f e) = ce_data e"
  shows "map ce_data (table_update i f t) = map ce_data t"
    and "map ce_key (table_update i f t) = map ce_key t"
    and "table_keys (table_update i f t) = table_keys t"
proof -
  show d: "map ce_data (table_update i f t) = map ce_data t"
    unfolding table_update_def by (rule map_updateFirst) (rule assms)
  have "map ce_key t = map d_fullName (map ce_data t)" for t by (simp add: ce_key_def)
  then show "map ce_key (table_update i f t) = map ce_key t" using d by metis
  then show "table_keys (table_update i f t) = table_keys t" unfolding table_keys_def by metis
qed

lemma sorted_wrt_of_subseq: "subseq t' t \<Longrightarrow> sorted_wrt R t \<Longrightarrow> sorted_wrt R t'"
  by (induction rule: list_emb.induct) (auto dest: list_emb_set)

context cs_lib_laws begin

lemma sorted_data_cong:
  "map ce_data t = map ce_data t' \<Longrightarrow> sorted_wrt (entryLess L) t = sorted_wrt (entryLess L) t'"
proof (induction t arbitrary: t')
  case (Cons e t)
  then obtain e' u where t': "t' = e' # u" and d: "ce_data e' = ce_data e" "map ce_data t = map ce_data u"
    by (cases t') auto
  have "(\<forall>y \<in> set t. entryLess L e y) \<longleftrightarrow> (\<forall>y \<in> set (map ce_data t). compareDataWithData L (ce_data e) y < 0)"
    by (simp add: entryLess_def)
  also have "\<dots> \<longleftrightarrow> (\<forall>y \<in> set u. entryLess L e' y)" unfolding d by (simp add: entryLess_def d)
  finally show ?case using Cons.IH [OF d(2)] by (simp add: t')
qed simp

lemma table_ok_cong:
  assumes "map ce_data t = map ce_data t'"
  shows "cs_table_ok L t = cs_table_ok L t'"
proof -
  have p: "list_all (\<lambda>e. plainName L (d_name (ce_data e))) t = list_all (\<lambda>d. plainName L (d_name d)) (map ce_data t)" for t
    by (simp add: list.pred_map comp_def)
  show ?thesis unfolding cs_table_ok_def p assms sorted_data_cong [OF assms] ..
qed

lemma table_ok_subseq: "cs_table_ok L t \<Longrightarrow> subseq t' t \<Longrightarrow> cs_table_ok L t'"
  unfolding cs_table_ok_def list_all_iff
  by (auto intro: sorted_wrt_of_subseq dest: list_emb_set)

lemma table_ok_distinct: "cs_table_ok L t \<Longrightarrow> distinct (map ce_key t)"
  using sorted_distinct by (simp add: cs_table_ok_def)

lemma table_ok_emplace:
  assumes "cs_table_ok L t" and "plainName L (d_name (ce_data e))"
  shows "cs_table_ok L (fst (table_emplace L e t))"
  using assms table_emplace_spec(1,3) [of t e] by (auto simp: cs_table_ok_def list_all_iff split: if_splits)

text \<open>Every entry an Interest can be satisfied by is in the range of its name.\<close>

lemma nameBelow_prefix: "prefix n m \<Longrightarrow> \<not> compareName L m n < 0"
  using compare_prefix [of n m] compare_asym [of n m] by (cases "n = m") (auto simp: strict_prefix_def)

lemma successor_cases:
  assumes "n \<noteq> []"
  obtains c where "getSuccessor L n = butlast n @ [c]"
    "isImplicitSha256Digest L c \<Longrightarrow> isImplicitSha256Digest L (last n)"
    "compareName L [last n] [c] < 0"
proof -
  let ?c = "last (getSuccessor L n)"
  have s: "getSuccessor L n = butlast n @ [?c]"
    using successor_last [OF assms] by (metis append_butlast_last_id)
  have "compareName L n (getSuccessor L n) < 0" using successor [OF assms, of n] by simp
  then have "compareName L (butlast n @ [last n]) (butlast n @ [?c]) < 0"
    using s assms by (metis append_butlast_last_id)
  then have "compareName L [last n] [?c] < 0" unfolding compare_last .
  then show ?thesis using that s successor_last [OF assms] by blast
qed

lemma entryBelow_successor:
  assumes "n \<noteq> []" and below: "entryBelow L n e"
  shows "entryBelow L (getSuccessor L n) e"
proof -
  obtain c where c: "getSuccessor L n = butlast n @ [c]"
    "isImplicitSha256Digest L c \<Longrightarrow> isImplicitSha256Digest L (last n)" "compareName L [last n] [c] < 0"
    using successor_cases [OF assms(1)] by blast
  have ext: "compareName L (butlast n) (butlast n @ [c]) < 0" by (rule compare_prefix) (simp add: strict_prefix_def)
  show ?thesis
    using below assms(1) c compare_trans [OF _ ext] compare_trans [OF _ c(3)] ext
      successor [OF assms(1), of "d_name (ce_data e)"]
    by (auto simp: entryBelow_iff queryIsFullName_def c(1) split: if_splits)
qed

lemma range_filter:
  assumes "sorted_wrt (entryLess L) t"
  shows "rangeEntries (findPrefixRange L n t) t =
    filter (\<lambda>e. \<not> entryBelow L n e \<and> (n \<noteq> [] \<longrightarrow> entryBelow L (getSuccessor L n) e)) t"
proof (cases "n = []")
  case True
  have "rangeEntries (findPrefixRange L [] t) t = drop (lowerBound L [] t) t"
    by (simp add: rangeEntries_def findPrefixRange_def)
  then show ?thesis using True by (simp add: lowerBound_split(2) [OF assms])
next
  case False
  let ?u = "filter (entryBelow L (getSuccessor L n)) t"
  have u: "sorted_wrt (entryLess L) ?u" using assms by (rule sorted_wrt_filter)
  have "filter (entryBelow L n) ?u = filter (entryBelow L n) t"
    using entryBelow_successor [OF False] by (auto simp: filter_filter intro: filter_cong)
  then have "take (lowerBound L n ?u) ?u = take (lowerBound L n t) t"
    using lowerBound_split(1) [OF u, of n] lowerBound_split(1) [OF assms, of n] by simp
  then have len: "lowerBound L n ?u = lowerBound L n t"
    using length_takeWhile_le [of "entryBelow L n" t] length_takeWhile_le [of "entryBelow L n" ?u]
    by (metis length_take lowerBound_def min.absorb2)
  have "rangeEntries (findPrefixRange L n t) t = drop (lowerBound L n t) (take (lowerBound L (getSuccessor L n) t) t)"
    using False by (simp add: rangeEntries_def findPrefixRange_def drop_take)
  also have "\<dots> = drop (lowerBound L n ?u) ?u" using len lowerBound_split(1) [OF assms] by simp
  also have "\<dots> = filter (\<lambda>e. \<not> entryBelow L n e) ?u" by (rule lowerBound_split(2) [OF u])
  finally show ?thesis using False by (simp add: conj_commute)
qed

lemma range_prefix:
  assumes "sorted_wrt (entryLess L) t" and nf: "\<not> queryIsFullName L n"
  shows "rangeEntries (findPrefixRange L n t) t = filter (\<lambda>e. prefix n (d_name (ce_data e))) t"
proof -
  have "\<not> entryBelow L n e \<and> (n \<noteq> [] \<longrightarrow> entryBelow L (getSuccessor L n) e) \<longleftrightarrow> prefix n (d_name (ce_data e))" for e
  proof (cases "n = []")
    case True
    then show ?thesis using nf nameBelow_prefix [of "[]"] by (simp add: entryBelow_iff)
  next
    case False
    obtain c where c: "getSuccessor L n = butlast n @ [c]"
      "isImplicitSha256Digest L c \<Longrightarrow> isImplicitSha256Digest L (last n)"
      using successor_cases [OF False] by blast
    have "\<not> queryIsFullName L (getSuccessor L n)" using nf c False by (auto simp: queryIsFullName_def)
    then show ?thesis
      using nf False successor [OF False, of "d_name (ce_data e)"] nameBelow_prefix [of n "d_name (ce_data e)"]
      by (auto simp: entryBelow_iff)
  qed
  then show ?thesis unfolding range_filter [OF assms(1)] by simp
qed

lemma match_in_range:
  assumes "plainName L (d_name (ce_data e))" and m: "matchesData L i (ce_data e)"
  shows "\<not> entryBelow L (i_name i) e \<and> (i_name i \<noteq> [] \<longrightarrow> entryBelow L (getSuccessor L (i_name i)) e)"
proof (cases "queryIsFullName L (i_name i)")
  case False
  then have "prefix (i_name i) (d_name (ce_data e))"
    using matches_name [OF m] by (auto simp: queryIsFullName_def d_fullName_def)
  then show ?thesis
    using range_prefix [of "[e]", OF _ False] by (auto simp: range_filter split: if_splits)
next
  case True
  then have ne: "i_name i \<noteq> []" "isImplicitSha256Digest L (last (i_name i))" by (auto simp: queryIsFullName_def)
  have "\<not> prefix (i_name i) (d_name (ce_data e))"
  proof
    assume "prefix (i_name i) (d_name (ce_data e))"
    then have "last (i_name i) \<in> set (d_name (ce_data e))" using ne(1) last_in_set set_mono_prefix by blast
    then show False using assms(1) ne(2) by (auto simp: plainName_def list_all_iff)
  qed
  then have n: "i_name i = d_fullName (ce_data e)" using matches_name [OF m] by blast
  obtain c where c: "getSuccessor L (i_name i) = butlast (i_name i) @ [c]" "compareName L [last (i_name i)] [c] < 0"
    using successor_cases [OF ne(1)] by blast
  have "compareName L (d_name (ce_data e)) (d_name (ce_data e) @ [c]) < 0" by (rule compare_prefix) (simp add: strict_prefix_def)
  then show ?thesis
    using True c unfolding n by (auto simp: entryBelow_iff queryIsFullName_def d_fullName_def)
qed

lemma find_range:
  assumes "cs_table_ok L t"
  shows "find (canSatisfy L now i) (rangeEntries (findPrefixRange L (i_name i) t) t) = find (canSatisfy L now i) t"
proof -
  have f: "find P (filter Q xs) = find P xs" if "\<And>x. x \<in> set xs \<Longrightarrow> P x \<Longrightarrow> Q x" for P Q and xs :: cs_table
    using that by (induction xs) auto
  have "sorted_wrt (entryLess L) t" using assms by (simp add: cs_table_ok_def)
  show ?thesis
    unfolding range_filter [OF \<open>sorted_wrt (entryLess L) t\<close>]
  proof (rule f)
    fix e
    assume "e \<in> set t" and "canSatisfy L now i e"
    then show "\<not> entryBelow L (i_name i) e \<and>
        (i_name i \<noteq> [] \<longrightarrow> entryBelow L (getSuccessor L (i_name i)) e)"
      using match_in_range [of e i] assms
      by (auto simp: cs_table_ok_def list_all_iff canSatisfy_def split: if_splits)
  qed
qed

end

locale cs_store = cs_policy_laws ops tracks + cs_lib_laws L
  for ops :: "'p policy_ops" and tracks :: "'p \<Rightarrow> name set \<Rightarrow> bool" and L :: ndn_lib
begin

lemma setLimit_spec:
  assumes "cs_table_ok L (cs_table s)" and "tracks (cs_policy s) (table_keys (cs_table s))"
  shows "\<exists>s'. cs_setLimit ops n s = Some s' \<and> cs_inv tracks L s' \<and> cs_limit s' = n \<and>
    evictedTo n (cs_table s) (cs_table s') \<and> cs_shouldAdmit s' = cs_shouldAdmit s \<and>
    cs_shouldServe s' = cs_shouldServe s"
proof -
  from evict_law [OF assms(2) table_ok_distinct [OF assms(1)], of n] obtain p t where
    r: "po_evictEntries ops n (cs_policy s, cs_table s) = Some (p, t)" "tracks p (table_keys t)"
    "evictedTo n (cs_table s) t" by blast
  then have "cs_table_ok L t" "length t \<le> n"
    using table_ok_subseq [OF assms(1)] by (auto simp: evictedTo_def)
  then show ?thesis using r by (simp add: cs_setLimit_def cs_inv_def)
qed

lemma newCs_spec: "tracks p {} \<Longrightarrow> \<exists>s. newCs ops p n = Some s \<and> cs_inv tracks L s \<and> cs_limit s = n \<and> cs_table s = [] \<and>
    cs_shouldAdmit s \<and> cs_shouldServe s"
  using setLimit_spec [of "\<lparr>cs_table = [], cs_policy = p, cs_limit = 0, cs_shouldAdmit = True, cs_shouldServe = True\<rparr>" n]
  by (auto simp: newCs_def cs_table_ok_def table_keys_def evictedTo_def)

text \<open>What an insertion leaves: the old entries, refreshed, and the new one, up to the limit.\<close>

lemma insert_spec:
  assumes inv: "cs_inv tracks L s" and plain: "plainName L (d_name d)"
  shows "\<exists>s'. cs_insert ops L now d u s = Some s' \<and> cs_inv tracks L s' \<and> cs_limit s' = cs_limit s \<and>
    cs_shouldAdmit s' = cs_shouldAdmit s \<and> cs_shouldServe s' = cs_shouldServe s \<and>
    (if cs_shouldAdmit s \<and> cs_limit s \<noteq> 0 \<and> \<not> d_noCache d
     then table_keys (cs_table s') \<subseteq> insert (d_fullName d) (table_keys (cs_table s)) \<and>
          length (cs_table s') = min (cs_limit s) (card (insert (d_fullName d) (table_keys (cs_table s))))
     else s' = s)"
proof (cases "cs_shouldAdmit s \<and> cs_limit s \<noteq> 0 \<and> \<not> d_noCache d")
  case False
  then show ?thesis using inv by (auto simp: cs_insert_def)
next
  case adm: True
  let ?e = "newCsEntry now d u" and ?i = "d_fullName d" and ?K = "table_keys (cs_table s)"
  obtain t isNew where em: "table_emplace L ?e (cs_table s) = (t, isNew)" by (cases "table_emplace L ?e (cs_table s)")
  have ok: "cs_table_ok L (cs_table s)" and tr: "tracks (cs_policy s) ?K" and len: "length (cs_table s) \<le> cs_limit s"
    using inv by (auto simp: cs_inv_def)
  have sorted: "sorted_wrt (entryLess L) (cs_table s)" using ok by (simp add: cs_table_ok_def)
  note E = table_emplace_spec [OF sorted, of ?e, unfolded em fst_conv snd_conv, simplified]
  have tok: "cs_table_ok L t" using table_ok_emplace [OF ok, of ?e] em plain by simp
  have keys: "table_keys t = insert ?i ?K" using E(3) by (auto simp: table_keys_def)
  have card: "card (insert ?i ?K) = (if isNew then Suc (length (cs_table s)) else length (cs_table s))"
    using E(2) card_table_keys [OF table_ok_distinct [OF ok]] by (simp add: insert_absorb table_keys_def)
  let ?t1 = "table_update ?i (updateFreshUntil now) t"
  have d1: "map ce_data ?t1 = map ce_data t" "table_keys ?t1 = table_keys t" by (simp_all add: table_update_data)
  have t1: "cs_table_ok L ?t1" using table_ok_cong [OF d1(1)] tok by simp
  show ?thesis
  proof (cases isNew)
    case True
    then have "tracks (cs_policy s) (table_keys ?t1 - {?i})" using tr E(2) d1(2) keys by simp
    from insert_law [OF this _ table_ok_distinct [OF t1], of now "cs_limit s"] keys d1 obtain p t2 where
      r: "po_doAfterInsert ops now (cs_limit s) ?i (cs_policy s, ?t1) = Some (p, t2)" "tracks p (table_keys t2)"
      "evictedTo (cs_limit s) ?t1 t2" by auto
    have "length ?t1 = card (insert ?i ?K)" using card True E(4) E(2) map_eq_imp_length_eq [OF d1(1)] by simp
    then show ?thesis
      using adm em True r table_ok_subseq [OF t1] evictedTo_keys [OF r(3)] d1(2) keys
      by (simp add: cs_insert_def Let_def cs_inv_def evictedTo_def)
  next
    case False
    let ?t2 = "table_update ?i (\<lambda>e. if ce_unsolicited e \<and> \<not> u then clearUnsolicited e else e) ?t1"
    have d2: "map ce_data ?t2 = map ce_data ?t1" "table_keys ?t2 = table_keys ?t1" by (simp_all add: table_update_data)
    have t2: "cs_table_ok L ?t2" using table_ok_cong [OF d2(1)] t1 by simp
    have k2: "table_keys ?t2 = ?K" "?i \<in> ?K" using d2 d1 keys False E(2) by auto
    from refresh_law [of "cs_policy s" ?t2 ?i now] tr t2 k2 obtain p where
      r: "po_doAfterRefresh ops now ?i (cs_policy s, ?t2) = Some p" "tracks p ?K"
      using table_ok_distinct by auto
    have "length ?t2 = length (cs_table s)"
      using map_eq_imp_length_eq [OF d2(1)] map_eq_imp_length_eq [OF d1(1)] E(4) E(2) False by simp
    then show ?thesis
      using adm em False r t2 k2 len card by (simp add: cs_insert_def Let_def cs_inv_def insert_absorb)
  qed
qed

text \<open>The policy is told of a new packet when it is in the table.\<close>

lemma insert_new:
  assumes inv: "cs_inv tracks L s" and new: "d_fullName d \<notin> table_keys (cs_table s)"
    and adm: "cs_shouldAdmit s" "cs_limit s \<noteq> 0" "\<not> d_noCache d"
    and ins: "cs_insert ops L now d u s = Some s'"
  shows "\<exists>t. sorted_wrt (entryLess L) t \<and> set t = insert (newCsEntry now d u) (set (cs_table s)) \<and>
    po_doAfterInsert ops now (cs_limit s) (d_fullName d) (cs_policy s, t) = Some (cs_policy s', cs_table s') \<and>
    s' = s\<lparr>cs_table := cs_table s', cs_policy := cs_policy s'\<rparr>"
proof -
  let ?e = "newCsEntry now d u" and ?i = "d_fullName d"
  obtain t isNew where em: "table_emplace L ?e (cs_table s) = (t, isNew)" by (cases "table_emplace L ?e (cs_table s)")
  have sorted: "sorted_wrt (entryLess L) (cs_table s)" using inv by (simp add: cs_inv_def cs_table_ok_def)
  note E = table_emplace_spec [OF sorted, of ?e, unfolded em fst_conv snd_conv, simplified]
  have N: "isNew" and st: "set t = insert ?e (set (cs_table s))" using E(2,3) new by simp_all
  have old: "ce_key x \<noteq> ?i" if "x \<in> set (cs_table s)" for x
    using that new by (metis imageI list.set_map table_keys_def)
  have upd: "table_update ?i (updateFreshUntil now) t = t"
    unfolding table_update_def using st old
    by (intro updateFirst_fixed) (auto simp: newCsEntry_def updateFreshUntil_def)
  show ?thesis
    using ins adm em N upd E(1) st by (auto simp: cs_insert_def Let_def bind_eq_Some_conv)
qed

lemma insert_new_entries:
  assumes "cs_inv tracks L s" and "d_fullName d \<notin> table_keys (cs_table s)"
    and "cs_shouldAdmit s" "cs_limit s \<noteq> 0" "\<not> d_noCache d"
    and "cs_insert ops L now d u s = Some s'"
  shows "set (cs_table s') \<subseteq> insert (newCsEntry now d u) (set (cs_table s))"
proof -
  obtain t where t: "sorted_wrt (entryLess L) t" "set t = insert (newCsEntry now d u) (set (cs_table s))"
    "po_doAfterInsert ops now (cs_limit s) (d_fullName d) (cs_policy s, t) = Some (cs_policy s', cs_table s')"
    using insert_new [OF assms] by blast
  have k: "table_keys t = insert (d_fullName d) (table_keys (cs_table s))" using t(2) by (simp add: table_keys_def)
  have "tracks (cs_policy s) (table_keys t - {d_fullName d})" using assms(1,2) by (simp add: k cs_inv_def)
  from insert_law [OF this _ sorted_distinct [OF t(1)], of now "cs_limit s"] t(3)
  have "subseq (cs_table s') t" by (auto simp: k evictedTo_def)
  then have "set (cs_table s') \<subseteq> set t" by (auto dest: list_emb_set)
  then show ?thesis unfolding t(2) .
qed

text \<open>No other packet enters the store.\<close>

lemma insert_data:
  assumes inv: "cs_inv tracks L s" and r: "cs_insert ops L now d u s = Some s'"
  shows "ce_data ` set (cs_table s') \<subseteq> insert d (ce_data ` set (cs_table s))"
proof (cases "cs_shouldAdmit s \<and> cs_limit s \<noteq> 0 \<and> \<not> d_noCache d")
  case False
  then have "s' = s" using r by (cases "d_noCache d") (auto simp: cs_insert_def split: if_splits)
  then show ?thesis by blast
next
  case adm: True
  let ?e = "newCsEntry now d u"
  show ?thesis
  proof (cases "d_fullName d \<in> table_keys (cs_table s)")
    case True
    obtain t isNew where em: "table_emplace L ?e (cs_table s) = (t, isNew)" by (cases "table_emplace L ?e (cs_table s)")
    have "sorted_wrt (entryLess L) (cs_table s)" using inv by (simp add: cs_inv_def cs_table_ok_def)
    from table_emplace_spec [OF this, of ?e, unfolded em fst_conv snd_conv] True
    have N: "\<not> isNew" "set t = set (cs_table s)" by auto
    let ?t1 = "table_update (d_fullName d) (updateFreshUntil now) t"
    let ?t2 = "table_update (d_fullName d) (\<lambda>e. if ce_unsolicited e \<and> \<not> u then clearUnsolicited e else e) ?t1"
    have "map ce_data ?t2 = map ce_data t"
      by (simp add: table_update_data updateFreshUntil_def clearUnsolicited_def)
    then have "ce_data ` set ?t2 = ce_data ` set t" by (metis list.set_map)
    moreover have "cs_table s' = ?t2"
      using r adm em N by (auto simp: cs_insert_def Let_def split: bind_splits)
    ultimately show ?thesis using N(2) by auto
  next
    case False
    from insert_new_entries [OF inv this _ _ _ r] adm have "set (cs_table s') \<subseteq> insert ?e (set (cs_table s))" by blast
    then have "ce_data ` set (cs_table s') \<subseteq> insert (ce_data ?e) (ce_data ` set (cs_table s))" by blast
    then show ?thesis by (simp add: newCsEntry_def updateFreshUntil_def)
  qed
qed

lemma eraseLoop_spec:
  assumes "tracks p (table_keys t)" "cs_table_ok L t" "distinct is" "set is \<subseteq> table_keys t" "n \<le> limit"
  shows "\<exists>p' t'. cs_eraseLoop ops limit is n (p, t) = Some ((p', t'), n + min (limit - n) (length is)) \<and>
    tracks p' (table_keys t') \<and> cs_table_ok L t' \<and>
    t' = filter (\<lambda>e. ce_key e \<notin> set (take (limit - n) is)) t"
  using assms
proof (induction "is" arbitrary: n p t)
  case (Cons i "is")
  show ?case
  proof (cases "n < limit")
    case False
    then show ?thesis using Cons.prems by simp
  next
    case True
    note d = table_ok_distinct [OF Cons.prems(2)]
    note e = table_erase_facts [OF d, of i]
    have t1: "table_erase i t = filter (\<lambda>e. ce_key e \<noteq> i) t"
      using d by (simp add: table_erase_def removeFirst_key_filter)
    obtain p1 where p1: "po_doBeforeErase ops i p = Some p1" "tracks p1 (table_keys (table_erase i t))"
      using erase_law [OF Cons.prems(1), of i] Cons.prems(4) e(1) by auto
    have "set is \<subseteq> table_keys (table_erase i t)" using Cons.prems(3,4) e(1) by auto
    from Cons.IH [OF p1(2) table_ok_subseq [OF Cons.prems(2) e(3)] _ this, of "Suc n"] Cons.prems(3) True
    obtain p' t' where r: "cs_eraseLoop ops limit is (Suc n) (p1, table_erase i t) =
        Some ((p', t'), Suc n + min (limit - Suc n) (length is))" "tracks p' (table_keys t')" "cs_table_ok L t'"
      "t' = filter (\<lambda>e. ce_key e \<notin> set (take (limit - Suc n) is)) (table_erase i t)" by auto
    have "Suc n + min (limit - Suc n) (length is) = n + min (limit - n) (length (i # is))" using True by simp
    moreover have "take (limit - n) (i # is) = i # take (limit - Suc n) is"
      using True by (simp add: take_Cons' Suc_diff_Suc)
    then have "t' = filter (\<lambda>e. ce_key e \<notin> set (take (limit - n) (i # is))) t"
      by (simp add: r(4) t1 conj_commute)
    ultimately show ?thesis using p1(1) r True by simp
  qed
qed simp

lemma erase_spec:
  assumes inv: "cs_inv tracks L s"
  defines "rng \<equiv> \<lambda>n. rangeEntries (findPrefixRange L n (cs_table s)) (cs_table s)"
  shows "\<exists>s'. cs_eraseImpl ops L n limit s = Some (s', min limit (length (rng n))) \<and> cs_inv tracks L s' \<and>
    cs_limit s' = cs_limit s \<and> cs_shouldAdmit s' = cs_shouldAdmit s \<and> cs_shouldServe s' = cs_shouldServe s \<and>
    cs_table s' = filter (\<lambda>e. e \<notin> set (take limit (rng n))) (cs_table s)"
proof -
  have ok: "cs_table_ok L (cs_table s)" using inv by (simp add: cs_inv_def)
  note d = table_ok_distinct [OF ok]
  have rf: "rng n = filter (\<lambda>e. \<not> entryBelow L n e \<and> (n \<noteq> [] \<longrightarrow> entryBelow L (getSuccessor L n) e)) (cs_table s)"
    unfolding rng_def using range_filter ok by (simp add: cs_table_ok_def)
  then have sub: "set (rng n) \<subseteq> set (cs_table s)" and di: "distinct (map ce_key (rng n))"
    using d by (auto simp: distinct_map_filter)
  from eraseLoop_spec [of "cs_policy s" "cs_table s" "map ce_key (rng n)" 0 limit] sub di ok inv obtain p t where
    r: "cs_eraseLoop ops limit (map ce_key (rng n)) 0 (cs_policy s, cs_table s) =
        Some ((p, t), min limit (length (rng n)))" "tracks p (table_keys t)" "cs_table_ok L t"
      "t = filter (\<lambda>e. ce_key e \<notin> set (take limit (map ce_key (rng n)))) (cs_table s)"
    by (auto simp: cs_inv_def table_keys_def)
  have "ce_key e \<in> set (take limit (map ce_key (rng n))) \<longleftrightarrow> e \<in> set (take limit (rng n))"
    if "e \<in> set (cs_table s)" for e
    using that d sub set_take_subset [of limit "rng n"]
    by (auto simp: take_map distinct_map dest: inj_onD)
  then have t: "t = filter (\<lambda>e. e \<notin> set (take limit (rng n))) (cs_table s)"
    unfolding r(4) by (intro filter_cong refl) simp
  have "length t \<le> cs_limit s" using inv length_filter_le le_trans unfolding t cs_inv_def by blast
  then show ?thesis
    using r(1,2,3) t by (simp add: cs_eraseImpl_def cs_inv_def Let_def rng_def)
qed

lemma find_spec:
  assumes inv: "cs_inv tracks L s"
  shows "\<exists>s'. cs_findImpl ops L now i s = Some (s', if cs_shouldServe s \<and> cs_limit s \<noteq> 0
      then find (canSatisfy L now i) (cs_table s) else None) \<and> cs_inv tracks L s' \<and>
    cs_table s' = cs_table s \<and> cs_limit s' = cs_limit s \<and>
    cs_shouldAdmit s' = cs_shouldAdmit s \<and> cs_shouldServe s' = cs_shouldServe s"
proof -
  have ok: "cs_table_ok L (cs_table s)" and tr: "tracks (cs_policy s) (table_keys (cs_table s))"
    using inv by (simp_all add: cs_inv_def)
  show ?thesis
  proof (cases "find (canSatisfy L now i) (cs_table s)")
    case None
    then show ?thesis using inv by (simp add: cs_findImpl_def find_range [OF ok])
  next
    case (Some e)
    then have "ce_key e \<in> table_keys (cs_table s)" by (auto simp: table_keys_def dest: find_Some_iff2)
    from use_law [OF tr this] show ?thesis
      using inv Some by (auto simp: cs_findImpl_def find_range [OF ok] cs_inv_def)
  qed
qed

end

interpretation store: cs_store policyOps policy_tracks canonicalLib
  by unfold_locales

interpretation lru_store: cs_store lruOps lru_tracks canonicalLib
  by unfold_locales

interpretation pf_store: cs_store pfOps pf_tracks canonicalLib
  by unfold_locales

section \<open>Sequences of operations\<close>

text \<open>
  The configuration sets the policy of an empty store only (\<^verbatim>\<open>mgmt/tables-config-section.cpp\<close>);
  the event of a priority FIFO policy runs when it is scheduled.
\<close>

datatype cs_op = CsInsert time data bool | CsErase name nat | CsFind time interest | CsSetLimit nat
  | CsSetPolicy string | CsEnableAdmit bool | CsEnableServe bool | CsMoveStale name

definition cs_moveStale :: "name \<Rightarrow> policy cs \<Rightarrow> policy cs option" where
  "cs_moveStale i s =
     (case cs_policy s of
        LruPolicy q \<Rightarrow> Some s
      | PriorityFifoPolicy f \<Rightarrow>
          if Option.bind (pf_entryInfoMap f i) ei_moveStaleEvent = None then Some s
          else do { f' \<leftarrow> pf_moveToStaleQueue i f; Some (s\<lparr>cs_policy := PriorityFifoPolicy f'\<rparr>) })"

fun cs_step :: "ndn_lib \<Rightarrow> cs_op \<Rightarrow> policy cs \<Rightarrow> policy cs option" where
  "cs_step L (CsInsert now d u) s = cs_insert policyOps L now d u s"
| "cs_step L (CsErase n k) s = map_option fst (cs_eraseImpl policyOps L n k s)"
| "cs_step L (CsFind now i) s = map_option fst (cs_find policyOps L now i s)"
| "cs_step L (CsSetLimit n) s = cs_setLimit policyOps n s"
| "cs_step L (CsSetPolicy name) s =
     (case policy_create name of
        None \<Rightarrow> Some s
      | Some p \<Rightarrow> if length (cs_table s) = 0 then cs_setPolicy policyOps p s else Some s)"
| "cs_step L (CsEnableAdmit b) s = Some (cs_enableAdmit b s)"
| "cs_step L (CsEnableServe b) s = Some (cs_enableServe b s)"
| "cs_step L (CsMoveStale i) s = cs_moveStale i s"

fun cs_run :: "ndn_lib \<Rightarrow> cs_op list \<Rightarrow> policy cs \<Rightarrow> policy cs option" where
  "cs_run L [] s = Some s"
| "cs_run L (c # cs) s = do { s' \<leftarrow> cs_step L c s; cs_run L cs s' }"

fun cs_op_plain :: "ndn_lib \<Rightarrow> cs_op \<Rightarrow> bool" where
  "cs_op_plain L (CsInsert now d u) = plainName L (d_name d)"
| "cs_op_plain L _ = True"

lemma pf_moveToStale_spec:
  assumes "pf_tracks f S" and "pf_entryInfoMap f i = Some info" and "ei_queueType info = QUEUE_FIFO"
  shows "\<exists>f'. pf_moveToStaleQueue i f = Some f' \<and> pf_tracks f' S \<and>
    pf_entryInfoMap f' = (pf_entryInfoMap f)(i \<mapsto> \<lparr>ei_queueType = QUEUE_STALE, ei_moveStaleEvent = None\<rparr>)"
proof -
  have q: "distinct (pf_queues f q) \<and> set (pf_queues f q) = {i. \<exists>info. pf_entryInfoMap f i = Some info \<and> ei_queueType info = q}" for q
    using assms(1) by (simp add: pf_tracks_def)
  have "i \<notin> set (pf_queues f QUEUE_STALE)" "i \<notin> set (pf_queues f QUEUE_UNSOLICITED)" using q assms(2,3) by auto
  then show ?thesis
    using assms q by (auto simp: pf_moveToStaleQueue_def Let_def pf_tracks_def)
qed

lemma moveStale_spec:
  assumes "cs_inv policy_tracks L s"
  shows "\<exists>s'. cs_moveStale i s = Some s' \<and> cs_inv policy_tracks L s' \<and> cs_limit s' = cs_limit s"
proof (cases "cs_policy s")
  case (LruPolicy q)
  then show ?thesis using assms by (simp add: cs_moveStale_def)
next
  case (PriorityFifoPolicy f)
  show ?thesis
  proof (cases "Option.bind (pf_entryInfoMap f i) ei_moveStaleEvent")
    case None
    then show ?thesis using assms PriorityFifoPolicy by (simp add: cs_moveStale_def)
  next
    case (Some x)
    then obtain info where i: "pf_entryInfoMap f i = Some info" "ei_moveStaleEvent info = Some x"
      by (auto simp: bind_eq_Some_conv)
    have tr: "pf_tracks f (table_keys (cs_table s))"
      using assms PriorityFifoPolicy by (simp add: cs_inv_def policy_tracks_def)
    then have "ei_queueType info = QUEUE_FIFO" using i by (auto simp: pf_tracks_def)
    from pf_moveToStale_spec [OF tr i(1) this] show ?thesis
      using assms PriorityFifoPolicy Some by (auto simp: cs_moveStale_def cs_inv_def policy_tracks_def)
  qed
qed

lemma tracks_create: "policy_create name = Some p \<Longrightarrow> policy_tracks p {}"
  by (auto simp: policy_create_def policy_tracks_def lru_tracks_def pf_tracks_def newPfPolicy_def
      split: if_splits)

lemma cs_step_inv:
  assumes L: "cs_lib_laws L" and inv: "cs_inv policy_tracks L s" and "cs_op_plain L c"
  shows "\<exists>s'. cs_step L c s = Some s' \<and> cs_inv policy_tracks L s'"
proof -
  note store = cs_store.intro [OF dispatch.cs_policy_laws_axioms L]
  show ?thesis
  proof (cases c)
    case (CsInsert now d u)
    then show ?thesis using cs_store.insert_spec [OF store inv, of d now u] assms(3) by auto
  next
    case (CsErase n k)
    then show ?thesis using cs_store.erase_spec [OF store inv, of n k] by auto
  next
    case (CsFind now i)
    then show ?thesis using cs_store.find_spec [OF store inv, of now i] by (auto simp: cs_find_def)
  next
    case (CsSetLimit n)
    then show ?thesis using cs_store.setLimit_spec [OF store, of s n] inv by (auto simp: cs_inv_def)
  next
    case (CsSetPolicy name)
    show ?thesis
    proof (cases "policy_create name")
      case None
      then show ?thesis using CsSetPolicy inv by simp
    next
      case (Some p)
      then have "cs_table s = [] \<Longrightarrow> \<exists>s'. cs_setPolicy policyOps p s = Some s' \<and> cs_inv policy_tracks L s'"
        using cs_store.setLimit_spec [OF store, of "s\<lparr>cs_policy := p\<rparr>" "cs_limit s"] tracks_create [OF Some] inv
        by (auto simp: cs_setPolicy_def Let_def cs_inv_def table_keys_def)
      then show ?thesis using CsSetPolicy Some inv by auto
    qed
  next
    case (CsMoveStale i)
    then show ?thesis using moveStale_spec [OF inv, of i] by auto
  qed (use inv in \<open>auto simp: cs_enableAdmit_def cs_enableServe_def cs_inv_def\<close>)
qed

lemma cs_run_inv:
  "cs_lib_laws L \<Longrightarrow> cs_inv policy_tracks L s \<Longrightarrow> list_all (cs_op_plain L) cs \<Longrightarrow>
   \<exists>s'. cs_run L cs s = Some s' \<and> cs_inv policy_tracks L s'"
proof (induction cs arbitrary: s)
  case (Cons c cs)
  then obtain s1 where "cs_step L c s = Some s1" "cs_inv policy_tracks L s1" using cs_step_inv [of L s c] by auto
  then show ?case using Cons by auto
qed simp

section \<open>Recency\<close>

definition touch :: "'a \<Rightarrow> 'a list \<Rightarrow> 'a list" where
  "touch i r = removeAll i r @ [i]"

definition lastN :: "nat \<Rightarrow> 'a list \<Rightarrow> 'a list" where
  "lastN k r = drop (length r - k) r"

lemma distinct_touch [simp]: "distinct r \<Longrightarrow> distinct (touch i r)"
  by (simp add: touch_def distinct_removeAll)

lemma lastN_snoc: "0 < k \<Longrightarrow> lastN k (r @ [i]) = lastN (k - 1) r @ [i]"
  by (simp add: lastN_def)

text \<open>Forgetting all but the most recent \<open>k\<close> commutes with touching.\<close>

lemma touch_lastN:
  assumes d: "distinct r" and k: "0 < k"
  shows "lastN k (touch i (lastN k r)) = lastN k (touch i r)"
proof -
  define a b where "a = take (length r - k) r" and "b = lastN k r"
  have r: "r = a @ b" by (simp add: a_def b_def lastN_def)
  have b: "a = [] \<and> length b \<le> k \<or> length b = k"
    by (cases "length r \<le> k") (simp_all add: a_def b_def lastN_def)
  have "lastN (k - 1) (removeAll i b) = lastN (k - 1) (removeAll i a @ removeAll i b)"
  proof (cases "i \<in> set b")
    case True
    then have "removeAll i b = remove1 i b" "i \<notin> set a" and len: "length (remove1 i b) = length b - 1"
      using d r distinct_remove1_removeAll [of b i] length_remove1 [of i b] by auto
    then show ?thesis using b k by (auto simp: lastN_def)
  next
    case False
    then have "removeAll i b = b" by simp
    then show ?thesis using b k by (auto simp: lastN_def)
  qed
  then show ?thesis using k by (simp add: touch_def lastN_snoc b_def [symmetric]) (simp add: r)
qed


text \<open>The names an LRU store touches, in order.\<close>

datatype lru_event = LruInsert time data bool | LruFind time interest

fun lru_step :: "ndn_lib \<Rightarrow> lru_event \<Rightarrow> name list cs \<times> name list \<Rightarrow> (name list cs \<times> name list) option" where
  "lru_step L (LruInsert now d u) (s, h) = do {
     s' \<leftarrow> cs_insert lruOps L now d u s;
     Some (s', h @ (if d_noCache d then [] else [d_fullName d])) }"
| "lru_step L (LruFind now i) (s, h) = do {
     (s', match) \<leftarrow> cs_findImpl lruOps L now i s;
     Some (s', h @ (case match of None \<Rightarrow> [] | Some e \<Rightarrow> [ce_key e])) }"

fun lru_run :: "ndn_lib \<Rightarrow> lru_event list \<Rightarrow> name list cs \<times> name list \<Rightarrow> (name list cs \<times> name list) option" where
  "lru_run L [] sh = Some sh"
| "lru_run L (e # es) sh = do { sh' \<leftarrow> lru_step L e sh; lru_run L es sh' }"

fun lru_event_plain :: "ndn_lib \<Rightarrow> lru_event \<Rightarrow> bool" where
  "lru_event_plain L (LruInsert now d u) = plainName L (d_name d)"
| "lru_event_plain L (LruFind now i) = True"

definition recency :: "'a list \<Rightarrow> 'a list" where
  "recency h = fold touch h []"

lemma distinct_recency: "distinct (recency h)"
proof -
  have "distinct r \<Longrightarrow> distinct (fold touch h r)" for r by (induction h arbitrary: r) auto
  then show ?thesis by (simp add: recency_def)
qed

lemma lru_insertToQueue_touch:
  "distinct q \<Longrightarrow> lru_insertToQueue i (i \<notin> set q) q = Some (touch i q)"
  by (auto simp: lru_insertToQueue_def touch_def distinct_remove1_removeAll)

lemma lastN_full: "length r \<le> k \<Longrightarrow> lastN k r = r"
  by (simp add: lastN_def)

lemma length_touch_in: "distinct q \<Longrightarrow> i \<in> set q \<Longrightarrow> length (touch i q) = length q"
  using distinct_remove1_removeAll [of q i] length_remove1 [of i q] length_pos_if_in_set [of i q]
  by (simp add: touch_def)

text \<open>An insertion or a hit touches the queue, and the queue keeps its last names.\<close>

lemma lru_insert_queue:
  assumes L: "cs_lib_laws L" and inv: "cs_inv lru_tracks L s" and adm: "cs_shouldAdmit s" "cs_limit s \<noteq> 0" "\<not> d_noCache d"
    and ins: "cs_insert lruOps L now d u s = Some s'"
  shows "cs_policy s' = lastN (cs_limit s) (touch (d_fullName d) (cs_policy s))"
proof -
  let ?e = "newCsEntry now d u" and ?i = "d_fullName d" and ?q = "cs_policy s"
  obtain t isNew where em: "table_emplace L ?e (cs_table s) = (t, isNew)" by (cases "table_emplace L ?e (cs_table s)")
  have ok: "cs_table_ok L (cs_table s)" and q: "distinct ?q" "set ?q = table_keys (cs_table s)"
    and len: "length (cs_table s) \<le> cs_limit s" using inv by (auto simp: cs_inv_def lru_tracks_def)
  have sorted: "sorted_wrt (entryLess L) (cs_table s)" using ok by (simp add: cs_table_ok_def)
  note E = cs_lib_laws.table_emplace_spec [OF L sorted, of ?e, unfolded em fst_conv snd_conv, simplified]
  have new: "isNew \<longleftrightarrow> ?i \<notin> set ?q" using E(2) q by simp
  have lq: "length ?q = length (cs_table s)"
    using card_table_keys [OF cs_lib_laws.table_ok_distinct [OF L ok]] q distinct_card by metis
  have qi: "lru_insertToQueue ?i isNew ?q = Some (touch ?i ?q)"
    unfolding new by (rule lru_insertToQueue_touch [OF q(1)])
  show ?thesis
  proof (cases isNew)
    case True
    let ?t1 = "table_update ?i (updateFreshUntil now) t"
    have k1: "table_keys ?t1 = insert ?i (table_keys (cs_table s))" "map ce_key ?t1 = map ce_key t"
      using E(3) by (auto simp: table_update_data table_keys_def)
    have d1: "distinct (map ce_key ?t1)"
      using cs_lib_laws.sorted_distinct [OF L E(1)] k1(2) by metis
    have l1: "length ?t1 = Suc (length (cs_table s))" using E(2,4) True by (simp add: table_update_def)
    have tr: "lru_tracks (touch ?i ?q) (table_keys ?t1)" using q k1 by (auto simp: lru_tracks_def touch_def distinct_removeAll)
    have lt: "length (touch ?i ?q) = length ?t1" using True new l1 lq by (simp add: touch_def)
    from lru_evict_spec [OF tr d1, of "cs_limit s"] obtain t2 where
      "lru_evictEntries (cs_limit s) (touch ?i ?q, ?t1) = Some (lastN (cs_limit s) (touch ?i ?q), t2)"
      unfolding lastN_def lt by blast
    then show ?thesis
      using ins adm em True qi by (auto simp: cs_insert_def Let_def lruOps_def lru_doAfterInsert_def)
  next
    case False
    have "length (touch ?i ?q) \<le> cs_limit s" using length_touch_in [OF q(1)] False new lq len by simp
    then show ?thesis
      using ins adm em False qi by (auto simp: cs_insert_def Let_def lruOps_def lru_doAfterRefresh_def lastN_full)
  qed
qed

lemma lru_find_queue:
  assumes L: "cs_lib_laws L" and inv: "cs_inv lru_tracks L s"
    and f: "cs_findImpl lruOps L now i s = Some (s', match)"
  shows "cs_policy s' = lastN (cs_limit s) (case match of None \<Rightarrow> cs_policy s | Some e \<Rightarrow> touch (ce_key e) (cs_policy s))"
proof -
  have ok: "cs_table_ok L (cs_table s)" and q: "distinct (cs_policy s)" "set (cs_policy s) = table_keys (cs_table s)"
    and len: "length (cs_table s) \<le> cs_limit s" using inv by (auto simp: cs_inv_def lru_tracks_def)
  have lq: "length (cs_policy s) \<le> cs_limit s"
    using card_table_keys [OF cs_lib_laws.table_ok_distinct [OF L ok]] q distinct_card len by metis
  show ?thesis
  proof (cases match)
    case None
    then have "s' = s" using f by (auto simp: cs_findImpl_def Let_def split: if_splits option.splits bind_splits)
    then show ?thesis using None lq by (simp add: lastN_full)
  next
    case (Some e)
    then have m: "find (canSatisfy L now i) (cs_table s) = Some e"
      and p: "lru_doBeforeUse (ce_key e) (cs_policy s) = Some (cs_policy s')"
      using f cs_lib_laws.find_range [OF L ok]
      by (auto simp: cs_findImpl_def Let_def lruOps_def split: if_splits option.splits bind_splits)
    have e: "ce_key e \<in> set (cs_policy s)" using m q(2) by (auto simp: table_keys_def dest: find_Some_iff2)
    then have "cs_policy s' = touch (ce_key e) (cs_policy s)"
      using p lru_insertToQueue_touch [OF q(1), of "ce_key e"] by (simp add: lru_doBeforeUse_def)
    then show ?thesis using Some lq length_touch_in [OF q(1) e] by (simp add: lastN_full)
  qed
qed

lemma lru_run_recency:
  assumes L: "cs_lib_laws L"
  shows "cs_inv lru_tracks L s \<Longrightarrow> cs_shouldAdmit s \<Longrightarrow> cs_limit s = k \<Longrightarrow> 0 < k \<Longrightarrow>
    cs_policy s = lastN k (recency h) \<Longrightarrow> list_all (lru_event_plain L) es \<Longrightarrow>
    \<exists>s' h'. lru_run L es (s, h) = Some (s', h') \<and> cs_inv lru_tracks L s' \<and> cs_policy s' = lastN k (recency h')"
proof (induction es arbitrary: s h)
  case (Cons ev es)
  note store = cs_store.intro [OF lru.cs_policy_laws_axioms L]
  have t: "lastN k (touch i (cs_policy s)) = lastN k (recency (h @ [i]))" for i
    using touch_lastN [OF distinct_recency Cons.prems(4), of i h] Cons.prems(5) by (simp add: recency_def)
  show ?case
  proof (cases ev)
    case (LruInsert now d u)
    have plain: "plainName L (d_name d)" using Cons.prems(6) LruInsert by simp
    from cs_store.insert_spec [OF store Cons.prems(1) plain, of now u] obtain s1 where
      s1: "cs_insert lruOps L now d u s = Some s1" "cs_inv lru_tracks L s1" "cs_limit s1 = k" "cs_shouldAdmit s1"
      "d_noCache d \<Longrightarrow> s1 = s"
      using Cons.prems(2,3) by (auto split: if_splits)
    let ?h = "h @ (if d_noCache d then [] else [d_fullName d])"
    have "cs_policy s1 = lastN k (recency ?h)"
    proof (cases "d_noCache d")
      case True
      then show ?thesis using s1(5) Cons.prems(5) by simp
    next
      case False
      from lru_insert_queue [OF L Cons.prems(1,2) _ False s1(1)] show ?thesis
        using Cons.prems(3,4) t False by simp
    qed
    from Cons.IH [OF s1(2,4,3) Cons.prems(4) this] Cons.prems(6) show ?thesis
      using LruInsert s1(1) by simp
  next
    case (LruFind now i)
    from cs_store.find_spec [OF store Cons.prems(1), of now i] obtain s1 match where
      s1: "cs_findImpl lruOps L now i s = Some (s1, match)" "cs_inv lru_tracks L s1" "cs_limit s1 = k" "cs_shouldAdmit s1"
      using Cons.prems(2,3) by auto
    let ?h = "h @ (case match of None \<Rightarrow> [] | Some e \<Rightarrow> [ce_key e])"
    have "lastN k (cs_policy s) = cs_policy s" using Cons.prems(5) by (simp add: lastN_def)
    then have "cs_policy s1 = lastN k (recency ?h)"
      using lru_find_queue [OF L Cons.prems(1) s1(1)] t Cons.prems(3,5) by (cases match) auto
    from Cons.IH [OF s1(2,4,3) Cons.prems(4) this] Cons.prems(6) show ?thesis
      using LruFind s1(1) by simp
  qed
qed simp

section \<open>The order of eviction of the priority FIFO policy\<close>

text \<open>
  The queues agree with the attributes of the entries, the event of a fresh entry is scheduled
  for the time it stops being fresh, and the events that were due have run.
\<close>

definition pf_agrees :: "time \<Rightarrow> entryInfo \<Rightarrow> cs_entry \<Rightarrow> bool" where
  "pf_agrees now info e \<longleftrightarrow>
     (case ei_queueType info of
        QUEUE_UNSOLICITED \<Rightarrow> ce_unsolicited e
      | QUEUE_STALE \<Rightarrow> \<not> ce_unsolicited e \<and> ce_freshUntil e \<le> now
      | QUEUE_FIFO \<Rightarrow> \<not> ce_unsolicited e \<and> ei_moveStaleEvent info = Some (ce_freshUntil e))"

definition pf_consistent :: "time \<Rightarrow> pfPolicy \<Rightarrow> cs_table \<Rightarrow> bool" where
  "pf_consistent now f t \<longleftrightarrow>
     list_all (\<lambda>e. case pf_entryInfoMap f (ce_key e) of None \<Rightarrow> False | Some info \<Rightarrow> pf_agrees now info e) t"

definition noEventDue :: "time \<Rightarrow> pfPolicy \<Rightarrow> cs_table \<Rightarrow> bool" where
  "noEventDue now f t \<longleftrightarrow>
     list_all (\<lambda>e. case Option.bind (pf_entryInfoMap f (ce_key e)) ei_moveStaleEvent of None \<Rightarrow> True | Some x \<Rightarrow> now < x) t"

definition evictionClass :: "time \<Rightarrow> cs_entry \<Rightarrow> nat" where
  "evictionClass now e = (if ce_unsolicited e then 0 else if ce_freshUntil e \<le> now then 1 else 2)"

lemma rank_class:
  assumes "pf_consistent now f t" and "noEventDue now f t" and "e \<in> set t"
  shows "pf_rankOf f (ce_key e) = evictionClass now e"
  using assms
  by (auto simp: pf_consistent_def noEventDue_def list_all_iff pf_agrees_def pf_rankOf_def pf_rank_def
      evictionClass_def split: option.splits queueType.splits)

lemma pf_agrees_new:
  assumes "ce_freshUntil e = now + ms (d_freshnessPeriod (ce_data e))"
  shows "pf_agrees now (pf_newEntryInfo now e) e"
  using assms by (auto simp: pf_agrees_def pf_newEntryInfo_def isFresh_def ms_def)

lemma pf_insert_new:
  assumes L: "cs_lib_laws L" and inv: "cs_inv pf_tracks L s" and new: "d_fullName d \<notin> table_keys (cs_table s)"
    and adm: "cs_shouldAdmit s" "cs_limit s \<noteq> 0" "\<not> d_noCache d"
    and con: "pf_consistent now (cs_policy s) (cs_table s)" and due: "noEventDue now (cs_policy s) (cs_table s)"
    and fresh: "0 < d_freshnessPeriod d" and ins: "cs_insert pfOps L now d u s = Some s'"
  shows "pf_consistent now (cs_policy s') (cs_table s')"
    and "v \<in> set (cs_table s) \<Longrightarrow> ce_key v \<notin> table_keys (cs_table s') \<Longrightarrow> e \<in> set (cs_table s') \<Longrightarrow>
      evictionClass now v \<le> evictionClass now e"
proof -
  let ?e = "newCsEntry now d u" and ?i = "d_fullName d" and ?f = "cs_policy s"
  note store = cs_store.intro [OF pfifo.cs_policy_laws_axioms L]
  obtain t where t: "sorted_wrt (entryLess L) t" and st: "set t = insert ?e (set (cs_table s))"
    and ai: "pf_doAfterInsert now (cs_limit s) ?i (?f, t) = Some (cs_policy s', cs_table s')"
    using cs_store.insert_new [OF store inv new adm ins] by (auto simp: pfOps_def)
  have tr: "pf_tracks ?f (table_keys (cs_table s))" using inv by (simp add: cs_inv_def)
  have kt: "table_keys t = insert ?i (table_keys (cs_table s))" using st by (simp add: table_keys_def)
  have old: "ce_key x \<noteq> ?i" if "x \<in> set (cs_table s)" for x
    using that new by (metis imageI list.set_map table_keys_def)
  have dt: "distinct (map ce_key t)" by (rule cs_lib_laws.sorted_distinct [OF L t])
  obtain e0 where e0: "table_get ?i t = Some e0" "e0 \<in> set t" "ce_key e0 = ?i" using table_get_Some [of ?i t] kt by auto
  then have e0_eq: "e0 = ?e" using st old by auto
  from pf_attach_spec [OF tr new e0(1), of now] obtain f1 where
    f1: "pf_attachQueue now ?i (?f, t) = Some f1" "pf_tracks f1 (table_keys t)"
    "pf_entryInfoMap f1 = (pf_entryInfoMap ?f)(?i \<mapsto> pf_newEntryInfo now ?e)"
    unfolding kt e0_eq by blast
  have "ce_freshUntil ?e = now + ms (d_freshnessPeriod (ce_data ?e))" by (simp add: newCsEntry_def updateFreshUntil_def)
  from pf_agrees_new [OF this] have con1: "pf_consistent now f1 t"
    using con old by (auto simp: pf_consistent_def list_all_iff st f1(3))
  have due1: "noEventDue now f1 t"
    using due old fresh
    by (auto simp: noEventDue_def list_all_iff st f1(3) pf_newEntryInfo_def ms_def)
  from pf_evict_spec [OF f1(2) dt, of "cs_limit s"] obtain f2 t2 where
    r: "pf_evictEntries (cs_limit s) (f1, t) = Some (f2, t2)" "evictedTo (cs_limit s) t t2"
    "pf_entryInfoMap f2 = pf_entryInfoMap f1 |` table_keys t2"
    "\<forall>v \<in> table_keys t - table_keys t2. \<forall>e \<in> table_keys t2. pf_rankOf f1 v \<le> pf_rankOf f1 e" by blast
  have s': "cs_table s' = t2" "cs_policy s' = f2"
    using ai f1(1) r(1) by (simp_all add: pf_doAfterInsert_def)
  have sub: "set t2 \<subseteq> set t" using r(2) by (auto simp: evictedTo_def dest: list_emb_set)
  show "pf_consistent now (cs_policy s') (cs_table s')"
    using con1 sub by (auto simp: s' pf_consistent_def list_all_iff r(3) table_keys_def)
  show "evictionClass now v \<le> evictionClass now e"
    if "v \<in> set (cs_table s)" "ce_key v \<notin> table_keys (cs_table s')" "e \<in> set (cs_table s')"
  proof -
    have v: "v \<in> set t" and e: "e \<in> set t" using that st sub by (auto simp: s')
    have "pf_rankOf f1 (ce_key v) \<le> pf_rankOf f1 (ce_key e)"
      using r(4) that v by (auto simp: s' table_keys_def)
    then show ?thesis using rank_class [OF con1 due1] v e by simp
  qed
qed

lemma find_Some_split:
  "find P xs = Some e \<Longrightarrow> \<exists>us vs. xs = us @ e # vs \<and> P e \<and> list_all (\<lambda>x. \<not> P x) us"
proof (induction xs)
  case (Cons x xs)
  show ?case
  proof (cases "P x")
    case True
    then show ?thesis using Cons.prems by (auto intro: exI [of _ "[]"])
  next
    case False
    then obtain us vs where "xs = us @ e # vs" "P e" "list_all (\<lambda>x. \<not> P x) us" using Cons by auto
    then show ?thesis using False by (intro exI [of _ "x # us"] exI [of _ vs]) simp
  qed
qed simp

section \<open>Theorems\<close>

text \<open>
  C24: the content store never exceeds its limit and never fails. Whatever sequence of
  insertions, erasures, lookups, changes of limit, policy and flags, and policy events is
  performed on a new store, every eviction loop ends, no assertion of a policy fails, and the
  table holds at most as many packets as the limit, with distinct full names, all of them and
  nothing else tracked by the policy.
\<close>

theorem content_store_bounded:
  assumes "cs_lib_laws L" and "policy_create name = Some p" and "list_all (cs_op_plain L) ops"
  shows "\<exists>s s'. newCs policyOps p nMaxPackets = Some s \<and> cs_run L ops s = Some s' \<and>
    length (cs_table s') \<le> cs_limit s' \<and> distinct (map ce_key (cs_table s')) \<and>
    policy_tracks (cs_policy s') (table_keys (cs_table s'))"
proof -
  note store = cs_store.intro [OF dispatch.cs_policy_laws_axioms assms(1)]
  obtain s where "newCs policyOps p nMaxPackets = Some s" "cs_inv policy_tracks L s"
    using cs_store.newCs_spec [OF store tracks_create [OF assms(2)]] by blast
  moreover from cs_run_inv [OF assms(1) this(2) assms(3)] obtain s' where
    "cs_run L ops s = Some s'" "cs_inv policy_tracks L s'" by blast
  ultimately show ?thesis using cs_lib_laws.table_ok_distinct [OF assms(1)] by (auto simp: cs_inv_def)
qed

definition csData :: "string \<Rightarrow> data" where
  "csData n = \<lparr>d_name = [Component 8 n], d_digest = Component 1 ''digest'', d_freshnessPeriod = 1000,
     d_noCache = False, d_incomingFaceId = None, d_pitToken = None\<rparr>"

lemma csData_plain: "plainName canonicalLib (d_name (csData n))"
  by (simp add: plainName_def csData_def canonicalLib_def)

theorem content_store_bounded_witness:
  "\<exists>s s'. newCs policyOps (PriorityFifoPolicy newPfPolicy) 1 = Some s \<and>
     cs_run canonicalLib [CsInsert 0 (csData ''a'') False, CsInsert 5 (csData ''b'') True, CsSetLimit 0] s = Some s' \<and>
     length (cs_table s') \<le> cs_limit s'"
proof -
  have p: "policy_create ''priority_fifo'' = Some (PriorityFifoPolicy newPfPolicy)" by (simp add: policy_create_def)
  show ?thesis
    using content_store_bounded [OF canonical_cs.cs_lib_laws_axioms p,
        of "[CsInsert 0 (csData ''a'') False, CsInsert 5 (csData ''b'') True, CsSetLimit 0]" 1]
    by (auto simp: csData_plain)
qed

text \<open>
  C25: a lookup in the content store is exact. It returns the first entry, in the order of the
  table, of all entries that can satisfy the Interest, although it searches only the range
  between the Interest's name and its successor; it misses if there is none, or if serving is
  disabled or the limit is zero; and it does not change the table.
\<close>

theorem content_store_find_exact:
  assumes "cs_lib_laws L" and "cs_inv policy_tracks L s"
  shows "\<exists>s' r. cs_find policyOps L now i s = Some (s', r) \<and> cs_inv policy_tracks L s' \<and> cs_table s' = cs_table s \<and>
    (case r of
       None \<Rightarrow> \<not> cs_shouldServe s \<or> cs_limit s = 0 \<or> list_all (\<lambda>e. \<not> canSatisfy L now i e) (cs_table s)
     | Some d \<Rightarrow> \<exists>xs e ys. cs_table s = xs @ e # ys \<and> ce_data e = d \<and> canSatisfy L now i e \<and>
         list_all (\<lambda>e. \<not> canSatisfy L now i e) xs)"
proof -
  note store = cs_store.intro [OF dispatch.cs_policy_laws_axioms assms(1)]
  let ?served = "cs_shouldServe s \<and> cs_limit s \<noteq> 0"
  let ?m = "if ?served then find (canSatisfy L now i) (cs_table s) else None"
  obtain s' where s': "cs_findImpl policyOps L now i s = Some (s', ?m)" "cs_inv policy_tracks L s'" "cs_table s' = cs_table s"
    using cs_store.find_spec [OF store assms(2), of now i] by blast
  have r: "cs_find policyOps L now i s = Some (s', map_option ce_data ?m)" using s'(1) by (simp add: cs_find_def)
  have "case map_option ce_data ?m of
       None \<Rightarrow> \<not> cs_shouldServe s \<or> cs_limit s = 0 \<or> list_all (\<lambda>e. \<not> canSatisfy L now i e) (cs_table s)
     | Some d \<Rightarrow> \<exists>xs e ys. cs_table s = xs @ e # ys \<and> ce_data e = d \<and> canSatisfy L now i e \<and>
         list_all (\<lambda>e. \<not> canSatisfy L now i e) xs"
  proof (cases ?m)
    case None
    then show ?thesis by (auto simp: find_None_iff list_all_iff split: if_splits)
  next
    case (Some e)
    then have "find (canSatisfy L now i) (cs_table s) = Some e" by (simp split: if_splits)
    from find_Some_split [OF this] show ?thesis using Some by auto
  qed
  then show ?thesis using r s'(2,3) by blast
qed

lemma empty_store:
  "cs_inv policy_tracks canonicalLib \<lparr>cs_table = [], cs_policy = LruPolicy [], cs_limit = n, cs_shouldAdmit = True, cs_shouldServe = True\<rparr>"
  by (simp add: cs_inv_def cs_table_ok_def policy_tracks_def lru_tracks_def table_keys_def)

definition csExample :: "string \<Rightarrow> policy cs" where
  "csExample n = \<lparr>cs_table = [newCsEntry 0 (csData n) False], cs_policy = LruPolicy [d_fullName (csData n)],
     cs_limit = 1, cs_shouldAdmit = True, cs_shouldServe = True\<rparr>"

lemma csExample_inv: "cs_inv policy_tracks canonicalLib (csExample n)"
  by (simp add: cs_inv_def csExample_def cs_table_ok_def csData_plain policy_tracks_def lru_tracks_def table_keys_def)

definition csInterest :: "name \<Rightarrow> interest" where
  "csInterest n = \<lparr>i_name = n, i_canBePrefix = True, i_mustBeFresh = True, i_nonce = 1, i_lifetime = 4000,
     i_hopLimit = None, i_forwardingHint = [], i_nextHopFaceId = None, i_incomingFaceId = None, i_pitToken = None\<rparr>"

theorem content_store_find_exact_witness:
  "\<exists>s'. cs_find policyOps canonicalLib 1 (csInterest []) (csExample ''a'') = Some (s', Some (csData ''a''))"
proof -
  have "canSatisfy canonicalLib 1 (csInterest []) (newCsEntry 0 (csData ''a'') False)"
    by (simp add: canSatisfy_def csInterest_def newCsEntry_def updateFreshUntil_def csData_def isFresh_def
        canonicalLib_def ms_def)
  then show ?thesis
    using content_store_find_exact [OF canonical_cs.cs_lib_laws_axioms csExample_inv [of "''a''"], of 1 "csInterest []"]
    by (auto simp: csExample_def Cons_eq_append_conv split: option.splits)
qed

text \<open>
  C26: the LRU policy keeps the most recently used packets. Over any sequence of insertions and
  lookups on a new store with a positive limit, the store holds exactly the last names, as many
  as the limit, in the list of all touched names ordered by their last touch, where inserting a
  packet touches its full name and a hit touches that of the packet found.
\<close>

theorem lru_keeps_most_recent:
  assumes "cs_lib_laws L" and "0 < k" and "list_all (lru_event_plain L) es"
  shows "\<exists>s s' h. newCs lruOps [] k = Some s \<and> lru_run L es (s, []) = Some (s', h) \<and>
    table_keys (cs_table s') = set (lastN k (recency h)) \<and> cs_policy s' = lastN k (recency h)"
proof -
  note store = cs_store.intro [OF lru.cs_policy_laws_axioms assms(1)]
  obtain s where s: "newCs lruOps [] k = Some s" "cs_inv lru_tracks L s" "cs_limit s = k" "cs_table s = []" "cs_shouldAdmit s"
    using cs_store.newCs_spec [OF store, of "[]" k] by (auto simp: lru_tracks_def)
  then have "cs_policy s = lastN k (recency [])"
    by (auto simp: cs_inv_def lru_tracks_def table_keys_def recency_def lastN_def)
  from lru_run_recency [OF assms(1) s(2,5,3) assms(2) this assms(3)] obtain s' h where
    "lru_run L es (s, []) = Some (s', h)" "cs_inv lru_tracks L s'" "cs_policy s' = lastN k (recency h)" by blast
  then show ?thesis using s(1) by (auto simp: cs_inv_def lru_tracks_def)
qed

theorem lru_keeps_most_recent_witness:
  "\<exists>s s' h. newCs lruOps [] 1 = Some s \<and>
     lru_run canonicalLib [LruInsert 0 (csData ''a'') False, LruInsert 1 (csData ''b'') False] (s, []) = Some (s', h) \<and>
     table_keys (cs_table s') = {d_fullName (csData ''b'')}"
proof -
  let ?es = "[LruInsert 0 (csData ''a'') False, LruInsert 1 (csData ''b'') False]"
  have "list_all (lru_event_plain canonicalLib) ?es" by (simp add: csData_plain)
  from lru_keeps_most_recent [OF canonical_cs.cs_lib_laws_axioms _ this, of 1] obtain s s' h where
    r: "newCs lruOps [] 1 = Some s" "lru_run canonicalLib ?es (s, []) = Some (s', h)"
    "table_keys (cs_table s') = set (lastN 1 (recency h))" by auto
  have "h = [d_fullName (csData ''a''), d_fullName (csData ''b'')]"
    using r(2) by (auto simp: csData_def split: bind_splits)
  then have "lastN 1 (recency h) = [d_fullName (csData ''b'')]"
    by (simp add: recency_def touch_def lastN_def csData_def d_fullName_def)
  then show ?thesis using r by auto
qed

text \<open>
  C27: what was stored can be retrieved. After a packet that is not in a store with the LRU
  policy has been inserted, an Interest with its full name, which the packet matches, finds
  that very packet.
\<close>

theorem lru_insert_find_roundtrip:
  assumes "cs_lib_laws L" and "cs_inv lru_tracks L s" and "plainName L (d_name d)"
    and "cs_shouldAdmit s" and "cs_shouldServe s" and "cs_limit s \<noteq> 0" and "\<not> d_noCache d"
    and "d_fullName d \<notin> table_keys (cs_table s)" and "0 \<le> d_freshnessPeriod d"
    and "i_name i = d_fullName d" and "isImplicitSha256Digest L (d_digest d)" and "matchesData L i d"
  shows "\<exists>s1 s2. cs_insert lruOps L now d u s = Some s1 \<and> cs_find lruOps L now i s1 = Some (s2, Some d)"
proof -
  note L = assms(1)
  note store = cs_store.intro [OF lru.cs_policy_laws_axioms L]
  let ?e = "newCsEntry now d u"
  from cs_store.insert_spec [OF store assms(2,3), of now u] obtain s1 where
    s1: "cs_insert lruOps L now d u s = Some s1" "cs_inv lru_tracks L s1" "cs_limit s1 = cs_limit s" "cs_shouldServe s1"
    using assms(5) by auto
  have "d_fullName d \<in> set (cs_policy s1)"
    using lru_insert_queue [OF L assms(2,4,6,7) s1(1)] assms(6) by (simp add: touch_def lastN_snoc)
  then have "d_fullName d \<in> table_keys (cs_table s1)" using s1(2) by (simp add: cs_inv_def lru_tracks_def)
  then obtain x where x: "x \<in> set (cs_table s1)" "ce_key x = d_fullName d" by (auto simp: table_keys_def)
  have sub: "set (cs_table s1) \<subseteq> insert ?e (set (cs_table s))"
    by (rule cs_store.insert_new_entries [OF store assms(2,8,4,6,7) s1(1)])
  have uniq: "y = ?e" if "y \<in> set (cs_table s1)" "ce_key y = d_fullName d" for y
    using that sub assms(8) unfolding table_keys_def by (metis imageI insertE list.set_map subsetD)
  have sat: "canSatisfy L now i ?e"
    using assms(9,12) by (simp add: canSatisfy_def isFresh_def newCsEntry_def updateFreshUntil_def ms_def)
  have only: "y = ?e" if y: "y \<in> set (cs_table s1)" "canSatisfy L now i y" for y
  proof -
    have "matchesData L i (ce_data y)" using y(2) by (simp add: canSatisfy_def split: if_splits)
    moreover have "\<not> prefix (i_name i) (d_name (ce_data y))"
    proof
      assume "prefix (i_name i) (d_name (ce_data y))"
      then have "d_digest d \<in> set (d_name (ce_data y))"
        using set_mono_prefix [of "i_name i"] assms(10) by (auto simp: d_fullName_def)
      then show False using s1(2) y(1) assms(11)
        by (auto simp: cs_inv_def cs_table_ok_def list_all_iff plainName_def)
    qed
    ultimately have "ce_key y = d_fullName d"
      using ndn_lib_laws.matches_name [OF cs_lib_laws.axioms(1) [OF L]] assms(10) unfolding ce_key_def by metis
    then show ?thesis using uniq y(1) by blast
  qed
  have e: "?e \<in> set (cs_table s1)" using uniq x by simp
  have "find (canSatisfy L now i) (cs_table s1) = Some ?e"
  proof (cases "find (canSatisfy L now i) (cs_table s1)")
    case None
    then show ?thesis using e sat unfolding find_None_iff by blast
  next
    case (Some y)
    then show ?thesis using only find_Some_iff2 [OF Some] by simp
  qed
  then show ?thesis
    using cs_store.find_spec [OF store s1(2), of now i] s1 assms(6) by (auto simp: cs_find_def)
qed

definition csDigest :: "string \<Rightarrow> interest" where
  "csDigest n = csInterest (d_fullName (csData n))"

theorem lru_insert_find_roundtrip_witness:
  "\<exists>s1 s2. cs_insert lruOps canonicalLib 3 (csData ''b'') False
      \<lparr>cs_table = [newCsEntry 0 (csData ''a'') False], cs_policy = [d_fullName (csData ''a'')],
       cs_limit = 1, cs_shouldAdmit = True, cs_shouldServe = True\<rparr> = Some s1 \<and>
     cs_find lruOps canonicalLib 3 (csDigest ''b'') s1 = Some (s2, Some (csData ''b''))"
proof -
  let ?s = "\<lparr>cs_table = [newCsEntry 0 (csData ''a'') False], cs_policy = [d_fullName (csData ''a'')],
       cs_limit = 1, cs_shouldAdmit = True, cs_shouldServe = True\<rparr>"
  have "cs_inv lru_tracks canonicalLib ?s"
    by (simp add: cs_inv_def cs_table_ok_def csData_plain lru_tracks_def table_keys_def)
  from lru_insert_find_roundtrip [OF canonical_cs.cs_lib_laws_axioms this csData_plain, of "''b''" "csDigest ''b''" 3 False]
  show ?thesis
    by (simp add: csData_def csDigest_def csInterest_def d_fullName_def canonicalLib_def table_keys_def)
qed


definition pfExample :: "pfPolicy cs" where
  "pfExample = \<lparr>cs_table = [newCsEntry 0 (csData ''a'') False],
     cs_policy = \<lparr>pf_queues = (\<lambda>_. [])(QUEUE_FIFO := [d_fullName (csData ''a'')]),
       pf_entryInfoMap = [d_fullName (csData ''a'') \<mapsto>
         \<lparr>ei_queueType = QUEUE_FIFO, ei_moveStaleEvent = Some 1000000000\<rparr>]\<rparr>,
     cs_limit = 1, cs_shouldAdmit = True, cs_shouldServe = True\<rparr>"


text \<open>
  C29: erasing by prefix. For a prefix without an implicit digest, the erasure removes the
  first entries, as many as the limit given, of those whose name has the prefix, in the order
  of the table; it removes nothing else and returns how many it removed.
\<close>

theorem content_store_erase:
  assumes "cs_lib_laws L" and "cs_inv policy_tracks L s" and "\<not> queryIsFullName L n"
  shows "\<exists>s'. cs_eraseImpl policyOps L n limit s =
      Some (s', min limit (length (filter (\<lambda>e. prefix n (d_name (ce_data e))) (cs_table s)))) \<and>
    cs_inv policy_tracks L s' \<and>
    cs_table s' = filter (\<lambda>e. e \<notin> set (take limit (filter (\<lambda>e. prefix n (d_name (ce_data e))) (cs_table s)))) (cs_table s)"
proof -
  note store = cs_store.intro [OF dispatch.cs_policy_laws_axioms assms(1)]
  have "sorted_wrt (entryLess L) (cs_table s)" using assms(2) by (simp add: cs_inv_def cs_table_ok_def)
  from cs_lib_laws.range_prefix [OF assms(1) this assms(3)] show ?thesis
    using cs_store.erase_spec [OF store assms(2), of n limit] by auto
qed

theorem content_store_erase_witness:
  "\<exists>s'. cs_eraseImpl policyOps canonicalLib [] 5 (csExample ''a'') = Some (s', 1) \<and> cs_table s' = []"
proof -
  have "\<not> queryIsFullName canonicalLib []" by (simp add: queryIsFullName_def)
  from content_store_erase [OF canonical_cs.cs_lib_laws_axioms csExample_inv this, of 5 "''a''"]
  show ?thesis by (simp add: csExample_def) blast
qed

end
