(* ===== verification/CityHash.thy ===== *)
theory CityHash
  imports Prelude "HOL-Library.Monad_Syntax"
begin

text \<open>
  \<^verbatim>\<open>daemon/common/city-hash.cpp\<close>: the hash functions of the name tree and of the dead nonce
  list. A buffer is a list of bytes and a pointer into it an integer offset; an access outside
  of the buffer is \<open>None\<close>. Arithmetic wraps at the width of the C++ types. Bytes are loaded in
  the \<^emph>\<open>expected order\<close>, which is little-endian on every platform.
\<close>

unbundle bit_operations_syntax

type_synonym bytes = "8 word list"
type_synonym ptr = int
type_synonym uint32 = "32 word"
type_synonym uint64 = "64 word"
type_synonym uint128 = "uint64 \<times> uint64"

section \<open>Loads\<close>

definition leWord :: "bytes \<Rightarrow> 'a :: len word" where
  "leWord bs = foldr (\<lambda>b acc. push_bit 8 acc OR ucast b) bs 0"

definition byteAt :: "bytes \<Rightarrow> ptr \<Rightarrow> 8 word option" where
  "byteAt buf p = (if 0 \<le> p \<and> p < int (length buf) then Some (buf ! nat p) else None)"

definition Fetch64 :: "bytes \<Rightarrow> ptr \<Rightarrow> uint64 option" where
  "Fetch64 buf p = (if 0 \<le> p \<and> p + 8 \<le> int (length buf) then Some (leWord (take 8 (drop (nat p) buf))) else None)"

definition Fetch32 :: "bytes \<Rightarrow> ptr \<Rightarrow> uint32 option" where
  "Fetch32 buf p = (if 0 \<le> p \<and> p + 4 \<le> int (length buf) then Some (leWord (take 4 (drop (nat p) buf))) else None)"

section \<open>Constants and mixing functions\<close>

definition k0 :: uint64 where "k0 = 0xc3a5c85c97cb3127"
definition k1 :: uint64 where "k1 = 0xb492b66fbe98f273"
definition k2 :: uint64 where "k2 = 0x9ae16a3b2f90404f"
definition c1 :: uint32 where "c1 = 0xcc9e2d51"
definition c2 :: uint32 where "c2 = 0x1b873593"

definition bswap_32 :: "uint32 \<Rightarrow> uint32" where
  "bswap_32 x = push_bit 24 (x AND 0xff) OR push_bit 8 (x AND 0xff00) OR
     drop_bit 8 (x AND 0xff0000) OR drop_bit 24 (x AND 0xff000000)"

definition bswap_64 :: "uint64 \<Rightarrow> uint64" where
  "bswap_64 x =
     push_bit 56 (x AND 0xff) OR push_bit 40 (x AND 0xff00) OR
     push_bit 24 (x AND 0xff0000) OR push_bit 8 (x AND 0xff000000) OR
     drop_bit 8 (x AND 0xff00000000) OR drop_bit 24 (x AND 0xff0000000000) OR
     drop_bit 40 (x AND 0xff000000000000) OR drop_bit 56 (x AND 0xff00000000000000)"

definition fmix :: "uint32 \<Rightarrow> uint32" where
  "fmix h =
     (let h = h XOR drop_bit 16 h;
          h = h * 0x85ebca6b;
          h = h XOR drop_bit 13 h;
          h = h * 0xc2b2ae35
      in h XOR drop_bit 16 h)"

definition Rotate32 :: "uint32 \<Rightarrow> nat \<Rightarrow> uint32" where
  "Rotate32 val shift = (if shift = 0 then val else drop_bit shift val OR push_bit (32 - shift) val)"

definition Mur :: "uint32 \<Rightarrow> uint32 \<Rightarrow> uint32" where
  "Mur a h =
     (let a = a * c1;
          a = Rotate32 a 17;
          a = a * c2;
          h = h XOR a;
          h = Rotate32 h 19
      in h * 5 + 0xe6546b64)"

definition Rotate :: "uint64 \<Rightarrow> nat \<Rightarrow> uint64" where
  "Rotate val shift = (if shift = 0 then val else drop_bit shift val OR push_bit (64 - shift) val)"

definition ShiftMix :: "uint64 \<Rightarrow> uint64" where
  "ShiftMix val = val XOR drop_bit 47 val"

definition HashLen16_mul :: "uint64 \<Rightarrow> uint64 \<Rightarrow> uint64 \<Rightarrow> uint64" where
  "HashLen16_mul u v mul =
     (let a = (u XOR v) * mul;
          a = a XOR drop_bit 47 a;
          b = (v XOR a) * mul;
          b = b XOR drop_bit 47 b
      in b * mul)"

definition Hash128to64 :: "uint128 \<Rightarrow> uint64" where
  "Hash128to64 x =
     (let kMul = 0x9ddfea08eb382d69;
          a = (fst x XOR snd x) * kMul;
          a = a XOR drop_bit 47 a;
          b = (snd x XOR a) * kMul;
          b = b XOR drop_bit 47 b
      in b * kMul)"

definition HashLen16 :: "uint64 \<Rightarrow> uint64 \<Rightarrow> uint64" where
  "HashLen16 u v = Hash128to64 (u, v)"

section \<open>32-bit hash\<close>

definition Hash32Len13to24 :: "bytes \<Rightarrow> ptr \<Rightarrow> nat \<Rightarrow> uint32 option" where
  "Hash32Len13to24 buf s len = do {
     a \<leftarrow> Fetch32 buf (s - 4 + int (len div 2));
     b \<leftarrow> Fetch32 buf (s + 4);
     c \<leftarrow> Fetch32 buf (s + int len - 8);
     d \<leftarrow> Fetch32 buf (s + int (len div 2));
     e \<leftarrow> Fetch32 buf s;
     f \<leftarrow> Fetch32 buf (s + int len - 4);
     let h = of_nat len;
     Some (fmix (Mur f (Mur e (Mur d (Mur c (Mur b (Mur a h))))))) }"

text \<open>The loop adds the bytes as signed characters.\<close>

fun hash32Bytes :: "bytes \<Rightarrow> ptr \<Rightarrow> nat \<Rightarrow> uint32 \<times> uint32 \<Rightarrow> (uint32 \<times> uint32) option" where
  "hash32Bytes buf s 0 bc = Some bc"
| "hash32Bytes buf s (Suc n) (b, c) = do {
     v \<leftarrow> byteAt buf s;
     let b = b * c1 + scast v;
     hash32Bytes buf (s + 1) n (b, c XOR b) }"

definition Hash32Len0to4 :: "bytes \<Rightarrow> ptr \<Rightarrow> nat \<Rightarrow> uint32 option" where
  "Hash32Len0to4 buf s len = do {
     (b, c) \<leftarrow> hash32Bytes buf s len (0, 9);
     Some (fmix (Mur b (Mur (of_nat len) c))) }"

definition Hash32Len5to12 :: "bytes \<Rightarrow> ptr \<Rightarrow> nat \<Rightarrow> uint32 option" where
  "Hash32Len5to12 buf s len = do {
     let a = of_nat len;
     let b = of_nat len * 5;
     let c = 9;
     let d = b;
     va \<leftarrow> Fetch32 buf s;
     vb \<leftarrow> Fetch32 buf (s + int len - 4);
     vc \<leftarrow> Fetch32 buf (s + int ((len div 2) AND 4));
     Some (fmix (Mur (c + vc) (Mur (b + vb) (Mur (a + va) d)))) }"

definition mixA :: "uint32 \<Rightarrow> uint32" where
  "mixA v = Rotate32 (v * c1) 17 * c2"

definition city32Round :: "bytes \<Rightarrow> ptr \<Rightarrow> uint32 \<times> uint32 \<times> uint32 \<Rightarrow> (uint32 \<times> uint32 \<times> uint32) option" where
  "city32Round buf s = (\<lambda>(f, g, h). do {
     v0 \<leftarrow> Fetch32 buf s;
     let a0 = mixA v0;
     a1 \<leftarrow> Fetch32 buf (s + 4);
     v2 \<leftarrow> Fetch32 buf (s + 8);
     let a2 = mixA v2;
     v3 \<leftarrow> Fetch32 buf (s + 12);
     let a3 = mixA v3;
     a4 \<leftarrow> Fetch32 buf (s + 16);
     let h = Rotate32 (h XOR a0) 18 * 5 + 0xe6546b64;
     let f = Rotate32 (f + a1) 19 * c1;
     let g = Rotate32 (g + a2) 18 * 5 + 0xe6546b64;
     let h = Rotate32 (h XOR (a3 + a1)) 19 * 5 + 0xe6546b64;
     let g = bswap_32 (g XOR a4) * 5;
     let h = bswap_32 (h + a4 * 5);
     let f = f + a0;
     Some (g, h, f) })"

text \<open>
  A \<^verbatim>\<open>do\<close>-loop that runs its body \<open>iters\<close> times, which is at least once. The state is in the
  order \<^verbatim>\<open>f\<close>, \<^verbatim>\<open>g\<close>, \<^verbatim>\<open>h\<close>: \<^verbatim>\<open>PERMUTE3(f, h, g)\<close> gives \<^verbatim>\<open>f\<close> the old \<^verbatim>\<open>g\<close>, \<^verbatim>\<open>h\<close> the old \<^verbatim>\<open>f\<close>
  and \<^verbatim>\<open>g\<close> the old \<^verbatim>\<open>h\<close>.
\<close>

fun city32Loop :: "bytes \<Rightarrow> nat \<Rightarrow> ptr \<Rightarrow> uint32 \<times> uint32 \<times> uint32 \<Rightarrow> (uint32 \<times> uint32 \<times> uint32) option" where
  "city32Loop buf 0 s st = Some st"
| "city32Loop buf (Suc iters) s st = do { st' \<leftarrow> city32Round buf s st; city32Loop buf iters (s + 20) st' }"

definition CityHash32 :: "bytes \<Rightarrow> ptr \<Rightarrow> nat \<Rightarrow> uint32 option" where
  "CityHash32 buf s len =
     (if len \<le> 24
      then (if len \<le> 12
            then (if len \<le> 4 then Hash32Len0to4 buf s len else Hash32Len5to12 buf s len)
            else Hash32Len13to24 buf s len)
      else do {
        let h = of_nat len;
        let g = c1 * of_nat len;
        let f = g;
        v0 \<leftarrow> Fetch32 buf (s + int len - 4);
        v1 \<leftarrow> Fetch32 buf (s + int len - 8);
        v2 \<leftarrow> Fetch32 buf (s + int len - 16);
        v3 \<leftarrow> Fetch32 buf (s + int len - 12);
        v4 \<leftarrow> Fetch32 buf (s + int len - 20);
        let h = Rotate32 (h XOR mixA v0) 19 * 5 + 0xe6546b64;
        let h = Rotate32 (h XOR mixA v2) 19 * 5 + 0xe6546b64;
        let g = Rotate32 (g XOR mixA v1) 19 * 5 + 0xe6546b64;
        let g = Rotate32 (g XOR mixA v3) 19 * 5 + 0xe6546b64;
        let f = Rotate32 (f + mixA v4) 19 * 5 + 0xe6546b64;
        (f, g, h) \<leftarrow> city32Loop buf ((len - 1) div 20) s (f, g, h);
        let g = Rotate32 (Rotate32 g 11 * c1) 17 * c1;
        let f = Rotate32 (Rotate32 f 11 * c1) 17 * c1;
        let h = Rotate32 (h + g) 19 * 5 + 0xe6546b64;
        let h = Rotate32 h 17 * c1;
        let h = Rotate32 (h + f) 19 * 5 + 0xe6546b64;
        Some (Rotate32 h 17 * c1) })"

section \<open>64-bit hash\<close>

definition HashLen0to16 :: "bytes \<Rightarrow> ptr \<Rightarrow> nat \<Rightarrow> uint64 option" where
  "HashLen0to16 buf s len =
     (if 8 \<le> len
      then do {
        let mul = k2 + of_nat len * 2;
        va \<leftarrow> Fetch64 buf s;
        let a = va + k2;
        b \<leftarrow> Fetch64 buf (s + int len - 8);
        let c = Rotate b 37 * mul + a;
        let d = (Rotate a 25 + b) * mul;
        Some (HashLen16_mul c d mul) }
      else if 4 \<le> len
      then do {
        let mul = k2 + of_nat len * 2;
        va \<leftarrow> Fetch32 buf s;
        vb \<leftarrow> Fetch32 buf (s + int len - 4);
        Some (HashLen16_mul (of_nat len + push_bit 3 (ucast va)) (ucast vb) mul) }
      else if 0 < len
      then do {
        a \<leftarrow> byteAt buf s;
        b \<leftarrow> byteAt buf (s + int (len div 2));
        c \<leftarrow> byteAt buf (s + int len - 1);
        let y = (ucast a + push_bit 8 (ucast b) :: uint32);
        let z = (of_nat len + push_bit 2 (ucast c) :: uint32);
        Some (ShiftMix (ucast y * k2 XOR ucast z * k0) * k2) }
      else Some k2)"

definition HashLen17to32 :: "bytes \<Rightarrow> ptr \<Rightarrow> nat \<Rightarrow> uint64 option" where
  "HashLen17to32 buf s len = do {
     let mul = k2 + of_nat len * 2;
     va \<leftarrow> Fetch64 buf s;
     let a = va * k1;
     b \<leftarrow> Fetch64 buf (s + 8);
     vc \<leftarrow> Fetch64 buf (s + int len - 8);
     let c = vc * mul;
     vd \<leftarrow> Fetch64 buf (s + int len - 16);
     let d = vd * k2;
     Some (HashLen16_mul (Rotate (a + b) 43 + Rotate c 30 + d) (a + Rotate (b + k2) 18 + c) mul) }"

definition WeakHashLen32WithSeeds :: "uint64 \<Rightarrow> uint64 \<Rightarrow> uint64 \<Rightarrow> uint64 \<Rightarrow> uint64 \<Rightarrow> uint64 \<Rightarrow> uint64 \<times> uint64" where
  "WeakHashLen32WithSeeds w x y z a b =
     (let a = a + w;
          b = Rotate (b + a + z) 21;
          c = a;
          a = a + x;
          a = a + y;
          b = b + Rotate a 44
      in (a + z, b + c))"

definition WeakHashLen32WithSeeds_at :: "bytes \<Rightarrow> ptr \<Rightarrow> uint64 \<Rightarrow> uint64 \<Rightarrow> (uint64 \<times> uint64) option" where
  "WeakHashLen32WithSeeds_at buf s a b = do {
     w \<leftarrow> Fetch64 buf s;
     x \<leftarrow> Fetch64 buf (s + 8);
     y \<leftarrow> Fetch64 buf (s + 16);
     z \<leftarrow> Fetch64 buf (s + 24);
     Some (WeakHashLen32WithSeeds w x y z a b) }"

definition HashLen33to64 :: "bytes \<Rightarrow> ptr \<Rightarrow> nat \<Rightarrow> uint64 option" where
  "HashLen33to64 buf s len = do {
     let mul = k2 + of_nat len * 2;
     va \<leftarrow> Fetch64 buf s;
     let a = va * k2;
     b \<leftarrow> Fetch64 buf (s + 8);
     c \<leftarrow> Fetch64 buf (s + int len - 24);
     d \<leftarrow> Fetch64 buf (s + int len - 32);
     ve \<leftarrow> Fetch64 buf (s + 16);
     let e = ve * k2;
     vf \<leftarrow> Fetch64 buf (s + 24);
     let f = vf * 9;
     g \<leftarrow> Fetch64 buf (s + int len - 8);
     vh \<leftarrow> Fetch64 buf (s + int len - 16);
     let h = vh * mul;
     let u = Rotate (a + g) 43 + (Rotate b 30 + c) * 9;
     let v = ((a + g) XOR d) + f + 1;
     let w = bswap_64 ((u + v) * mul) + h;
     let x = Rotate (e + f) 42 + c;
     let y = (bswap_64 ((v + w) * mul) + g) * mul;
     let z = e + f + c;
     let a = bswap_64 ((x + z) * mul + y) + b;
     let b = ShiftMix ((z + a) * mul + d + h) * mul;
     Some (b + x) }"

text \<open>The 56 bytes of state, and what the loops do with a chunk of 64 bytes.\<close>

record cityState =
  st_x :: uint64
  st_y :: uint64
  st_z :: uint64
  st_v :: "uint64 \<times> uint64"
  st_w :: "uint64 \<times> uint64"

definition cityRound :: "bytes \<Rightarrow> ptr \<Rightarrow> cityState \<Rightarrow> cityState option" where
  "cityRound buf s st = do {
     let x = st_x st; let y = st_y st; let z = st_z st; let v = st_v st; let w = st_w st;
     f8 \<leftarrow> Fetch64 buf (s + 8);
     let x = Rotate (x + y + fst v + f8) 37 * k1;
     f48 \<leftarrow> Fetch64 buf (s + 48);
     let y = Rotate (y + snd v + f48) 42 * k1;
     let x = x XOR snd w;
     f40 \<leftarrow> Fetch64 buf (s + 40);
     let y = y + (fst v + f40);
     let z = Rotate (z + fst w) 33 * k1;
     v \<leftarrow> WeakHashLen32WithSeeds_at buf s (snd v * k1) (x + fst w);
     f16 \<leftarrow> Fetch64 buf (s + 16);
     w \<leftarrow> WeakHashLen32WithSeeds_at buf (s + 32) (z + snd w) (y + f16);
     Some \<lparr>st_x = z, st_y = y, st_z = x, st_v = v, st_w = w\<rparr> }"

partial_function (option) city64Loop :: "bytes \<Rightarrow> uint64 \<Rightarrow> ptr \<Rightarrow> cityState \<Rightarrow> cityState option" where
  "city64Loop buf len s st =
     (case cityRound buf s st of
        None \<Rightarrow> None
      | Some st' \<Rightarrow> if len - 64 \<noteq> 0 then city64Loop buf (len - 64) (s + 64) st' else Some st')"

definition CityHash64 :: "bytes \<Rightarrow> ptr \<Rightarrow> nat \<Rightarrow> uint64 option" where
  "CityHash64 buf s len =
     (if len \<le> 32
      then (if len \<le> 16 then HashLen0to16 buf s len else HashLen17to32 buf s len)
      else if len \<le> 64 then HashLen33to64 buf s len
      else do {
        x \<leftarrow> Fetch64 buf (s + int len - 40);
        y1 \<leftarrow> Fetch64 buf (s + int len - 16);
        y2 \<leftarrow> Fetch64 buf (s + int len - 56);
        let y = y1 + y2;
        z1 \<leftarrow> Fetch64 buf (s + int len - 48);
        z2 \<leftarrow> Fetch64 buf (s + int len - 24);
        let z = HashLen16 (z1 + of_nat len) z2;
        v \<leftarrow> WeakHashLen32WithSeeds_at buf (s + int len - 64) (of_nat len) z;
        w \<leftarrow> WeakHashLen32WithSeeds_at buf (s + int len - 32) (y + k1) x;
        f0 \<leftarrow> Fetch64 buf s;
        let x = x * k1 + f0;
        st \<leftarrow> city64Loop buf ((of_nat len - 1) AND NOT 63) s \<lparr>st_x = x, st_y = y, st_z = z, st_v = v, st_w = w\<rparr>;
        Some (HashLen16 (HashLen16 (fst (st_v st)) (fst (st_w st)) + ShiftMix (st_y st) * k1 + st_z st)
                        (HashLen16 (snd (st_v st)) (snd (st_w st)) + st_x st)) })"

definition CityHash64WithSeeds :: "bytes \<Rightarrow> ptr \<Rightarrow> nat \<Rightarrow> uint64 \<Rightarrow> uint64 \<Rightarrow> uint64 option" where
  "CityHash64WithSeeds buf s len seed0 seed1 = do {
     h \<leftarrow> CityHash64 buf s len;
     Some (HashLen16 (h - seed0) seed1) }"

definition CityHash64WithSeed :: "bytes \<Rightarrow> ptr \<Rightarrow> nat \<Rightarrow> uint64 \<Rightarrow> uint64 option" where
  "CityHash64WithSeed buf s len seed = CityHash64WithSeeds buf s len k2 seed"

section \<open>128-bit hash\<close>

definition murmurRound :: "bytes \<Rightarrow> ptr \<Rightarrow> uint64 \<times> uint64 \<times> uint64 \<times> uint64 \<Rightarrow> (uint64 \<times> uint64 \<times> uint64 \<times> uint64) option" where
  "murmurRound buf s = (\<lambda>(a, b, c, d). do {
     f0 \<leftarrow> Fetch64 buf s;
     let a = (a XOR (ShiftMix (f0 * k1) * k1)) * k1;
     let b = b XOR a;
     f8 \<leftarrow> Fetch64 buf (s + 8);
     let c = (c XOR (ShiftMix (f8 * k1) * k1)) * k1;
     let d = d XOR c;
     Some (a, b, c, d) })"

partial_function (option) murmurLoop :: "bytes \<Rightarrow> int \<Rightarrow> ptr \<Rightarrow> uint64 \<times> uint64 \<times> uint64 \<times> uint64 \<Rightarrow> (uint64 \<times> uint64 \<times> uint64 \<times> uint64) option" where
  "murmurLoop buf l s st =
     (case murmurRound buf s st of
        None \<Rightarrow> None
      | Some st' \<Rightarrow> if 0 < l - 16 then murmurLoop buf (l - 16) (s + 16) st' else Some st')"

definition CityMurmur :: "bytes \<Rightarrow> ptr \<Rightarrow> nat \<Rightarrow> uint128 \<Rightarrow> uint128 option" where
  "CityMurmur buf s len seed = do {
     let a = fst seed; let b = snd seed;
     let l = int len - 16;
     (a, b, c, d) \<leftarrow>
       (if l \<le> 0
        then do {
          let a = ShiftMix (a * k1) * k1;
          h \<leftarrow> HashLen0to16 buf s len;
          let c = b * k1 + h;
          t \<leftarrow> (if 8 \<le> len then Fetch64 buf s else Some c);
          let d = ShiftMix (a + t);
          Some (a, b, c, d) }
        else do {
          v8 \<leftarrow> Fetch64 buf (s + int len - 8);
          let c = HashLen16 (v8 + k1) a;
          v16 \<leftarrow> Fetch64 buf (s + int len - 16);
          let d = HashLen16 (b + of_nat len) (c + v16);
          murmurLoop buf l s (a + d, b, c, d) });
     let a = HashLen16 a c;
     let b = HashLen16 d b;
     Some (a XOR b, HashLen16 b a) }"

partial_function (option) city128Loop :: "bytes \<Rightarrow> uint64 \<Rightarrow> ptr \<Rightarrow> cityState \<Rightarrow> (uint64 \<times> ptr \<times> cityState) option" where
  "city128Loop buf len s st =
     (case cityRound buf s st of None \<Rightarrow> None | Some st1 \<Rightarrow>
      case cityRound buf (s + 64) st1 of None \<Rightarrow> None | Some st2 \<Rightarrow>
        if 128 \<le> len - 128 then city128Loop buf (len - 128) (s + 128) st2
        else Some (len - 128, s + 128, st2))"

function city128Tail :: "bytes \<Rightarrow> nat \<Rightarrow> ptr \<Rightarrow> nat \<Rightarrow> cityState \<Rightarrow> cityState option" where
  "city128Tail buf len s tail_done st =
     (if tail_done < len
      then do {
        let t = tail_done + 32;
        let x = st_x st; let y = st_y st; let z = st_z st; let v = st_v st; let w = st_w st;
        let y = Rotate (x + y) 42 * k0 + snd v;
        f16 \<leftarrow> Fetch64 buf (s + int len - int t + 16);
        let w = (fst w + f16, snd w);
        let x = x * k0 + fst w;
        f0 \<leftarrow> Fetch64 buf (s + int len - int t);
        let z = z + (snd w + f0);
        let w = (fst w, snd w + fst v);
        v \<leftarrow> WeakHashLen32WithSeeds_at buf (s + int len - int t) (fst v + z) (snd v);
        let v = (fst v * k0, snd v);
        city128Tail buf len s t \<lparr>st_x = x, st_y = y, st_z = z, st_v = v, st_w = w\<rparr> }
      else Some st)"
  by pat_completeness auto

termination
  by (relation "measure (\<lambda>(buf, len, s, t, st). len - t)") auto

declare city128Tail.simps [simp del]

definition CityHash128WithSeed :: "bytes \<Rightarrow> ptr \<Rightarrow> nat \<Rightarrow> uint128 \<Rightarrow> uint128 option" where
  "CityHash128WithSeed buf s len seed =
     (if len < 128 then CityMurmur buf s len seed
      else do {
        let x = fst seed; let y = snd seed;
        let z = of_nat len * k1;
        f0 \<leftarrow> Fetch64 buf s;
        let v1 = Rotate (y XOR k1) 49 * k1 + f0;
        f8 \<leftarrow> Fetch64 buf (s + 8);
        let v2 = Rotate v1 42 * k1 + f8;
        let w1 = Rotate (y + z) 35 * k1 + x;
        f88 \<leftarrow> Fetch64 buf (s + 88);
        let w2 = Rotate (x + f88) 53 * k1;
        (len', s', st) \<leftarrow> city128Loop buf (of_nat len) s \<lparr>st_x = x, st_y = y, st_z = z, st_v = (v1, v2), st_w = (w1, w2)\<rparr>;
        let x = st_x st; let y = st_y st; let z = st_z st; let v = st_v st; let w = st_w st;
        let x = x + Rotate (fst v + z) 49 * k0;
        let y = y * k0 + Rotate (snd w) 37;
        let z = z * k0 + Rotate (fst w) 27;
        let w = (fst w * 9, snd w);
        let v = (fst v * k0, snd v);
        st \<leftarrow> city128Tail buf (unat len') s' 0 \<lparr>st_x = x, st_y = y, st_z = z, st_v = v, st_w = w\<rparr>;
        let v = st_v st; let w = st_w st;
        let x = HashLen16 (st_x st) (fst v);
        let y = HashLen16 (st_y st + st_z st) (fst w);
        Some (HashLen16 (x + snd v) (snd w) + y, HashLen16 (x + snd w) (y + snd v)) })"

definition CityHash128 :: "bytes \<Rightarrow> ptr \<Rightarrow> nat \<Rightarrow> uint128 option" where
  "CityHash128 buf s len =
     (if 16 \<le> len
      then do {
        f0 \<leftarrow> Fetch64 buf s;
        f8 \<leftarrow> Fetch64 buf (s + 8);
        CityHash128WithSeed buf (s + 16) (len - 16) (f0, f8 + k0) }
      else CityHash128WithSeed buf s len (k0, k1))"

section \<open>Every access is inside of the buffer\<close>

definition inBuf :: "bytes \<Rightarrow> ptr \<Rightarrow> int \<Rightarrow> bool" where
  "inBuf buf p n \<longleftrightarrow> 0 \<le> p \<and> p + n \<le> int (length buf)"

lemma Fetch64_Some: "inBuf buf p 8 \<Longrightarrow> \<exists>v. Fetch64 buf p = Some v"
  by (simp add: inBuf_def Fetch64_def)

lemma Fetch32_Some: "inBuf buf p 4 \<Longrightarrow> \<exists>v. Fetch32 buf p = Some v"
  by (simp add: inBuf_def Fetch32_def)

lemma byteAt_Some: "inBuf buf p 1 \<Longrightarrow> \<exists>v. byteAt buf p = Some v"
  by (simp add: inBuf_def byteAt_def)

text \<open>A computation that starts with a load returns if the load is inside and the rest returns.\<close>

lemma bind_returns: "\<exists>v. m = Some v \<Longrightarrow> (\<And>v. \<exists>r. f v = Some r) \<Longrightarrow> \<exists>r. Option.bind m f = Some r"
  by auto

lemmas returns_intros = bind_returns Fetch64_Some Fetch32_Some byteAt_Some

lemma inBuf_mono: "inBuf buf s n \<Longrightarrow> s \<le> p \<Longrightarrow> p + k \<le> s + n \<Longrightarrow> inBuf buf p k"
  by (simp add: inBuf_def)

lemma WeakHash_returns: "inBuf buf s 32 \<Longrightarrow> \<exists>r. WeakHashLen32WithSeeds_at buf s a b = Some r"
  unfolding WeakHashLen32WithSeeds_at_def by (intro returns_intros) (simp_all add: inBuf_def)

lemma cityRound_returns: "inBuf buf s 64 \<Longrightarrow> \<exists>r. cityRound buf s st = Some r"
  unfolding cityRound_def Let_def by (intro returns_intros WeakHash_returns) (simp_all add: inBuf_def)

lemma hash32Bytes_returns: "inBuf buf s (int n) \<Longrightarrow> \<exists>r. hash32Bytes buf s n bc = Some r"
proof (induction n arbitrary: s bc)
  case (Suc n)
  obtain b c where bc: "bc = (b, c)" by (cases bc)
  have "inBuf buf (s + 1) (int n)" and "inBuf buf s 1" using Suc.prems by (simp_all add: inBuf_def)
  then show ?case unfolding bc hash32Bytes.simps Let_def by (intro returns_intros Suc.IH)
qed simp

lemma city32Round_returns: "inBuf buf s 20 \<Longrightarrow> \<exists>r. city32Round buf s st = Some r"
  unfolding city32Round_def Let_def split_def by (intro returns_intros) (simp_all add: inBuf_def)

lemma city32Loop_returns: "inBuf buf s (20 * int n) \<Longrightarrow> \<exists>r. city32Loop buf n s st = Some r"
proof (induction n arbitrary: s st)
  case (Suc n)
  have "inBuf buf s 20" "inBuf buf (s + 20) (20 * int n)" using Suc.prems by (simp_all add: inBuf_def)
  then show ?case unfolding city32Loop.simps by (intro bind_returns city32Round_returns Suc.IH)
qed (simp del: split_paired_Ex)

lemma CityHash32_returns:
  assumes "inBuf buf s (int len)"
  shows "\<exists>r. CityHash32 buf s len = Some r"
proof -
  have i: "len \<le> 24 \<Longrightarrow> 12 < len \<Longrightarrow> \<exists>r. Hash32Len13to24 buf s len = Some r"
    unfolding Hash32Len13to24_def Let_def using assms
    by (intro returns_intros) (auto simp: inBuf_def)
  have ii: "len \<le> 4 \<Longrightarrow> \<exists>r. Hash32Len0to4 buf s len = Some r"
    unfolding Hash32Len0to4_def split_def by (intro bind_returns hash32Bytes_returns assms) simp_all
  have "(n :: nat) AND 4 \<le> 4" for n
    by (simp add: and_nat_def nat_le_iff)
  then have "int ((len div 2) AND 4) \<le> 4" by simp
  moreover have "8 \<le> len \<or> (len div 2) AND 4 = 0" if "4 < len"
  proof -
    have "len = 5 \<or> len = 6 \<or> len = 7 \<or> 8 \<le> len" using that by auto
    then show ?thesis by auto
  qed
  ultimately have iii: "4 < len \<Longrightarrow> \<exists>r. Hash32Len5to12 buf s len = Some r"
    unfolding Hash32Len5to12_def Let_def using assms
    by (intro returns_intros) (auto simp: inBuf_def)
  have "20 * int ((len - 1) div 20) \<le> int len" by auto
  then have loop: "\<exists>r. city32Loop buf ((len - 1) div 20) s st = Some r" for st
    using assms by (intro city32Loop_returns) (simp add: inBuf_def)
  have "\<exists>r. CityHash32 buf s len = Some r" if big: "24 < len"
  proof -
    have "\<not> len \<le> 24" using big by simp
    show ?thesis
      unfolding CityHash32_def if_not_P [OF \<open>\<not> len \<le> 24\<close>] Let_def split_def using assms big
      by (intro returns_intros loop) (auto simp: inBuf_def)
  qed
  then show ?thesis using i ii iii by (cases "24 < len") (simp_all add: CityHash32_def)
qed

lemma HashLen0to16_returns: "inBuf buf s (int len) \<Longrightarrow> \<exists>r. HashLen0to16 buf s len = Some r"
  unfolding HashLen0to16_def Let_def
  by (simp only: split: if_split) (intro conjI impI returns_intros; auto simp: inBuf_def)

lemma HashLen17to32_returns: "inBuf buf s (int len) \<Longrightarrow> 16 < len \<Longrightarrow> \<exists>r. HashLen17to32 buf s len = Some r"
  unfolding HashLen17to32_def Let_def by (intro returns_intros) (simp_all add: inBuf_def)

lemma HashLen33to64_returns: "inBuf buf s (int len) \<Longrightarrow> 32 < len \<Longrightarrow> \<exists>r. HashLen33to64 buf s len = Some r"
  unfolding HashLen33to64_def Let_def by (intro returns_intros) (simp_all add: inBuf_def)

text \<open>The loops count down in \<^verbatim>\<open>size_t\<close>, from a multiple of the chunk size.\<close>

lemma city64Loop_returns:
  "0 < n \<Longrightarrow> 64 * n < 2 ^ 64 \<Longrightarrow> inBuf buf s (64 * int n) \<Longrightarrow> \<exists>r. city64Loop buf (of_nat (64 * n)) s st = Some r"
proof (induction n arbitrary: s st)
  case (Suc n)
  obtain st' where st': "cityRound buf s st = Some st'"
    using cityRound_returns [of buf s st] Suc.prems(3) by (auto simp: inBuf_def)
  have len: "of_nat (64 * Suc n) - 64 = (of_nat (64 * n) :: uint64)" by simp
  show ?case
  proof (cases "n = 0")
    case True
    then show ?thesis using st' by (subst city64Loop.simps) simp
  next
    case False
    then have "\<exists>r. city64Loop buf (of_nat (64 * n)) (s + 64) st' = Some r"
      using Suc.prems by (intro Suc.IH) (simp_all add: inBuf_def)
    moreover have "of_nat (64 * n) \<noteq> (0 :: uint64)"
      using False Suc.prems(2) by (simp only: word_of_nat_eq_0_iff) (simp add: dvd_imp_le nat_dvd_not_less)
    ultimately show ?thesis using st' by (subst city64Loop.simps) (simp add: len)
  qed
qed simp

lemma and_not_63:
  fixes x :: uint64
  shows "x AND NOT 63 = of_nat (64 * (unat x div 64))"
proof -
  have m: "(63 :: uint64) = mask 6" by (simp add: mask_eq_exp_minus_1)
  have "x AND NOT 63 = push_bit 6 (drop_bit 6 x)"
    unfolding m by (rule bit_eqI) (auto simp: bit_simps)
  also have "\<dots> = of_nat (64 * (unat x div 64))"
    by (simp add: push_bit_eq_mult drop_bit_eq_div word_arith_nat_div)
  finally show ?thesis .
qed

lemma unat_of_nat_small: "n < 2 ^ 64 \<Longrightarrow> unat (of_nat n :: uint64) = n"
  by (simp add: unat_of_nat)

lemma CityHash64_returns:
  assumes in_buf: "inBuf buf s (int len)" and size: "len < 2 ^ 64"
  shows "\<exists>r. CityHash64 buf s len = Some r"
proof (cases "len \<le> 64")
  case True
  then show ?thesis
    using HashLen0to16_returns [OF in_buf] HashLen17to32_returns [OF in_buf] HashLen33to64_returns [OF in_buf]
    by (simp add: CityHash64_def)
next
  case False
  then have c: "\<not> len \<le> 32" "\<not> len \<le> 64" by simp_all
  have "of_nat len - 1 = (of_nat (len - 1) :: uint64)" using False by (simp add: of_nat_diff)
  then have u: "unat (of_nat len - 1 :: uint64) = len - 1"
    using unat_of_nat_small [of "len - 1"] size by simp
  have l: "(of_nat len - 1 :: uint64) AND NOT 63 = of_nat (64 * ((len - 1) div 64))"
    unfolding and_not_63 u ..
  have "0 < (len - 1) div 64" "64 * ((len - 1) div 64) < 2 ^ 64" "64 * int ((len - 1) div 64) \<le> int len"
    using False size by auto
  then have loop: "\<exists>r. city64Loop buf ((of_nat len - 1) AND NOT 63) s st = Some r" for st
    unfolding l using in_buf by (intro city64Loop_returns) (auto simp: inBuf_def)
  show ?thesis
    unfolding CityHash64_def if_not_P [OF c(1)] if_not_P [OF c(2)] Let_def using in_buf False
    by (intro returns_intros WeakHash_returns loop) (auto simp: inBuf_def)
qed

lemma murmurRound_returns: "inBuf buf s 16 \<Longrightarrow> \<exists>r. murmurRound buf s st = Some r"
  unfolding murmurRound_def Let_def split_def by (intro returns_intros) (simp_all add: inBuf_def)

text \<open>The last round of \<^verbatim>\<open>CityMurmur\<close> may read beyond \<open>l\<close> bytes, but not beyond the 16 that follow.\<close>

lemma murmurLoop_returns:
  "0 < l \<Longrightarrow> inBuf buf s (l + 16) \<Longrightarrow> \<exists>r. murmurLoop buf l s st = Some r"
proof (induction "nat l" arbitrary: l s st rule: less_induct)
  case less
  obtain st' where st': "murmurRound buf s st = Some st'"
    using murmurRound_returns [of buf s st] less.prems by (auto simp: inBuf_def)
  show ?case
  proof (cases "0 < l - 16")
    case True
    then have "\<exists>r. murmurLoop buf (l - 16) (s + 16) st' = Some r"
      using less.prems by (intro less.hyps) (auto simp: inBuf_def)
    then show ?thesis using True st' by (subst murmurLoop.simps) simp
  next
    case False
    then show ?thesis using st' by (subst murmurLoop.simps) (simp del: split_paired_Ex)
  qed
qed

lemma CityMurmur_returns:
  assumes "inBuf buf s (int len)"
  shows "\<exists>r. CityMurmur buf s len seed = Some r"
proof -
  have short: "\<exists>r. (do {
          let a = ShiftMix (a * k1) * k1;
          h \<leftarrow> HashLen0to16 buf s len;
          let c = b * k1 + h;
          t \<leftarrow> (if 8 \<le> len then Fetch64 buf s else Some c);
          let d = ShiftMix (a + t);
          Some (a, b, c, d) }) = Some r" for a b
    unfolding Let_def using assms
    by (intro bind_returns HashLen0to16_returns) (auto simp: inBuf_def Fetch64_def)
  have long: "\<exists>r. (do {
          v8 \<leftarrow> Fetch64 buf (s + int len - 8);
          let c = HashLen16 (v8 + k1) a;
          v16 \<leftarrow> Fetch64 buf (s + int len - 16);
          let d = HashLen16 (b + of_nat len) (c + v16);
          murmurLoop buf (int len - 16) s (a + d, b, c, d) }) = Some r" if "\<not> int len - 16 \<le> 0" for a b
    unfolding Let_def using assms that
    by (intro returns_intros murmurLoop_returns) (auto simp: inBuf_def)
  show ?thesis
    unfolding CityMurmur_def Let_def split_def
  proof (rule bind_returns)
    show "\<exists>v. (if int len - 16 \<le> 0 then
        HashLen0to16 buf s len \<bind> (\<lambda>h. (if 8 \<le> len then Fetch64 buf s else Some (snd seed * k1 + h)) \<bind>
          (\<lambda>t. Some (ShiftMix (fst seed * k1) * k1, snd seed, snd seed * k1 + h, ShiftMix (ShiftMix (fst seed * k1) * k1 + t))))
      else Fetch64 buf (s + int len - 8) \<bind> (\<lambda>v8. Fetch64 buf (s + int len - 16) \<bind>
          (\<lambda>v16. murmurLoop buf (int len - 16) s
            (fst seed + HashLen16 (snd seed + of_nat len) (HashLen16 (v8 + k1) (fst seed) + v16), snd seed,
             HashLen16 (v8 + k1) (fst seed), HashLen16 (snd seed + of_nat len) (HashLen16 (v8 + k1) (fst seed) + v16))))) = Some v"
      using short [of "fst seed" "snd seed", unfolded Let_def] long [of "fst seed" "snd seed", unfolded Let_def]
      by (simp only: split: if_split) blast
  qed (simp del: split_paired_Ex)
qed

lemma city128Loop_returns:
  assumes "128 \<le> len" and "len < 2 ^ 64" and "inBuf buf s (int len)"
  shows "\<exists>n s' st'. city128Loop buf (of_nat len) s st = Some (of_nat n, s', st') \<and> n < 128 \<and>
    s' + int n = s + int len \<and> s + 128 \<le> s'"
  using assms
proof (induction len arbitrary: s st rule: less_induct)
  case (less len)
  obtain st1 where st1: "cityRound buf s st = Some st1"
    using cityRound_returns [of buf s st] less.prems by (auto simp: inBuf_def)
  obtain st2 where st2: "cityRound buf (s + 64) st1 = Some st2"
    using cityRound_returns [of buf "s + 64" st1] less.prems by (auto simp: inBuf_def)
  have l: "of_nat len - 128 = (of_nat (len - 128) :: uint64)" using less.prems(1) by (simp add: of_nat_diff)
  have g: "128 \<le> (of_nat (len - 128) :: uint64) \<longleftrightarrow> 128 \<le> len - 128"
    using less.prems(2) by (simp add: word_le_nat_alt unat_of_nat_small)
  have u: "city128Loop buf (of_nat len) s st =
      (if 128 \<le> len - 128 then city128Loop buf (of_nat (len - 128)) (s + 128) st2
       else Some (of_nat (len - 128), s + 128, st2))"
    by (subst city128Loop.simps) (simp only: st1 st2 option.case l g)
  show ?case
  proof (cases "128 \<le> len - 128")
    case True
    have "\<exists>n s' st'. city128Loop buf (of_nat (len - 128)) (s + 128) st2 = Some (of_nat n, s', st') \<and> n < 128 \<and>
        s' + int n = s + 128 + int (len - 128) \<and> s + 128 + 128 \<le> s'"
      using less.prems True by (intro less.IH) (auto simp: inBuf_def)
    then obtain n s' st' where r: "city128Loop buf (of_nat (len - 128)) (s + 128) st2 = Some (of_nat n, s', st')"
      "n < 128" "s' + int n = s + 128 + int (len - 128)" "s + 128 + 128 \<le> s'" by blast
    have "s' + int n = s + int len" "s + 128 \<le> s'" using r(3,4) less.prems(1) by linarith+
    then show ?thesis unfolding u if_P [OF True] using r(1,2) by blast
  next
    case False
    then have "len - 128 < 128" "s + 128 + int (len - 128) = s + int len" using less.prems(1) by linarith+
    then show ?thesis unfolding u if_not_P [OF False] by blast
  qed
qed

text \<open>The tail reads chunks of 32 bytes backwards from the end, at most into the last chunk of the loop.\<close>

lemma city128Tail_returns:
  assumes "inBuf buf (s - 128) (int len + 128)" and "len < 128" and "tail_done \<le> 128" and "tail_done mod 32 = 0"
  shows "\<exists>r. city128Tail buf len s tail_done st = Some r"
  using assms
proof (induction "len - tail_done" arbitrary: tail_done st rule: less_induct)
  case less
  show ?case
  proof (cases "tail_done < len")
    case False
    then show ?thesis by (subst city128Tail.simps) simp
  next
    case True
    then have t: "tail_done + 32 \<le> 128" using less.prems by presburger
    have rest: "\<exists>r. city128Tail buf len s (tail_done + 32) st' = Some r" for st'
      using True less.prems t by (intro less.hyps) auto
    show ?thesis
      unfolding city128Tail.simps [of buf len s tail_done st] if_P [OF True] Let_def
      using less.prems t True by (intro returns_intros WeakHash_returns rest) (auto simp: inBuf_def)
  qed
qed

lemma CityHash128WithSeed_returns:
  assumes in_buf: "inBuf buf s (int len)" and size: "len < 2 ^ 64"
  shows "\<exists>r. CityHash128WithSeed buf s len seed = Some r"
proof (cases "len < 128")
  case True
  then show ?thesis using CityMurmur_returns [OF in_buf] by (simp add: CityHash128WithSeed_def)
next
  case False
  note loop = city128Loop_returns [OF _ size in_buf]
  have tail: "\<exists>r. Option.bind (city128Loop buf (of_nat len) s st0) (\<lambda>(len', s', st). f len' s' st) = Some r"
    if f: "\<And>n s' st. n < 128 \<Longrightarrow> s' + int n = s + int len \<Longrightarrow> s + 128 \<le> s' \<Longrightarrow> \<exists>r. f (of_nat n) s' st = Some r"
    for f :: "uint64 \<Rightarrow> ptr \<Rightarrow> cityState \<Rightarrow> uint128 option" and st0
    using loop [of st0] False f by fastforce
  have rest: "\<exists>r. city128Tail buf (unat (of_nat n :: uint64)) s' 0 st = Some r"
    if "n < 128" "s' + int n = s + int len" "s + 128 \<le> s'" for n s' st
    using that in_buf by (intro city128Tail_returns) (auto simp: inBuf_def unat_of_nat_small)
  show ?thesis
    unfolding CityHash128WithSeed_def if_not_P [OF False] Let_def using in_buf False
    by (intro bind_returns Fetch64_Some tail rest) (auto simp: inBuf_def)
qed

lemma CityHash128_returns:
  assumes in_buf: "inBuf buf s (int len)" and size: "len < 2 ^ 64"
  shows "\<exists>r. CityHash128 buf s len = Some r"
proof (cases "16 \<le> len")
  case True
  have "\<exists>r. CityHash128WithSeed buf (s + 16) (len - 16) seed = Some r" for seed
    using in_buf size True by (intro CityHash128WithSeed_returns) (auto simp: inBuf_def)
  then show ?thesis
    unfolding CityHash128_def if_P [OF True] using in_buf True
    by (intro bind_returns Fetch64_Some) (auto simp: inBuf_def)
next
  case False
  then show ?thesis using CityHash128WithSeed_returns [OF assms] by (simp add: CityHash128_def)
qed

text \<open>
  C30: the hash functions are safe on every input. For a buffer of any length a \<^verbatim>\<open>size_t\<close> can
  hold, each of them returns: all loads, including those that address the buffer backwards
  from its end, are inside of the buffer, and every loop ends.
\<close>

theorem cityhash_in_bounds:
  assumes "length buf < 2 ^ 64"
  shows "(\<exists>h. CityHash32 buf 0 (length buf) = Some h) \<and>
    (\<exists>h. CityHash64 buf 0 (length buf) = Some h) \<and>
    (\<exists>h. CityHash64WithSeed buf 0 (length buf) seed = Some h) \<and>
    (\<exists>h. CityHash128 buf 0 (length buf) = Some h)"
proof -
  have b: "inBuf buf 0 (int (length buf))" by (simp add: inBuf_def)
  show ?thesis
    using CityHash32_returns [OF b] CityHash64_returns [OF b assms] CityHash128_returns [OF b assms]
    by (auto simp: CityHash64WithSeed_def CityHash64WithSeeds_def)
qed

theorem cityhash_in_bounds_witness:
  "\<exists>h. CityHash64WithSeed (replicate 200 7) 0 200 42 = Some h"
  using cityhash_in_bounds [of "replicate 200 7" 42] by simp

lemma Rotate_rotr:
  assumes s: "s < 64"
  shows "Rotate x s = word_rotr s x"
proof (rule bit_word_eqI)
  fix n
  assume n: "n < LENGTH(64)"
  have m: "(n + s) mod 64 = (if n + s < 64 then n + s else n + s - 64)" using s n by (simp add: mod_if)
  have "bit x (n + s) \<Longrightarrow> n + s < 64" using bit_imp_le_length [of x "n + s"] by simp
  then show "bit (Rotate x s) n \<longleftrightarrow> bit (word_rotr s x) n"
    using s n by (auto simp: Rotate_def bit_simps bit_word_rotr_iff m add.commute)
qed

lemma Rotate32_rotr:
  assumes s: "s < 32"
  shows "Rotate32 x s = word_rotr s x"
proof (rule bit_word_eqI)
  fix n
  assume n: "n < LENGTH(32)"
  have m: "(n + s) mod 32 = (if n + s < 32 then n + s else n + s - 32)" using s n by (simp add: mod_if)
  have "bit x (n + s) \<Longrightarrow> n + s < 32" using bit_imp_le_length [of x "n + s"] by simp
  then show "bit (Rotate32 x s) n \<longleftrightarrow> bit (word_rotr s x) n"
    using s n by (auto simp: Rotate32_def bit_simps bit_word_rotr_iff m add.commute)
qed



end
