(* ===== verification/DeadNonceList.thy ===== *)
theory DeadNonceList
  imports NdnTypes CityHash
begin

text \<open>
  \<^verbatim>\<open>daemon/table/dead-nonce-list.cpp\<close>: the queue of name and nonce hashes that were seen
  recently, with marks in it that measure how long an entry stays, and a capacity adjusted to
  the marks counted. The wire encoding of a name is a parameter. The multi-index container is
  the sequence of its elements; an entry equal to \<^verbatim>\<open>MARK\<close> is taken for a mark, as in the code.
\<close>

type_synonym dnl_entry = "64 word"

definition DNL_DEFAULT_LIFETIME :: duration where "DNL_DEFAULT_LIFETIME = ms 6000"
definition DNL_MIN_LIFETIME :: duration where "DNL_MIN_LIFETIME = ms 50"
definition DNL_INITIAL_CAPACITY :: nat where "DNL_INITIAL_CAPACITY = 2 ^ 14"
definition DNL_MIN_CAPACITY :: nat where "DNL_MIN_CAPACITY = 2 ^ 10"
definition DNL_MAX_CAPACITY :: nat where "DNL_MAX_CAPACITY = 2 ^ 24"
definition MARK :: dnl_entry where "MARK = 0"
definition EXPECTED_MARK_COUNT :: nat where "EXPECTED_MARK_COUNT = 5"
definition EVICT_LIMIT :: nat where "EVICT_LIMIT = 64"

text \<open>
  \<^verbatim>\<open>CAPACITY_UP\<close> is 1.2 and \<^verbatim>\<open>CAPACITY_DOWN\<close> is 0.9, in double precision. For capacities
  up to \<open>2 ^ 24\<close> the products, truncated to \<^verbatim>\<open>size_t\<close>, are the integer quotients below.
\<close>

definition capacityUp :: "nat \<Rightarrow> nat" where "capacityUp c = c * 6 div 5"
definition capacityDown :: "nat \<Rightarrow> nat" where "capacityDown c = c * 9 div 10"

record deadNonceList =
  dn_lifetime :: duration
  dn_queue :: "dnl_entry list"
  dn_capacity :: nat
  dn_markInterval :: duration
  dn_adjustCapacityInterval :: duration
  dn_actualMarkCounts :: "nat list"

datatype dnl_error = LifetimeTooSmall

definition newDeadNonceList :: "duration \<Rightarrow> dnl_error + deadNonceList" where
  "newDeadNonceList lifetime =
     (if lifetime < DNL_MIN_LIFETIME then Inl LifetimeTooSmall
      else Inr \<lparr>dn_lifetime = lifetime, dn_queue = replicate EXPECTED_MARK_COUNT MARK,
                dn_capacity = DNL_INITIAL_CAPACITY, dn_markInterval = lifetime div int EXPECTED_MARK_COUNT,
                dn_adjustCapacityInterval = lifetime, dn_actualMarkCounts = []\<rparr>)"

definition makeEntry :: "(name \<Rightarrow> bytes) \<Rightarrow> name \<Rightarrow> nonce \<Rightarrow> dnl_entry option" where
  "makeEntry wireEncode name nonce =
     (let nameWire = wireEncode name
      in CityHash64WithSeed nameWire 0 (length nameWire) (ucast nonce))"

definition countMarks :: "deadNonceList \<Rightarrow> nat" where
  "countMarks d = count_list (dn_queue d) MARK"

definition dnl_size :: "deadNonceList \<Rightarrow> nat" where
  "dnl_size d = length (dn_queue d) - countMarks d"

definition dnl_has :: "(name \<Rightarrow> bytes) \<Rightarrow> name \<Rightarrow> nonce \<Rightarrow> deadNonceList \<Rightarrow> bool option" where
  "dnl_has wireEncode name nonce d = do {
     entry \<leftarrow> makeEntry wireEncode name nonce;
     Some (entry \<in> set (dn_queue d)) }"

definition dnl_evictEntries :: "deadNonceList \<Rightarrow> deadNonceList" where
  "dnl_evictEntries d =
     (if length (dn_queue d) \<le> dn_capacity d then d
      else let nEvict = min (length (dn_queue d) - dn_capacity d) EVICT_LIMIT
           in d\<lparr>dn_queue := drop nEvict (dn_queue d)\<rparr>)"

definition dnl_addEntry :: "dnl_entry \<Rightarrow> deadNonceList \<Rightarrow> deadNonceList" where
  "dnl_addEntry entry d =
     (if entry \<in> set (dn_queue d)
      then d\<lparr>dn_queue := remove1 entry (dn_queue d) @ [entry]\<rparr>
      else dnl_evictEntries (d\<lparr>dn_queue := dn_queue d @ [entry]\<rparr>))"

definition dnl_add :: "(name \<Rightarrow> bytes) \<Rightarrow> name \<Rightarrow> nonce \<Rightarrow> deadNonceList \<Rightarrow> deadNonceList option" where
  "dnl_add wireEncode name nonce d = do {
     entry \<leftarrow> makeEntry wireEncode name nonce;
     Some (dnl_addEntry entry d) }"

definition dnl_mark :: "deadNonceList \<Rightarrow> deadNonceList" where
  "dnl_mark d =
     (let d1 = d\<lparr>dn_queue := dn_queue d @ [MARK]\<rparr>
      in d1\<lparr>dn_actualMarkCounts := countMarks d1 # dn_actualMarkCounts d1\<rparr>)"

text \<open>
  The bounds of the equal range of the expected count in the ordered multiset: its end is the
  beginning of the multiset if all counts are above, its beginning the end if all are below.
\<close>

definition dnl_adjustCapacity :: "deadNonceList \<Rightarrow> deadNonceList" where
  "dnl_adjustCapacity d =
     (let counts = dn_actualMarkCounts d;
          capacity =
            (if list_all (\<lambda>c. EXPECTED_MARK_COUNT < c) counts
             then max DNL_MIN_CAPACITY (capacityDown (dn_capacity d))
             else if list_all (\<lambda>c. c < EXPECTED_MARK_COUNT) counts
             then min DNL_MAX_CAPACITY (capacityUp (dn_capacity d))
             else dn_capacity d)
      in dnl_evictEntries (d\<lparr>dn_capacity := capacity, dn_actualMarkCounts := []\<rparr>))"

section \<open>Runs\<close>

datatype dnl_event = DnAdd dnl_entry | DnMark | DnAdjust

fun dnl_step :: "dnl_event \<Rightarrow> deadNonceList \<Rightarrow> deadNonceList" where
  "dnl_step (DnAdd e) d = dnl_addEntry e d"
| "dnl_step DnMark d = dnl_mark d"
| "dnl_step DnAdjust d = dnl_adjustCapacity d"

text \<open>At most \<open>n\<close> marks between two adjustments.\<close>

fun marksBounded :: "nat \<Rightarrow> nat \<Rightarrow> dnl_event list \<Rightarrow> bool" where
  "marksBounded n k [] = True"
| "marksBounded n k (DnAdd e # es) = marksBounded n k es"
| "marksBounded n k (DnMark # es) = (k < n \<and> marksBounded n (Suc k) es)"
| "marksBounded n k (DnAdjust # es) = marksBounded n 0 es"

definition dnl_inv :: "deadNonceList \<Rightarrow> bool" where
  "dnl_inv d \<longleftrightarrow> DNL_MIN_CAPACITY \<le> dn_capacity d \<and> dn_capacity d \<le> DNL_MAX_CAPACITY \<and>
     distinct (filter (\<lambda>e. e \<noteq> MARK) (dn_queue d)) \<and>
     length (dn_queue d) \<le> DNL_MAX_CAPACITY + length (dn_actualMarkCounts d) \<and>
     length (dn_actualMarkCounts d) \<le> EVICT_LIMIT"

lemma capacity_bounds:
  assumes "DNL_MIN_CAPACITY \<le> c" "c \<le> DNL_MAX_CAPACITY"
  shows "DNL_MIN_CAPACITY \<le> min DNL_MAX_CAPACITY (capacityUp c)" "max DNL_MIN_CAPACITY (capacityDown c) \<le> DNL_MAX_CAPACITY"
  using assms by (auto simp: DNL_MIN_CAPACITY_def DNL_MAX_CAPACITY_def capacityUp_def capacityDown_def)

lemma evict_facts:
  "dn_queue (dnl_evictEntries d) = drop (min (length (dn_queue d) - dn_capacity d) EVICT_LIMIT) (dn_queue d)"
  "dn_capacity (dnl_evictEntries d) = dn_capacity d"
  "dn_actualMarkCounts (dnl_evictEntries d) = dn_actualMarkCounts d"
  by (simp_all add: dnl_evictEntries_def)

lemma evict_length: "length (dn_queue (dnl_evictEntries d)) \<le> max (dn_capacity d) (length (dn_queue d) - 1)"
  by (simp add: evict_facts EVICT_LIMIT_def)

lemma adjust_facts:
  assumes "dnl_inv d"
  shows "DNL_MIN_CAPACITY \<le> dn_capacity (dnl_adjustCapacity d)" "dn_capacity (dnl_adjustCapacity d) \<le> DNL_MAX_CAPACITY"
    and "dn_actualMarkCounts (dnl_adjustCapacity d) = []"
    and "dn_queue (dnl_adjustCapacity d) =
      drop (min (length (dn_queue d) - dn_capacity (dnl_adjustCapacity d)) EVICT_LIMIT) (dn_queue d)"
  using assms capacity_bounds [of "dn_capacity d"]
  by (auto simp: dnl_adjustCapacity_def Let_def evict_facts dnl_inv_def)

lemma distinct_filter_drop: "distinct (filter P xs) \<Longrightarrow> distinct (filter P (drop n xs))"
  by (metis append_take_drop_id distinct_append filter_append)

lemma length_relocate: "e \<in> set q \<Longrightarrow> length (remove1 e q @ [e]) = length q"
  using length_pos_if_in_set [of e q] by (simp add: length_remove1)

lemma dnl_add_inv:
  assumes inv: "dnl_inv d"
  shows "dnl_inv (dnl_addEntry e d)" "dn_actualMarkCounts (dnl_addEntry e d) = dn_actualMarkCounts d"
proof -
  have "dnl_inv (dnl_addEntry e d) \<and> dn_actualMarkCounts (dnl_addEntry e d) = dn_actualMarkCounts d"
  proof (cases "e \<in> set (dn_queue d)")
    case True
    have "distinct (filter (\<lambda>e. e \<noteq> MARK) (remove1 e (dn_queue d) @ [e]))"
    proof (cases "e = MARK")
      case False
      then have "e \<notin> set (remove1 e (filter (\<lambda>e. e \<noteq> MARK) (dn_queue d)))" using inv by (simp add: dnl_inv_def)
      then show ?thesis using inv False by (simp add: dnl_inv_def filter_remove1 distinct_remove1)
    next
      case True
      then show ?thesis using inv by (simp add: dnl_inv_def filter_remove1 remove1_idem)
    qed
    then show ?thesis using length_relocate [OF True] True inv by (simp add: dnl_addEntry_def dnl_inv_def)
  next
    case False
    have "distinct (filter (\<lambda>e. e \<noteq> MARK) (dn_queue d @ [e]))" using inv False by (auto simp: dnl_inv_def)
    then have "distinct (filter (\<lambda>e. e \<noteq> MARK) (dn_queue (dnl_evictEntries (d\<lparr>dn_queue := dn_queue d @ [e]\<rparr>))))"
      unfolding evict_facts by (intro distinct_filter_drop) simp
    moreover have "length (dn_queue (dnl_evictEntries (d\<lparr>dn_queue := dn_queue d @ [e]\<rparr>))) \<le>
        max (dn_capacity d) (length (dn_queue d))"
      using evict_length [of "d\<lparr>dn_queue := dn_queue d @ [e]\<rparr>"] by simp
    ultimately show ?thesis using False inv by (auto simp: dnl_addEntry_def dnl_inv_def evict_facts(2,3))
  qed
  then show "dnl_inv (dnl_addEntry e d)" "dn_actualMarkCounts (dnl_addEntry e d) = dn_actualMarkCounts d" by auto
qed

lemma dnl_step_inv:
  assumes inv: "dnl_inv d" and m: "marksBounded EVICT_LIMIT (length (dn_actualMarkCounts d)) (ev # es)"
  shows "dnl_inv (dnl_step ev d) \<and> marksBounded EVICT_LIMIT (length (dn_actualMarkCounts (dnl_step ev d))) es"
proof (cases ev)
  case (DnAdd e)
  then show ?thesis using dnl_add_inv [OF inv] m by simp
next
  case DnMark
  then show ?thesis using inv m by (simp add: dnl_mark_def Let_def dnl_inv_def)
next
  case DnAdjust
  have "length (dn_queue (dnl_adjustCapacity d)) \<le> DNL_MAX_CAPACITY"
    using inv adjust_facts(2,4) [OF inv] by (auto simp: dnl_inv_def min_def)
  then show ?thesis
    using DnAdjust inv m adjust_facts [OF inv] distinct_filter_drop [of "\<lambda>e. e \<noteq> MARK" "dn_queue d"]
    by (simp add: dnl_inv_def)
qed

lemma dnl_run_inv:
  "dnl_inv d \<Longrightarrow> marksBounded EVICT_LIMIT (length (dn_actualMarkCounts d)) es \<Longrightarrow> dnl_inv (fold dnl_step es d)"
  by (induction es arbitrary: d) (auto dest: dnl_step_inv)

text \<open>An entry that few others follow is not evicted.\<close>

definition followedBy :: "nat \<Rightarrow> dnl_entry \<Rightarrow> deadNonceList \<Rightarrow> bool" where
  "followedBy k e d \<longleftrightarrow> (\<exists>xs ys. dn_queue d = xs @ e # ys \<and> length ys \<le> k)"

lemma followedBy_drop:
  assumes "q = xs @ e # ys" and "length ys \<le> k" and "n + k < length q"
  shows "\<exists>xs' ys'. drop n q = xs' @ e # ys' \<and> length ys' \<le> k"
proof -
  have "n \<le> length xs" using assms by simp
  then have "drop n q = drop n xs @ e # ys" using assms(1) by simp
  then show ?thesis using assms(2) by blast
qed

lemma followedBy_evict:
  assumes "followedBy k e d" and "k < dn_capacity d"
  shows "followedBy k e (dnl_evictEntries d)"
proof (cases "length (dn_queue d) \<le> dn_capacity d")
  case True
  then show ?thesis using assms by (simp add: dnl_evictEntries_def)
next
  case False
  obtain xs ys where q: "dn_queue d = xs @ e # ys" "length ys \<le> k" using assms(1) by (auto simp: followedBy_def)
  show ?thesis
    using followedBy_drop [OF q, of "min (length (dn_queue d) - dn_capacity d) EVICT_LIMIT"] False assms(2)
    by (simp add: followedBy_def evict_facts)
qed

lemma followedByI: "dn_queue d = xs @ e # ys \<Longrightarrow> length ys \<le> k \<Longrightarrow> followedBy k e d"
  by (auto simp: followedBy_def)

lemma followedBy_push:
  assumes "followedBy k e d"
  shows "followedBy (Suc k) e (d\<lparr>dn_queue := dn_queue d @ [x]\<rparr>)"
proof -
  obtain xs ys where "dn_queue d = xs @ e # ys" "length ys \<le> k" using assms by (auto simp: followedBy_def)
  then show ?thesis by (intro followedByI [of _ xs e "ys @ [x]"]) simp_all
qed

lemma followedBy_relocate:
  assumes "followedBy k e d"
  shows "followedBy (Suc k) e (d\<lparr>dn_queue := remove1 x (dn_queue d) @ [x]\<rparr>)"
proof (cases "x = e")
  case True
  then show ?thesis by (intro followedByI [of _ "remove1 e (dn_queue d)" e "[]"]) simp_all
next
  case False
  obtain xs ys where q: "dn_queue d = xs @ e # ys" "length ys \<le> k" using assms by (auto simp: followedBy_def)
  show ?thesis
  proof (cases "x \<in> set xs")
    case True
    then have "remove1 x (dn_queue d) @ [x] = remove1 x xs @ e # (ys @ [x])" by (simp add: q(1) remove1_append)
    moreover have "length (ys @ [x]) \<le> Suc k" using q(2) by simp
    ultimately show ?thesis by (intro followedByI [of _ "remove1 x xs" e "ys @ [x]"]) auto
  next
    case False
    then have "remove1 x (dn_queue d) @ [x] = xs @ e # (remove1 x ys @ [x])"
      using \<open>x \<noteq> e\<close> by (simp add: q(1) remove1_append)
    moreover have "length (remove1 x ys @ [x]) \<le> Suc k"
      using q(2) by (auto simp: length_remove1)
    ultimately show ?thesis by (intro followedByI [of _ xs e "remove1 x ys @ [x]"]) auto
  qed
qed

lemma followedBy_step:
  assumes inv: "dnl_inv d" and f: "followedBy k e d" and k: "Suc k < DNL_MIN_CAPACITY"
  shows "followedBy (Suc k) e (dnl_step ev d)"
proof (cases ev)
  case (DnAdd x)
  have "Suc k < dn_capacity d" using inv k by (simp add: dnl_inv_def)
  then show ?thesis
    using DnAdd followedBy_relocate [OF f] followedBy_evict [OF followedBy_push [OF f, of x]]
    by (simp add: dnl_addEntry_def)
next
  case DnMark
  then show ?thesis using followedBy_push [OF f, of MARK] by (simp add: dnl_mark_def Let_def followedBy_def)
next
  case DnAdjust
  obtain xs ys where q: "dn_queue d = xs @ e # ys" "length ys \<le> k" using f by (auto simp: followedBy_def)
  have c: "Suc k < dn_capacity (dnl_adjustCapacity d)" using adjust_facts(1) [OF inv] k by simp
  show ?thesis
  proof (cases "length (dn_queue d) \<le> dn_capacity (dnl_adjustCapacity d)")
    case True
    then show ?thesis using DnAdjust adjust_facts(4) [OF inv] q by (intro followedByI [of _ xs e ys]) simp_all
  next
    case False
    have "\<exists>xs' ys'. dn_queue (dnl_adjustCapacity d) = xs' @ e # ys' \<and> length ys' \<le> k"
      unfolding adjust_facts(4) [OF inv] using False c by (intro followedBy_drop [OF q]) simp
    then obtain us vs where "dn_queue (dnl_adjustCapacity d) = us @ e # vs" "length vs \<le> k" by blast
    then show ?thesis using DnAdjust by (intro followedByI [of _ us e vs]) simp_all
  qed
qed

lemma followedBy_run:
  "dnl_inv d \<Longrightarrow> marksBounded EVICT_LIMIT (length (dn_actualMarkCounts d)) es \<Longrightarrow> followedBy k e d \<Longrightarrow>
   k + length es < DNL_MIN_CAPACITY \<Longrightarrow> followedBy (k + length es) e (fold dnl_step es d)"
proof (induction es arbitrary: d k)
  case (Cons ev es)
  have "followedBy (Suc k) e (dnl_step ev d)"
    using Cons.prems(4) by (intro followedBy_step [OF Cons.prems(1,3)]) simp
  from Cons.IH [OF _ _ this] show ?case using dnl_step_inv [OF Cons.prems(1,2)] Cons.prems(4) by simp
qed simp

lemma followedBy_added: "dnl_inv d \<Longrightarrow> followedBy 0 e (dnl_addEntry e d)"
proof (cases "e \<in> set (dn_queue d)")
  case True
  then show ?thesis by (intro followedByI [of _ "remove1 e (dn_queue d)" e "[]"]) (simp_all add: dnl_addEntry_def)
next
  case False
  assume "dnl_inv d"
  then have "0 < dn_capacity d" by (simp add: dnl_inv_def DNL_MIN_CAPACITY_def)
  moreover have "followedBy 0 e (d\<lparr>dn_queue := dn_queue d @ [e]\<rparr>)" by (intro followedByI [of _ "dn_queue d" e "[]"]) simp_all
  ultimately show ?thesis using followedBy_evict [of 0 e "d\<lparr>dn_queue := dn_queue d @ [e]\<rparr>"] False
    by (simp add: dnl_addEntry_def)
qed

lemma new_inv: "newDeadNonceList lifetime = Inr d \<Longrightarrow> dnl_inv d"
  by (auto simp: newDeadNonceList_def dnl_inv_def DNL_INITIAL_CAPACITY_def DNL_MIN_CAPACITY_def DNL_MAX_CAPACITY_def
      EXPECTED_MARK_COUNT_def split: if_splits)

section \<open>Theorems\<close>

text \<open>
  C32: the dead nonce list has bounded memory. A list can be made for every lifetime of at
  least the minimum, and only for these. Whatever entries are added, and as long as at most
  64 marks are set between two adjustments (the code sets five), the capacity stays within
  its limits, the queue holds at most the maximal capacity and 64 elements, and no entry but
  the mark is in it twice.
\<close>

theorem dead_nonce_list_bounded:
  assumes "marksBounded 64 0 es"
  shows "case newDeadNonceList lifetime of
      Inl err \<Rightarrow> lifetime < DNL_MIN_LIFETIME
    | Inr d0 \<Rightarrow> DNL_MIN_LIFETIME \<le> lifetime \<and>
        (let d = fold dnl_step es d0 in
         DNL_MIN_CAPACITY \<le> dn_capacity d \<and> dn_capacity d \<le> DNL_MAX_CAPACITY \<and>
         length (dn_queue d) \<le> DNL_MAX_CAPACITY + 64 \<and> distinct (filter (\<lambda>e. e \<noteq> MARK) (dn_queue d)))"
proof (cases "newDeadNonceList lifetime")
  case (Inl err)
  then show ?thesis by (auto simp: newDeadNonceList_def split: if_splits)
next
  case (Inr d0)
  then have m: "dn_actualMarkCounts d0 = []" and l: "DNL_MIN_LIFETIME \<le> lifetime"
    by (auto simp: newDeadNonceList_def split: if_splits)
  have "dnl_inv (fold dnl_step es d0)"
    using assms m by (intro dnl_run_inv [OF new_inv [OF Inr]]) (simp add: EVICT_LIMIT_def)
  then show ?thesis using Inr l by (auto simp: dnl_inv_def Let_def EVICT_LIMIT_def)
qed

theorem dead_nonce_list_bounded_witness:
  "\<exists>d0. newDeadNonceList DNL_DEFAULT_LIFETIME = Inr d0 \<and>
     length (dn_queue (fold dnl_step [DnAdd 7, DnMark, DnAdjust, DnAdd 7] d0)) \<le> DNL_MAX_CAPACITY + 64"
proof -
  have "\<not> DNL_DEFAULT_LIFETIME < DNL_MIN_LIFETIME" by (simp add: DNL_DEFAULT_LIFETIME_def DNL_MIN_LIFETIME_def ms_def)
  moreover have "marksBounded 64 0 [DnAdd 7, DnMark, DnAdjust, DnAdd 7]" by simp
  ultimately show ?thesis
    using dead_nonce_list_bounded [of "[DnAdd 7, DnMark, DnAdjust, DnAdd 7]" DNL_DEFAULT_LIFETIME]
    by (cases "newDeadNonceList DNL_DEFAULT_LIFETIME") (auto simp: Let_def)
qed

text \<open>
  C33: the dead nonce list remembers. After a name and nonce have been added, the list reports
  them as long as fewer events than the minimal capacity have happened since, whatever these
  are: additions, marks and adjustments of the capacity.
\<close>

theorem dead_nonce_remembered:
  assumes "dnl_inv d" and "dnl_add wireEncode n nonce d = Some d'"
    and "marksBounded 64 (length (dn_actualMarkCounts d)) es" and "length es < DNL_MIN_CAPACITY"
  shows "dnl_has wireEncode n nonce (fold dnl_step es d') = Some True"
proof -
  obtain e where e: "makeEntry wireEncode n nonce = Some e" "d' = dnl_addEntry e d"
    using assms(2) by (auto simp: dnl_add_def bind_eq_Some_conv)
  have "followedBy (0 + length es) e (fold dnl_step es d')"
    using assms e dnl_add_inv [OF assms(1)] followedBy_added [OF assms(1)]
    by (intro followedBy_run) (simp_all add: EVICT_LIMIT_def)
  then show ?thesis using e by (auto simp: dnl_has_def followedBy_def)
qed

theorem dead_nonce_remembered_witness:
  "\<exists>d d'. newDeadNonceList DNL_DEFAULT_LIFETIME = Inr d \<and> dnl_add (\<lambda>_. [1, 2, 3]) [] 5 d = Some d' \<and>
     dnl_has (\<lambda>_. [1, 2, 3]) [] 5 (fold dnl_step [DnAdd 9, DnMark, DnAdjust] d') = Some True"
proof -
  have "\<not> DNL_DEFAULT_LIFETIME < DNL_MIN_LIFETIME" by (simp add: DNL_DEFAULT_LIFETIME_def DNL_MIN_LIFETIME_def ms_def)
  then obtain d where d: "newDeadNonceList DNL_DEFAULT_LIFETIME = Inr d" "dn_actualMarkCounts d = []"
    by (simp add: newDeadNonceList_def)
  have "\<exists>e. makeEntry (\<lambda>_. [1, 2, 3]) [] 5 = Some e"
    using CityHash64_returns [of "[1, 2, 3]" 0 3]
    by (auto simp: makeEntry_def CityHash64WithSeed_def CityHash64WithSeeds_def inBuf_def numeral_3_eq_3)
  then obtain d' where d': "dnl_add (\<lambda>_. [1, 2, 3]) [] 5 d = Some d'" by (auto simp: dnl_add_def)
  have "dnl_has (\<lambda>_. [1, 2, 3]) [] 5 (fold dnl_step [DnAdd 9, DnMark, DnAdjust] d') = Some True"
    by (rule dead_nonce_remembered [OF new_inv [OF d(1)] d']) (simp_all add: d(2) DNL_MIN_CAPACITY_def)
  then show ?thesis using d(1) d' by blast
qed

end
