(* ===== verification/FwCore.thy ===== *)
theory FwCore
  imports RetxSuppression FaceTable Cleanup StrategyChoice Cs DeadNonceList "HOL-Library.Product_Lexorder"
begin

text \<open>
  The state of \<^verbatim>\<open>daemon/fw/forwarder.hpp\<close>, the outgoing pipelines of \<^verbatim>\<open>forwarder.cpp\<close>, the actions
  a strategy may take (\<^verbatim>\<open>strategy.cpp\<close>) and the Nack processing strategies share
  (\<^verbatim>\<open>process-nack-traits.cpp\<close>), \<^verbatim>\<open>unsolicited-data-policy.cpp\<close>, and the invariant of the state.

  Handing a packet to a face appends to \<open>fw_out\<close>. Every clock reading of one pipeline is the
  argument \<open>now\<close>. The scheduled event of \<^verbatim>\<open>setExpiryTimer\<close> is the time in \<open>pe_expiryTimer\<close>. Signals
  of the forwarder for statistics have no handler in the daemon. A result \<open>None\<close> is a failed
  assertion, a dangling entry or a null dereference.
\<close>

declare split_paired_All [simp del] split_paired_Ex [simp del]

section \<open>State\<close>

datatype packetOut = SendInterest faceRef interest | SendData faceRef data | SendNack faceRef nack

datatype unsolicitedDataPolicy = DropAll | AdmitLocal | AdmitNetwork | AdmitAll

datatype unsolicitedDataDecision = DROP | CACHE

record forwarderCounters =
  nInInterests :: "64 word"
  nOutInterests :: "64 word"
  nInData :: "64 word"
  nOutData :: "64 word"
  nInNacks :: "64 word"
  nOutNacks :: "64 word"
  nSatisfiedInterests :: "64 word"
  nUnsatisfiedInterests :: "64 word"
  nUnsolicitedData :: "64 word"
  nCsHits :: "64 word"
  nCsMisses :: "64 word"

text \<open>
  The tables share the name tree; their counters are fields of their own. A strategy object is
  owned by an entry of the strategy choice table; \<open>fw_fit\<close> is the member \<^verbatim>\<open>m_fit\<close> of an access
  strategy, by the prefix of the entry that owns it. \<open>fw_random\<close> is the state of the random engine.
\<close>

record forwarder =
  fw_defaultHopLimit :: "8 word"
  fw_counters :: forwarderCounters
  fw_faceTable :: faceTable
  fw_unsolicitedDataPolicy :: unsolicitedDataPolicy
  fw_nameTree :: nameTree
  fw_nFib :: "64 word"
  fw_nPit :: "64 word"
  fw_nextPit :: nat
  fw_nMeas :: "64 word"
  fw_nSc :: "64 word"
  fw_cs :: "policy cs"
  fw_dnl :: deadNonceList
  fw_networkRegions :: "name list"
  fw_csFace :: faceRef
  fw_nInHopLimitZero :: "faceRef \<Rightarrow> 64 word"
  fw_nOutHopLimitZero :: "faceRef \<Rightarrow> 64 word"
  fw_fit :: "name \<Rightarrow> faceId \<rightharpoonup> rttEstimator"
  fw_random :: nat
  fw_out :: "packetOut list"

abbreviation fw_face :: "forwarder \<Rightarrow> faceRef \<Rightarrow> face" where
  "fw_face s \<equiv> ft_objects (fw_faceTable s)"

abbreviation fw_pit :: "forwarder \<Rightarrow> pitRef \<Rightarrow> pit_entry option" where
  "fw_pit s r \<equiv> pit_get r (fw_nameTree s)"

definition fw_modify :: "pitRef \<Rightarrow> (pit_entry \<Rightarrow> pit_entry) \<Rightarrow> forwarder \<Rightarrow> forwarder" where
  "fw_modify r f s = s\<lparr>fw_nameTree := pit_modify r f (fw_nameTree s)\<rparr>"

definition fw_emit :: "packetOut \<Rightarrow> forwarder \<Rightarrow> forwarder" where
  "fw_emit x s = s\<lparr>fw_out := fw_out s @ [x]\<rparr>"

definition fw_count :: "(forwarderCounters \<Rightarrow> forwarderCounters) \<Rightarrow> forwarder \<Rightarrow> forwarder" where
  "fw_count f s = s\<lparr>fw_counters := f (fw_counters s)\<rparr>"

text \<open>
  What the daemon takes from outside of the repository: the packet library, the wire encoding of
  names, the severity order of Nack reasons, the estimate of a round-trip time and a shuffle.
\<close>

record fw_env =
  env_lib :: ndn_lib
  env_wireEncode :: "name \<Rightarrow> bytes"
  env_isLessSevere :: "nackReason \<Rightarrow> nackReason \<Rightarrow> bool"
  env_appendVersion :: "nat \<Rightarrow> component" \<comment> \<open>the component \<^verbatim>\<open>Name::appendVersion\<close> adds\<close>
  env_getEstimatedRto :: "rttEstimator \<Rightarrow> duration"
  env_shuffle :: "nat \<Rightarrow> nextHop list \<Rightarrow> nextHop list \<times> nat" \<comment> \<open>on the state of the random engine\<close>

section \<open>Outgoing pipelines\<close>

definition setExpiryTimer :: "time \<Rightarrow> pitRef \<Rightarrow> int \<Rightarrow> forwarder \<Rightarrow> forwarder" where
  "setExpiryTimer now r duration = fw_modify r (\<lambda>e. e\<lparr>pe_expiryTimer := Some (now + ms (max duration 0))\<rparr>)"

text \<open>The result says whether an out-record is returned.\<close>

definition onOutgoingInterest :: "time \<Rightarrow> interest \<Rightarrow> faceRef \<Rightarrow> pitRef \<Rightarrow> forwarder \<Rightarrow> (forwarder \<times> bool) option" where
  "onOutgoingInterest now i egress r s =
     (if i_hopLimit i = Some 0 \<and> f_scope (fw_face s egress) = FACE_SCOPE_NON_LOCAL
      then Some (s\<lparr>fw_nOutHopLimitZero := (fw_nOutHopLimitZero s)(egress := fw_nOutHopLimitZero s egress + 1)\<rparr>, False)
      else if fw_pit s r = None then None
      else Some (fw_count (\<lambda>c. c\<lparr>nOutInterests := nOutInterests c + 1\<rparr>)
                   (fw_emit (SendInterest egress i) (fw_modify r (insertOrUpdateOutRecord now egress i) s)), True))"

definition onOutgoingData :: "data \<Rightarrow> faceRef \<Rightarrow> forwarder \<Rightarrow> forwarder \<times> bool" where
  "onOutgoingData d egress s =
     (if f_id (fw_face s egress) = INVALID_FACEID then (s, False)
      else if f_scope (fw_face s egress) = FACE_SCOPE_NON_LOCAL \<and> prefix LOCALHOST (d_name d) then (s, False)
      else (fw_count (\<lambda>c. c\<lparr>nOutData := nOutData c + 1\<rparr>) (fw_emit (SendData egress d) s), True))"

definition onOutgoingNack :: "nackReason \<Rightarrow> faceRef \<Rightarrow> pitRef \<Rightarrow> forwarder \<Rightarrow> (forwarder \<times> bool) option" where
  "onOutgoingNack reason egress r s =
     (if f_id (fw_face s egress) = INVALID_FACEID then Some (s, False)
      else do {
        e \<leftarrow> fw_pit s r;
        case getInRecord egress e of
          None \<Rightarrow> Some (s, False)
        | Some inRecord \<Rightarrow>
            if f_linkType (fw_face s egress) \<noteq> LINK_TYPE_POINT_TO_POINT then Some (s, False)
            else do {
              i \<leftarrow> ir_interest inRecord;
              Some (fw_count (\<lambda>c. c\<lparr>nOutNacks := nOutNacks c + 1\<rparr>)
                      (fw_emit (SendNack egress \<lparr>n_interest = i, n_reason = reason\<rparr>)
                        (fw_modify r (deleteInRecord egress) s)), True) } })"

fun dnl_addAll :: "(name \<Rightarrow> bytes) \<Rightarrow> name \<Rightarrow> nonce list \<Rightarrow> deadNonceList \<Rightarrow> deadNonceList option" where
  "dnl_addAll wireEncode n [] d = Some d"
| "dnl_addAll wireEncode n (x # xs) d = do { d' \<leftarrow> dnl_add wireEncode n x d; dnl_addAll wireEncode n xs d' }"

definition insertDeadNonceList :: "fw_env \<Rightarrow> pitRef \<Rightarrow> faceRef option \<Rightarrow> forwarder \<Rightarrow> forwarder option" where
  "insertDeadNonceList E r upstream s = do {
     e \<leftarrow> fw_pit s r;
     if pe_isSatisfied e \<and> pe_dataFreshnessPeriod e < 0 then None
     else let needDnl = (if pe_isSatisfied e
                         then i_mustBeFresh (pe_interest e) \<and> ms (pe_dataFreshnessPeriod e) < dn_lifetime (fw_dnl s)
                         else True)
          in if \<not> needDnl then Some s
             else do {
               d \<leftarrow> dnl_addAll (env_wireEncode E) (pe_name e)
                      (case upstream of
                         None \<Rightarrow> map fr_lastNonce (pe_outRecords e)
                       | Some f \<Rightarrow> (case getOutRecord f e of None \<Rightarrow> [] | Some x \<Rightarrow> [fr_lastNonce x])) (fw_dnl s);
               Some (s\<lparr>fw_dnl := d\<rparr>) } }"

section \<open>Actions of a strategy\<close>

definition sendInterest :: "time \<Rightarrow> interest \<Rightarrow> faceRef \<Rightarrow> pitRef \<Rightarrow> forwarder \<Rightarrow> (forwarder \<times> bool) option" where
  "sendInterest now i egress r s =
     (if i_pitToken i \<noteq> None then onOutgoingInterest now (i\<lparr>i_pitToken := None\<rparr>) egress r s
      else onOutgoingInterest now i egress r s)"

text \<open>No caller uses the result of \<^verbatim>\<open>sendData\<close>, which the code does not set on one path.\<close>

definition sendData :: "fw_env \<Rightarrow> time \<Rightarrow> data \<Rightarrow> faceRef \<Rightarrow> pitRef \<Rightarrow> forwarder \<Rightarrow> forwarder option" where
  "sendData E now d egress r s = do {
     e \<leftarrow> fw_pit s r;
     if \<not> matchesData (env_lib E) (pe_interest e) d then None
     else do {
       pitToken \<leftarrow> (case getInRecord egress e of
                      None \<Rightarrow> Some None
                    | Some inRecord \<Rightarrow> map_option i_pitToken (ir_interest inRecord));
       let s1 = fw_modify r (deleteInRecord egress) s;
       if pitToken \<noteq> None then Some (fst (onOutgoingData (d\<lparr>d_pitToken := pitToken\<rparr>) egress s1))
       else
         let s2 = fst (onOutgoingData d egress s1) in
         if pe_inRecords (deleteInRecord egress e) = []
         then Some (fw_modify r (\<lambda>e. e\<lparr>pe_isSatisfied := True\<rparr>) (setExpiryTimer now r 0 s2))
         else Some s2 } }"

text \<open>A \<^verbatim>\<open>std::set\<close> is the sorted list of its elements.\<close>

definition set_emplace :: "'a::linorder \<Rightarrow> 'a list \<Rightarrow> 'a list" where
  "set_emplace x xs = (if x \<in> set xs then xs else insort x xs)"

fun sendDataEach :: "fw_env \<Rightarrow> time \<Rightarrow> data \<Rightarrow> pitRef \<Rightarrow> faceRef list \<Rightarrow> forwarder \<Rightarrow> forwarder option" where
  "sendDataEach E now d r [] s = Some s"
| "sendDataEach E now d r (f # fs) s = do { s' \<leftarrow> sendData E now d f r s; sendDataEach E now d r fs s' }"

definition sendDataToAll :: "fw_env \<Rightarrow> time \<Rightarrow> data \<Rightarrow> pitRef \<Rightarrow> faceRef \<Rightarrow> forwarder \<Rightarrow> forwarder option" where
  "sendDataToAll E now d r inFace s = do {
     e \<leftarrow> fw_pit s r;
     let pendingDownstreams = fold (\<lambda>x fs. if now < fr_expiry x
           then if f_id (fw_face s (fr_face x)) = f_id (fw_face s inFace) \<and>
                   f_linkType (fw_face s (fr_face x)) \<noteq> LINK_TYPE_AD_HOC
                then fs else set_emplace (fr_face x) fs
           else fs) (pe_inRecords e) [];
     s1 \<leftarrow> sendDataEach E now d r pendingDownstreams s;
     Some (fw_modify r (\<lambda>e. e\<lparr>pe_isSatisfied := True\<rparr>) (setExpiryTimer now r 0 (fw_modify r clearInRecords s1))) }"

definition rejectPendingInterest :: "time \<Rightarrow> pitRef \<Rightarrow> forwarder \<Rightarrow> forwarder" where
  "rejectPendingInterest now r = setExpiryTimer now r 0"

definition sendNack :: "nackReason \<Rightarrow> faceRef \<Rightarrow> pitRef \<Rightarrow> forwarder \<Rightarrow> (forwarder \<times> bool) option" where
  "sendNack reason egress r s = onOutgoingNack reason egress r s"

fun sendNackEach :: "nackReason \<Rightarrow> pitRef \<Rightarrow> faceRef list \<Rightarrow> forwarder \<Rightarrow> forwarder option" where
  "sendNackEach reason r [] s = Some s"
| "sendNackEach reason r (f # fs) s = do { (s', _) \<leftarrow> sendNack reason f r s; sendNackEach reason r fs s' }"

text \<open>The order of the \<^verbatim>\<open>unordered_set\<close> of downstreams is that of the in-records here.\<close>

definition sendNacks :: "nackReason \<Rightarrow> pitRef \<Rightarrow> faceRef list \<Rightarrow> forwarder \<Rightarrow> forwarder option" where
  "sendNacks reason r exceptFaces s = do {
     e \<leftarrow> fw_pit s r;
     sendNackEach reason r (filter (\<lambda>f. f \<notin> set exceptFaces) (remdups (map fr_face (pe_inRecords e)))) s }"

fun lookupDelegations :: "name list \<Rightarrow> nameTree \<Rightarrow> fib_entry option \<Rightarrow> fib_entry option" where
  "lookupDelegations [] nt found = do { e \<leftarrow> found; if fe_prefix e = [] then Some e else None }"
| "lookupDelegations (delegation # fh) nt found =
     (let e = fib_findLongestPrefixMatch delegation nt
      in if fe_hasNextHops e then Some e
         else if fe_prefix e \<noteq> [] then None
         else lookupDelegations fh nt (Some e))"

definition lookupFib :: "pitRef \<Rightarrow> forwarder \<Rightarrow> fib_entry option" where
  "lookupFib r s = do {
     e \<leftarrow> fw_pit s r;
     let fh = i_forwardingHint (pe_interest e);
     if fh = [] then Some (fib_findLongestPrefixMatch_pit (fst r) (pe_name e) (fw_nameTree s))
     else if isInProducerRegion (fw_networkRegions s) fh then None
     else lookupDelegations fh (fw_nameTree s) None }"

section \<open>Nack processing\<close>

text \<open>The loop over the out-records: how many are not Nacked, the last of them, and the reason.\<close>

definition nackSummary :: "fw_env \<Rightarrow> out_record list \<Rightarrow> nat \<times> faceRef option \<times> nackReason" where
  "nackSummary E rs =
     foldl (\<lambda>(n, lastFace, reason) x.
        case or_incomingNack x of
          None \<Rightarrow> (Suc n, Some (fr_face x), reason)
        | Some nk \<Rightarrow> (n, lastFace, if env_isLessSevere E nk reason then nk else reason))
       (0, None, NONE) rs"

definition processNack :: "fw_env \<Rightarrow> pitRef \<Rightarrow> forwarder \<Rightarrow> forwarder option" where
  "processNack E r s = do {
     e \<leftarrow> fw_pit s r;
     case nackSummary E (pe_outRecords e) of (nOutRecordsNotNacked, lastFaceNotNacked, leastSevereReason) \<Rightarrow>
       if nOutRecordsNotNacked = 1
       then do {
         f \<leftarrow> lastFaceNotNacked;
         if getInRecord f e \<noteq> None then map_option fst (sendNack leastSevereReason f r s)
         else Some s }
       else if 0 < nOutRecordsNotNacked then Some s
       else sendNacks leastSevereReason r [] s }"

section \<open>Unsolicited Data\<close>

fun unsolicited_decide :: "unsolicitedDataPolicy \<Rightarrow> face \<Rightarrow> unsolicitedDataDecision" where
  "unsolicited_decide DropAll inFace = DROP"
| "unsolicited_decide AdmitLocal inFace = (if f_scope inFace = FACE_SCOPE_LOCAL then CACHE else DROP)"
| "unsolicited_decide AdmitNetwork inFace = (if f_scope inFace = FACE_SCOPE_NON_LOCAL then CACHE else DROP)"
| "unsolicited_decide AdmitAll inFace = CACHE"

definition unsolicited_create :: "string \<Rightarrow> unsolicitedDataPolicy option" where
  "unsolicited_create policyName =
     map_of [(''drop-all'', DropAll), (''admit-local'', AdmitLocal), (''admit-network'', AdmitNetwork),
             (''admit-all'', AdmitAll)] policyName"

end
