(* ===== verification/Strategies.thy ===== *)
theory Strategies
  imports FwCore
begin

text \<open>
  \<^verbatim>\<open>daemon/fw/best-route-strategy.cpp\<close>, \<^verbatim>\<open>multicast-strategy.cpp\<close>, \<^verbatim>\<open>random-strategy.cpp\<close> and the
  triggers of the base class in \<^verbatim>\<open>strategy.cpp\<close>. The virtual triggers of a strategy object are the
  record \<open>strategy_ops\<close>; the pipelines call them through the entry of the strategy choice table
  that is effective for a PIT entry.
\<close>

section \<open>Triggers\<close>

record strategy_ops =
  so_afterReceiveInterest :: "time \<Rightarrow> interest \<Rightarrow> faceRef \<Rightarrow> pitRef \<Rightarrow> forwarder \<Rightarrow> forwarder option"
  so_beforeSatisfyInterest :: "time \<Rightarrow> data \<Rightarrow> faceRef \<Rightarrow> pitRef \<Rightarrow> forwarder \<Rightarrow> forwarder option"
  so_afterReceiveNack :: "time \<Rightarrow> nack \<Rightarrow> faceRef \<Rightarrow> pitRef \<Rightarrow> forwarder \<Rightarrow> forwarder option"
  so_afterNewNextHop :: "time \<Rightarrow> nextHop \<Rightarrow> pitRef \<Rightarrow> forwarder \<Rightarrow> forwarder option"

text \<open>The base class triggers log, and no more.\<close>

definition strategy_beforeSatisfyInterest :: "time \<Rightarrow> data \<Rightarrow> faceRef \<Rightarrow> pitRef \<Rightarrow> forwarder \<Rightarrow> forwarder option" where
  "strategy_beforeSatisfyInterest now d ingress r s = Some s"

definition strategy_afterReceiveNack :: "time \<Rightarrow> nack \<Rightarrow> faceRef \<Rightarrow> pitRef \<Rightarrow> forwarder \<Rightarrow> forwarder option" where
  "strategy_afterReceiveNack now n ingress r s = Some s"

definition strategy_afterNewNextHop :: "time \<Rightarrow> nextHop \<Rightarrow> pitRef \<Rightarrow> forwarder \<Rightarrow> forwarder option" where
  "strategy_afterNewNextHop now nh r s = Some s"

text \<open>
  The triggers that no strategy overrides. A downstream is a face with an endpoint, which is
  always 0 here.
\<close>

type_synonym downstream = "faceRef \<times> nat"

definition satisfyInterest ::
    "strategy_ops \<Rightarrow> time \<Rightarrow> pitRef \<Rightarrow> faceRef \<Rightarrow> data \<Rightarrow> downstream list \<Rightarrow> downstream list \<Rightarrow> forwarder \<Rightarrow>
     (forwarder \<times> downstream list \<times> downstream list) option" where
  "satisfyInterest ops now r ingress d satisfied unsatisfied s = do {
     e \<leftarrow> fw_pit s r;
     let satisfied' = fold (\<lambda>x ds. if now < fr_expiry x then set_emplace (fr_face x, 0) ds else ds)
                        (pe_inRecords e) satisfied;
     s' \<leftarrow> so_beforeSatisfyInterest ops now d ingress r s;
     Some (s', satisfied', unsatisfied) }"

definition afterContentStoreHit :: "fw_env \<Rightarrow> time \<Rightarrow> data \<Rightarrow> faceRef \<Rightarrow> pitRef \<Rightarrow> forwarder \<Rightarrow> forwarder option" where
  "afterContentStoreHit E now d ingress r s = sendData E now d ingress r s"

definition afterReceiveData ::
    "strategy_ops \<Rightarrow> fw_env \<Rightarrow> time \<Rightarrow> data \<Rightarrow> faceRef \<Rightarrow> pitRef \<Rightarrow> forwarder \<Rightarrow> forwarder option" where
  "afterReceiveData ops E now d ingress r s = do {
     s' \<leftarrow> so_beforeSatisfyInterest ops now d ingress r s;
     sendDataToAll E now d r ingress s' }"

section \<open>Best route\<close>

definition BR_RETX_SUPPRESSION_INITIAL :: duration where "BR_RETX_SUPPRESSION_INITIAL = ms 10"
definition BR_RETX_SUPPRESSION_MAX :: duration where "BR_RETX_SUPPRESSION_MAX = ms 250"

text \<open>The member \<^verbatim>\<open>m_retxSuppression\<close> of best route and of multicast.\<close>

definition retxOf :: "duration \<Rightarrow> duration \<Rightarrow> retxExponential" where
  "retxOf initial maximum =
     \<lparr>rx_initialInterval = initial, rx_multiplier = RX_DEFAULT_MULTIPLIER, rx_maxInterval = maximum\<rparr>"

definition fw_write :: "pitRef \<Rightarrow> pit_entry \<Rightarrow> forwarder \<Rightarrow> forwarder" where
  "fw_write r e = fw_modify r (\<lambda>_. e)"

definition sendTo :: "time \<Rightarrow> interest \<Rightarrow> nextHop \<Rightarrow> pitRef \<Rightarrow> forwarder \<Rightarrow> forwarder option" where
  "sendTo now i nh r s = map_option fst (sendInterest now i (nh_face nh) r s)"

definition sendNoRoute :: "time \<Rightarrow> faceRef \<Rightarrow> pitRef \<Rightarrow> forwarder \<Rightarrow> forwarder option" where
  "sendNoRoute now ingress r s = do {
     (s', _) \<leftarrow> sendNack NO_ROUTE ingress r s;
     Some (rejectPendingInterest now r s') }"

definition bestRoute_afterReceiveInterest ::
    "time \<Rightarrow> interest \<Rightarrow> faceRef \<Rightarrow> pitRef \<Rightarrow> forwarder \<Rightarrow> forwarder option" where
  "bestRoute_afterReceiveInterest now i ingress r s = do {
     e \<leftarrow> fw_pit s r;
     (e', suppression) \<leftarrow> decidePerPitEntry (retxOf BR_RETX_SUPPRESSION_INITIAL BR_RETX_SUPPRESSION_MAX) now e;
     let s' = fw_write r e' s;
     if suppression = RETX_SUPPRESS then Some s'
     else do {
       fibEntry \<leftarrow> lookupFib r s';
       let nexthops = fe_nextHops fibEntry;
       if suppression = RETX_NEW
       then (case find (nextHopEligible (fw_face s') ingress i e') nexthops of
               None \<Rightarrow> sendNoRoute now ingress r s'
             | Some nh \<Rightarrow> sendTo now i nh r s')
       else (case find (\<lambda>nh. isNextHopEligible (fw_face s') ingress i nh e' True now) nexthops of
               Some nh \<Rightarrow> sendTo now i nh r s'
             | None \<Rightarrow> do {
                 it \<leftarrow> findEligibleNextHopWithEarliestOutRecord (fw_face s') ingress i nexthops e';
                 case it of None \<Rightarrow> Some s' | Some nh \<Rightarrow> sendTo now i nh r s' }) } }"

definition bestRoute_afterReceiveNack ::
    "fw_env \<Rightarrow> time \<Rightarrow> nack \<Rightarrow> faceRef \<Rightarrow> pitRef \<Rightarrow> forwarder \<Rightarrow> forwarder option" where
  "bestRoute_afterReceiveNack E now n ingress r s = processNack E r s"

definition bestRouteOps :: "fw_env \<Rightarrow> strategy_ops" where
  "bestRouteOps E = \<lparr>so_afterReceiveInterest = bestRoute_afterReceiveInterest,
     so_beforeSatisfyInterest = strategy_beforeSatisfyInterest,
     so_afterReceiveNack = bestRoute_afterReceiveNack E, so_afterNewNextHop = strategy_afterNewNextHop\<rparr>"

section \<open>Multicast\<close>

definition MC_RETX_SUPPRESSION_INITIAL :: duration where "MC_RETX_SUPPRESSION_INITIAL = ms 10"
definition MC_RETX_SUPPRESSION_MAX :: duration where "MC_RETX_SUPPRESSION_MAX = ms 250"

abbreviation multicastRetx :: retxExponential where
  "multicastRetx \<equiv> retxOf MC_RETX_SUPPRESSION_INITIAL MC_RETX_SUPPRESSION_MAX"

text \<open>The tail of the loop body: sending, and growing the interval of a retransmission.\<close>

definition multicast_send ::
    "time \<Rightarrow> interest \<Rightarrow> nextHop \<Rightarrow> retxSuppressionResult \<Rightarrow> pitRef \<Rightarrow> forwarder \<Rightarrow> forwarder option" where
  "multicast_send now i nh suppressResult r s = do {
     (s1, sent) \<leftarrow> sendInterest now i (nh_face nh) r s;
     if sent \<and> suppressResult = RETX_FORWARD
     then do {
       e \<leftarrow> fw_pit s1 r;
       x \<leftarrow> getOutRecord (nh_face nh) e;
       x' \<leftarrow> incrementIntervalForOutRecord multicastRetx x;
       Some (fw_modify r (updateOutRecord (nh_face nh) (\<lambda>_. x')) s1) }
     else Some s1 }"

fun multicast_loop ::
    "time \<Rightarrow> interest \<Rightarrow> faceRef \<Rightarrow> pitRef \<Rightarrow> nextHop list \<Rightarrow> forwarder \<Rightarrow> forwarder option" where
  "multicast_loop now i ingress r [] s = Some s"
| "multicast_loop now i ingress r (nh # nhs) s = do {
     e \<leftarrow> fw_pit s r;
     (e', suppressResult) \<leftarrow> decidePerUpstream multicastRetx now (nh_face nh) e;
     let s1 = fw_write r e' s;
     s2 \<leftarrow> (if suppressResult = RETX_SUPPRESS \<or> \<not> nextHopEligible (fw_face s1) ingress i e' nh then Some s1
            else multicast_send now i nh suppressResult r s1);
     multicast_loop now i ingress r nhs s2 }"

definition multicast_afterReceiveInterest ::
    "time \<Rightarrow> interest \<Rightarrow> faceRef \<Rightarrow> pitRef \<Rightarrow> forwarder \<Rightarrow> forwarder option" where
  "multicast_afterReceiveInterest now i ingress r s = do {
     fibEntry \<leftarrow> lookupFib r s;
     multicast_loop now i ingress r (fe_nextHops fibEntry) s }"

definition multicast_afterNewNextHop :: "time \<Rightarrow> nextHop \<Rightarrow> pitRef \<Rightarrow> forwarder \<Rightarrow> forwarder option" where
  "multicast_afterNewNextHop now nh r s = do {
     e \<leftarrow> fw_pit s r;
     case find (\<lambda>x. nextHopEligible (fw_face s) (fr_face x) (pe_interest e) e nh) (pe_inRecords e) of
       None \<Rightarrow> Some s
     | Some _ \<Rightarrow> sendTo now (pe_interest e) nh r s }"

definition multicastOps :: strategy_ops where
  "multicastOps = \<lparr>so_afterReceiveInterest = multicast_afterReceiveInterest,
     so_beforeSatisfyInterest = strategy_beforeSatisfyInterest,
     so_afterReceiveNack = strategy_afterReceiveNack, so_afterNewNextHop = multicast_afterNewNextHop\<rparr>"

section \<open>Random\<close>

definition random_afterReceiveInterest ::
    "fw_env \<Rightarrow> time \<Rightarrow> interest \<Rightarrow> faceRef \<Rightarrow> pitRef \<Rightarrow> forwarder \<Rightarrow> forwarder option" where
  "random_afterReceiveInterest E now i ingress r s = do {
     e \<leftarrow> fw_pit s r;
     fibEntry \<leftarrow> lookupFib r s;
     let nhs = filter (nextHopEligible (fw_face s) ingress i e) (fe_nextHops fibEntry);
     if nhs = [] then sendNoRoute now ingress r s
     else case env_shuffle E (fw_random s) nhs of
            ([], _) \<Rightarrow> None
          | (nh # _, g) \<Rightarrow> sendTo now i nh r (s\<lparr>fw_random := g\<rparr>) }"

definition random_afterReceiveNack ::
    "fw_env \<Rightarrow> time \<Rightarrow> nack \<Rightarrow> faceRef \<Rightarrow> pitRef \<Rightarrow> forwarder \<Rightarrow> forwarder option" where
  "random_afterReceiveNack E now n ingress r s = processNack E r s"

definition randomOps :: "fw_env \<Rightarrow> strategy_ops" where
  "randomOps E = \<lparr>so_afterReceiveInterest = random_afterReceiveInterest E,
     so_beforeSatisfyInterest = strategy_beforeSatisfyInterest,
     so_afterReceiveNack = random_afterReceiveNack E, so_afterNewNextHop = strategy_afterNewNextHop\<rparr>"

section \<open>Strategy objects\<close>

text \<open>
  The constructors of the strategies are alike: they reject parameters and other versions and
  complete the instance name.
\<close>

definition strategyPath :: "string \<Rightarrow> name" where
  "strategyPath x = map (Component 8) [''localhost'', ''nfd'', ''strategy'', x]"

definition newStrategy :: "fw_env \<Rightarrow> string \<Rightarrow> name \<Rightarrow> name \<Rightarrow> string + name" where
  "newStrategy E class strategyName n =
     (let parsed = parseInstanceName (env_lib E) n in
      if pi_parameters parsed \<noteq> [] then Inl (class @ '' does not accept parameters'')
      else if pi_version parsed \<noteq> None \<and> pi_version parsed \<noteq> Some (last strategyName)
      then Inl (class @ '' does not support version '')
      else Inr (makeInstanceName (env_lib E) n strategyName))"

definition bestRoute_getStrategyName :: "fw_env \<Rightarrow> name" where
  "bestRoute_getStrategyName E = strategyPath ''best-route'' @ [env_appendVersion E 5]"

definition newBestRouteStrategy :: "fw_env \<Rightarrow> name \<Rightarrow> string + name" where
  "newBestRouteStrategy E n = newStrategy E ''BestRouteStrategy'' (bestRoute_getStrategyName E) n"

definition multicast_getStrategyName :: "fw_env \<Rightarrow> name" where
  "multicast_getStrategyName E = strategyPath ''multicast'' @ [env_appendVersion E 4]"

definition newMulticastStrategy :: "fw_env \<Rightarrow> name \<Rightarrow> string + name" where
  "newMulticastStrategy E n = newStrategy E ''MulticastStrategy'' (multicast_getStrategyName E) n"

definition random_getStrategyName :: "fw_env \<Rightarrow> name" where
  "random_getStrategyName E = strategyPath ''random'' @ [env_appendVersion E 1]"

definition newRandomStrategy :: "fw_env \<Rightarrow> name \<Rightarrow> string + name" where
  "newRandomStrategy E n = newStrategy E ''RandomStrategy'' (random_getStrategyName E) n"

text \<open>
  The class of an object is that whose unversioned name its instance name starts with. (Given a
  proper prefix of the name of a strategy, the registry creates an object as well; its instance
  name does not say its class, and the model has no such objects.)
\<close>

definition strategyOps :: "fw_env \<Rightarrow> name \<Rightarrow> strategy_ops option" where
  "strategyOps E inst =
     map_option snd (find (\<lambda>(path, _). prefix path inst)
       [(strategyPath ''best-route'', bestRouteOps E), (strategyPath ''multicast'', multicastOps),
        (strategyPath ''random'', randomOps E)])"

definition effectiveStrategy :: "fw_env \<Rightarrow> pitRef \<Rightarrow> forwarder \<Rightarrow> strategy_ops option" where
  "effectiveStrategy E r s = do {
     e \<leftarrow> fw_pit s r;
     inst \<leftarrow> findEffectiveStrategy_pit (fst r) (pe_name e) (fw_nameTree s);
     strategyOps E inst }"

end
