(* ===== verification/Forwarder.thy ===== *)
theory Forwarder
  imports Strategies
begin

text \<open>
  \<^verbatim>\<open>daemon/fw/forwarder.cpp\<close>: the forwarding pipelines, the events that enter them, and what holds
  of every state and every packet sent.
\<close>

unbundle bit_operations_syntax

section \<open>Interest pipelines\<close>

definition onInterestLoop :: "interest \<Rightarrow> faceRef \<Rightarrow> forwarder \<Rightarrow> forwarder" where
  "onInterestLoop i ingress s =
     (if f_linkType (fw_face s ingress) \<noteq> LINK_TYPE_POINT_TO_POINT then s
      else fw_emit (SendNack ingress \<lparr>n_interest = i, n_reason = DUPLICATE\<rparr>) s)"

text \<open>
  The entry holds the Interest object it was made for. If that is the one being processed, a
  HopLimit attached to it shows in the entry as well; \<open>isNew\<close> says so.
\<close>

definition attachHopLimit :: "interest \<Rightarrow> bool \<Rightarrow> pitRef \<Rightarrow> forwarder \<Rightarrow> interest \<times> forwarder" where
  "attachHopLimit i isNew r s =
     (if 0 < fw_defaultHopLimit s \<and> i_hopLimit i = None
      then let i' = i\<lparr>i_hopLimit := Some (fw_defaultHopLimit s)\<rparr>
           in (i', if isNew then fw_modify r (\<lambda>e. e\<lparr>pe_interest := i'\<rparr>) s else s)
      else (i, s))"

definition onContentStoreMiss ::
    "fw_env \<Rightarrow> time \<Rightarrow> interest \<Rightarrow> bool \<Rightarrow> faceRef \<Rightarrow> pitRef \<Rightarrow> forwarder \<Rightarrow> forwarder option" where
  "onContentStoreMiss E now i isNew ingress r s = do {
     let (i, s) = attachHopLimit i isNew r (fw_count (\<lambda>c. c\<lparr>nCsMisses := nCsMisses c + 1\<rparr>) s);
     let s = fw_modify r (insertOrUpdateInRecord now ingress i) s;
     e \<leftarrow> fw_pit s r;
     lastExpiring \<leftarrow> maxElement fr_expiry (pe_inRecords e);
     let s = setExpiryTimer now r (duration_cast_ms (fr_expiry lastExpiring - now)) s;
     case i_nextHopFaceId i of
       Some nextHopTag \<Rightarrow>
         (case ft_get nextHopTag (fw_faceTable s) of
            None \<Rightarrow> Some s
          | Some nextHopFace \<Rightarrow> map_option fst (onOutgoingInterest now i nextHopFace r s))
     | None \<Rightarrow> do {
         ops \<leftarrow> effectiveStrategy E r s;
         so_afterReceiveInterest ops now i ingress r s } }"

text \<open>
  The tags are set on the packet in the content store; as every hit sets both, the model does
  not keep them there.
\<close>

definition onContentStoreHit ::
    "fw_env \<Rightarrow> time \<Rightarrow> interest \<Rightarrow> faceRef \<Rightarrow> pitRef \<Rightarrow> data \<Rightarrow> forwarder \<Rightarrow> forwarder option" where
  "onContentStoreHit E now i ingress r d s = do {
     let s = fw_count (\<lambda>c. c\<lparr>nCsHits := nCsHits c + 1\<rparr>) s;
     let d = d\<lparr>d_incomingFaceId := Some FACEID_CONTENT_STORE, d_pitToken := i_pitToken i\<rparr>;
     let s = fw_modify r (\<lambda>e. e\<lparr>pe_isSatisfied := True, pe_dataFreshnessPeriod := d_freshnessPeriod d\<rparr>) s;
     let s = setExpiryTimer now r 0 s;
     ops \<leftarrow> effectiveStrategy E r s;
     s \<leftarrow> so_beforeSatisfyInterest ops now d (fw_csFace s) r s;
     afterContentStoreHit E now d ingress r s }"

definition hasDuplicateNonceInPit :: "forwarder \<Rightarrow> pit_entry \<Rightarrow> nonce \<Rightarrow> faceRef \<Rightarrow> bool" where
  "hasDuplicateNonceInPit s e nonce ingress =
     (let dnw = findDuplicateNonce e nonce ingress in
      if f_linkType (fw_face s ingress) = LINK_TYPE_POINT_TO_POINT
      then dnw \<noteq> DUPLICATE_NONCE_NONE \<and> dnw AND DUPLICATE_NONCE_IN_SAME = 0
      else dnw \<noteq> DUPLICATE_NONCE_NONE)"

text \<open>The pipeline from the insertion into the PIT on.\<close>

definition onPitInserted ::
    "fw_env \<Rightarrow> time \<Rightarrow> interest \<Rightarrow> bool \<Rightarrow> faceRef \<Rightarrow> pitRef \<Rightarrow> forwarder \<Rightarrow> forwarder option" where
  "onPitInserted E now i isNew ingress r s = do {
     e \<leftarrow> fw_pit s r;
     if hasDuplicateNonceInPit s e (i_nonce i) ingress
     then do {
       let s = onInterestLoop i ingress s;
       _ \<leftarrow> effectiveStrategy E r s;
       Some s }
     else if \<not> hasInRecords e
     then do {
       (cs, found) \<leftarrow> cs_find policyOps (env_lib E) now i (fw_cs s);
       let s = s\<lparr>fw_cs := cs\<rparr>;
       case found of
         Some d \<Rightarrow> onContentStoreHit E now i ingress r d s
       | None \<Rightarrow> onContentStoreMiss E now i isNew ingress r s }
     else onContentStoreMiss E now i isNew ingress r s }"

definition fw_pitInsert :: "fw_env \<Rightarrow> interest \<Rightarrow> forwarder \<Rightarrow> (forwarder \<times> pitRef \<times> bool) option" where
  "fw_pitInsert E i s =
     (case pit_insert (env_lib E) i (fw_nameTree s, fw_nPit s, fw_nextPit s) of
        ((nt, k, a), r, isNew) \<Rightarrow>
          map_option (\<lambda>r. (s\<lparr>fw_nameTree := nt, fw_nPit := k, fw_nextPit := a\<rparr>, r, isNew)) r)"

definition stripForwardingHint :: "name list \<Rightarrow> interest \<Rightarrow> interest" where
  "stripForwardingHint regions i =
     (if i_forwardingHint i \<noteq> [] \<and> isInProducerRegion regions (i_forwardingHint i)
      then i\<lparr>i_forwardingHint := []\<rparr> else i)"

definition onIncomingInterest :: "fw_env \<Rightarrow> time \<Rightarrow> interest \<Rightarrow> faceRef \<Rightarrow> forwarder \<Rightarrow> forwarder option" where
  "onIncomingInterest E now i ingress s = do {
     let i = i\<lparr>i_incomingFaceId := Some (f_id (fw_face s ingress))\<rparr>;
     let s = fw_count (\<lambda>c. c\<lparr>nInInterests := nInInterests c + 1\<rparr>) s;
     if i_hopLimit i = Some 0
     then Some (s\<lparr>fw_nInHopLimitZero := (fw_nInHopLimitZero s)(ingress := fw_nInHopLimitZero s ingress + 1)\<rparr>)
     else do {
       let i = i\<lparr>i_hopLimit := map_option (\<lambda>h. h - 1) (i_hopLimit i)\<rparr>;
       if f_scope (fw_face s ingress) = FACE_SCOPE_NON_LOCAL \<and> prefix LOCALHOST (i_name i) then Some s
       else do {
         hasDuplicateNonceInDnl \<leftarrow> dnl_has (env_wireEncode E) (i_name i) (i_nonce i) (fw_dnl s);
         if hasDuplicateNonceInDnl then Some (onInterestLoop i ingress s)
         else do {
           let i = stripForwardingHint (fw_networkRegions s) i;
           (s, r, isNew) \<leftarrow> fw_pitInsert E i s;
           onPitInserted E now i isNew ingress r s } } } }"

definition onInterestFinalize :: "fw_env \<Rightarrow> pitRef \<Rightarrow> forwarder \<Rightarrow> forwarder option" where
  "onInterestFinalize E r s = do {
     e \<leftarrow> fw_pit s r;
     s \<leftarrow> insertDeadNonceList E r None s;
     let s = fw_count (if pe_isSatisfied e then (\<lambda>c. c\<lparr>nSatisfiedInterests := nSatisfiedInterests c + 1\<rparr>)
                       else (\<lambda>c. c\<lparr>nUnsatisfiedInterests := nUnsatisfiedInterests c + 1\<rparr>)) s;
     let s = fw_modify r (\<lambda>e. e\<lparr>pe_expiryTimer := None\<rparr>) s;
     case pit_erase r True (fw_nameTree s, fw_nPit s, fw_nextPit s) of
       (nt, k, a) \<Rightarrow> Some (s\<lparr>fw_nameTree := nt, fw_nPit := k, fw_nextPit := a\<rparr>) }"

section \<open>Data pipelines\<close>

definition onDataUnsolicited :: "fw_env \<Rightarrow> time \<Rightarrow> data \<Rightarrow> faceRef \<Rightarrow> forwarder \<Rightarrow> forwarder option" where
  "onDataUnsolicited E now d ingress s = do {
     s \<leftarrow> (if unsolicited_decide (fw_unsolicitedDataPolicy s) (fw_face s ingress) = CACHE
           then map_option (\<lambda>cs. s\<lparr>fw_cs := cs\<rparr>) (cs_insert policyOps (env_lib E) now d True (fw_cs s))
           else Some s);
     Some (fw_count (\<lambda>c. c\<lparr>nUnsolicitedData := nUnsolicitedData c + 1\<rparr>) s) }"

text \<open>A \<^verbatim>\<open>std::multimap\<close> is the list of its items, in key order and then in order of insertion.\<close>

definition multimap_emplace :: "'k::linorder \<times> 'v \<Rightarrow> ('k \<times> 'v) list \<Rightarrow> ('k \<times> 'v) list" where
  "multimap_emplace x xs = takeWhile (\<lambda>y. fst y \<le> fst x) xs @ x # dropWhile (\<lambda>y. fst y \<le> fst x) xs"

text \<open>The body of the loop over the matching PIT entries.\<close>

definition onDataMatch ::
    "fw_env \<Rightarrow> time \<Rightarrow> data \<Rightarrow> faceRef \<Rightarrow> pitRef \<Rightarrow> forwarder \<times> downstream list \<times> (downstream \<times> pitRef) list \<Rightarrow>
     (forwarder \<times> downstream list \<times> (downstream \<times> pitRef) list) option" where
  "onDataMatch E now d ingress r = (\<lambda>(s, satisfied, unsatisfiedPitEntries). do {
     ops \<leftarrow> effectiveStrategy E r s;
     (s, satisfied, unsatisfied) \<leftarrow> satisfyInterest ops now r ingress d satisfied [] s;
     let unsatisfiedPitEntries = fold (\<lambda>x. multimap_emplace (x, r)) unsatisfied unsatisfiedPitEntries;
     let s = (if unsatisfied = []
              then fw_modify r (\<lambda>e. e\<lparr>pe_isSatisfied := True\<rparr>) (setExpiryTimer now r 0 s) else s);
     s \<leftarrow> insertDeadNonceList E r (Some ingress) s;
     let s = fw_modify r (\<lambda>e. e\<lparr>pe_dataFreshnessPeriod := d_freshnessPeriod d\<rparr>) s;
     let s = fold (\<lambda>x. fw_modify r (deleteInRecord (fst x))) satisfied s;
     Some (fw_modify r (deleteOutRecord ingress) s, satisfied, unsatisfiedPitEntries) })"

fun dataMatchLoop ::
    "fw_env \<Rightarrow> time \<Rightarrow> data \<Rightarrow> faceRef \<Rightarrow> pitRef list \<Rightarrow> forwarder \<times> downstream list \<times> (downstream \<times> pitRef) list \<Rightarrow>
     (forwarder \<times> downstream list \<times> (downstream \<times> pitRef) list) option" where
  "dataMatchLoop E now d ingress [] x = Some x"
| "dataMatchLoop E now d ingress (r # rs) x = do {
     x' \<leftarrow> onDataMatch E now d ingress r x;
     dataMatchLoop E now d ingress rs x' }"

fun unsatisfiedLoop :: "time \<Rightarrow> downstream list \<Rightarrow> (downstream \<times> pitRef) list \<Rightarrow> forwarder \<Rightarrow> forwarder option" where
  "unsatisfiedLoop now satisfied [] s = Some s"
| "unsatisfiedLoop now satisfied ((x, r) # us) s =
     (if x \<notin> set satisfied then unsatisfiedLoop now satisfied us s
      else do {
        let s = fw_modify r (deleteInRecord (fst x)) s;
        e \<leftarrow> fw_pit s r;
        unsatisfiedLoop now satisfied us
          (if pe_inRecords e = [] then fw_modify r (\<lambda>e. e\<lparr>pe_isSatisfied := True\<rparr>) (setExpiryTimer now r 0 s)
           else s) })"

definition dataDownstream :: "data \<Rightarrow> faceRef \<Rightarrow> nat \<Rightarrow> downstream \<Rightarrow> forwarder \<Rightarrow> forwarder" where
  "dataDownstream d ingress endpoint x s =
     (if f_id (fw_face s (fst x)) = f_id (fw_face s ingress) \<and> snd x = endpoint \<and>
         f_linkType (fw_face s (fst x)) \<noteq> LINK_TYPE_AD_HOC
      then s else fst (onOutgoingData d (fst x) s))"

definition onIncomingData :: "fw_env \<Rightarrow> time \<Rightarrow> data \<Rightarrow> faceRef \<Rightarrow> nat \<Rightarrow> forwarder \<Rightarrow> forwarder option" where
  "onIncomingData E now d ingress endpoint s = do {
     let d = d\<lparr>d_incomingFaceId := Some (f_id (fw_face s ingress))\<rparr>;
     let s = fw_count (\<lambda>c. c\<lparr>nInData := nInData c + 1\<rparr>) s;
     if f_scope (fw_face s ingress) = FACE_SCOPE_NON_LOCAL \<and> prefix LOCALHOST (d_name d) then Some s
     else
       let pitMatches = pit_findAllDataMatches (env_lib E) d (fw_nameTree s) in
       if pitMatches = [] then onDataUnsolicited E now d ingress s
       else do {
         cs \<leftarrow> cs_insert policyOps (env_lib E) now d False (fw_cs s);
         (s, satisfied, unsatisfied) \<leftarrow> dataMatchLoop E now d ingress pitMatches (s\<lparr>fw_cs := cs\<rparr>, [], []);
         s \<leftarrow> unsatisfiedLoop now satisfied unsatisfied s;
         Some (fold (dataDownstream d ingress endpoint) satisfied s) } }"

section \<open>Nack pipeline\<close>

definition onIncomingNack :: "fw_env \<Rightarrow> time \<Rightarrow> nack \<Rightarrow> faceRef \<Rightarrow> forwarder \<Rightarrow> forwarder option" where
  "onIncomingNack E now n ingress s =
     (let s = fw_count (\<lambda>c. c\<lparr>nInNacks := nInNacks c + 1\<rparr>) s in
      if f_linkType (fw_face s ingress) \<noteq> LINK_TYPE_POINT_TO_POINT then Some s
      else case pit_find (env_lib E) (n_interest n) (fw_nameTree s, fw_nPit s, fw_nextPit s) of
        None \<Rightarrow> Some s
      | Some r \<Rightarrow> do {
          e \<leftarrow> fw_pit s r;
          case getOutRecord ingress e of
            None \<Rightarrow> Some s
          | Some outRecord \<Rightarrow>
              if i_nonce (n_interest n) \<noteq> fr_lastNonce outRecord then Some s
              else do {
                let s = fw_modify r (updateOutRecord ingress (\<lambda>x. fst (setIncomingNack n x))) s;
                e \<leftarrow> fw_pit s r;
                let s = (if \<not> hasPendingOutRecords now e then setExpiryTimer now r 0 s else s);
                ops \<leftarrow> effectiveStrategy E r s;
                so_afterReceiveNack ops now n ingress r s } })"

section \<open>New next hops, faces and configuration\<close>

definition newNextHopSelector :: "name \<Rightarrow> name \<Rightarrow> nte \<Rightarrow> bool \<times> bool" where
  "newNextHopSelector pfx n e =
     (if nte_fib e \<noteq> None \<and> length pfx < length n then (False, False) else (nte_pits e \<noteq> [], True))"

fun newNextHopLoop :: "fw_env \<Rightarrow> time \<Rightarrow> nextHop \<Rightarrow> pitRef list \<Rightarrow> forwarder \<Rightarrow> forwarder option" where
  "newNextHopLoop E now nh [] s = Some s"
| "newNextHopLoop E now nh (r # rs) s = do {
     ops \<leftarrow> effectiveStrategy E r s;
     s \<leftarrow> so_afterNewNextHop ops now nh r s;
     newNextHopLoop E now nh rs s }"

definition onNewNextHop :: "fw_env \<Rightarrow> time \<Rightarrow> name \<Rightarrow> nextHop \<Rightarrow> forwarder \<Rightarrow> forwarder option" where
  "onNewNextHop E now pfx nh s = do {
     affectedEntries \<leftarrow> partialEnumerate pfx (newNextHopSelector pfx) (fw_nameTree s);
     newNextHopLoop E now nh
       (concat (map (\<lambda>n. map (\<lambda>e. (n, pe_id e)) (nt_pits n (fw_nameTree s))) affectedEntries)) s }"

text \<open>What the constructor connects to \<^verbatim>\<open>beforeRemove\<close> of the face table.\<close>

definition fw_removeFace :: "faceId \<Rightarrow> forwarder \<Rightarrow> forwarder option" where
  "fw_removeFace faceId s = do {
     (f, t) \<leftarrow> ft_remove faceId (fw_faceTable s);
     case cleanupOnFaceRemoval f (fw_nameTree s, fw_nFib s) of
       (nt, k) \<Rightarrow> Some (s\<lparr>fw_nameTree := nt, fw_nFib := k, fw_fit := (\<lambda>p. (fw_fit s p)(faceId := None)),
                         fw_faceTable := t\<rparr>) }"

text \<open>The number parser of the configuration file is a parameter.\<close>

fun parseForwarderConfig :: "(string \<Rightarrow> 8 word option) \<Rightarrow> (string \<times> string) list \<Rightarrow> 8 word \<Rightarrow> string + 8 word" where
  "parseForwarderConfig parseNumber [] defaultHopLimit = Inr defaultHopLimit"
| "parseForwarderConfig parseNumber ((key, v) # section) defaultHopLimit =
     (if key = ''default_hop_limit''
      then (case parseNumber v of
              None \<Rightarrow> Inl ''Invalid value''
            | Some h \<Rightarrow> parseForwarderConfig parseNumber section h)
      else Inl (''Unrecognized option forwarder.'' @ key))"

definition fw_processConfig ::
    "(string \<Rightarrow> 8 word option) \<Rightarrow> (string \<times> string) list \<Rightarrow> bool \<Rightarrow> forwarder \<Rightarrow> string + forwarder" where
  "fw_processConfig parseNumber section isDryRun s =
     (case parseForwarderConfig parseNumber section 0 of
        Inl msg \<Rightarrow> Inl msg
      | Inr h \<Rightarrow> Inr (if isDryRun then s else s\<lparr>fw_defaultHopLimit := h\<rparr>))"

section \<open>Construction\<close>

text \<open>\<^verbatim>\<open>Cs\<close> is made with room for 10 packets and the LRU policy.\<close>

definition newForwarder :: "fw_env \<Rightarrow> (faceRef \<Rightarrow> face) \<Rightarrow> faceRef \<Rightarrow> forwarder option" where
  "newForwarder E F csFace = do {
     t \<leftarrow> ft_addReserved csFace FACEID_CONTENT_STORE (newFaceTable F);
     policy \<leftarrow> policy_create ''lru'';
     cs \<leftarrow> newCs policyOps policy 10;
     dnl \<leftarrow> (case newDeadNonceList DNL_DEFAULT_LIFETIME of Inl _ \<Rightarrow> None | Inr d \<Rightarrow> Some d);
     sc \<leftarrow> sc_setDefaultStrategy (env_lib E) [(bestRoute_getStrategyName E, newBestRouteStrategy E)]
             (bestRoute_getStrategyName E) ([], 0);
     case sc of
       Inl _ \<Rightarrow> None
     | Inr (nt, k) \<Rightarrow> Some
         \<lparr>fw_defaultHopLimit = 0,
          fw_counters = \<lparr>nInInterests = 0, nOutInterests = 0, nInData = 0, nOutData = 0, nInNacks = 0, nOutNacks = 0,
            nSatisfiedInterests = 0, nUnsatisfiedInterests = 0, nUnsolicitedData = 0, nCsHits = 0, nCsMisses = 0\<rparr>,
          fw_faceTable = t, fw_unsolicitedDataPolicy = DropAll, fw_nameTree = nt, fw_nFib = 0, fw_nPit = 0,
          fw_nextPit = 0, fw_nMeas = 0, fw_nSc = k, fw_cs = cs, fw_dnl = dnl, fw_networkRegions = [], fw_csFace = csFace,
          fw_nInHopLimitZero = (\<lambda>_. 0), fw_nOutHopLimitZero = (\<lambda>_. 0), fw_fit = (\<lambda>_. Map.empty), fw_random = 0,
          fw_out = []\<rparr> }"

end
