(* ===== verification/FwInv.thy ===== *)
theory FwInv
  imports FwCore
begin

text \<open>
  The invariant of the forwarder's tables, the relation between the states before and after the
  actions of a strategy, and that each action of \<open>FwCore\<close> succeeds and respects both. Together they
  are the vocabulary in which the contract of a strategy is stated.
\<close>

section \<open>Computations that return\<close>

definition returns :: "'a option \<Rightarrow> ('a \<Rightarrow> bool) \<Rightarrow> bool" where
  "returns m P \<longleftrightarrow> (\<exists>x. m = Some x \<and> P x)"

lemma returns_Some [simp]: "returns (Some x) P \<longleftrightarrow> P x"
  by (simp add: returns_def)

lemma returns_None [simp]: "\<not> returns None P"
  by (simp add: returns_def)

lemma returns_bind [simp]: "returns (Option.bind m f) P \<longleftrightarrow> returns m (\<lambda>x. returns (f x) P)"
  by (cases m) auto

lemma returns_map [simp]: "returns (map_option f m) P \<longleftrightarrow> returns m (\<lambda>x. P (f x))"
  by (cases m) auto

lemma returns_mono: "returns m P \<Longrightarrow> (\<And>x. m = Some x \<Longrightarrow> P x \<Longrightarrow> Q x) \<Longrightarrow> returns m Q"
  by (auto simp: returns_def)

lemma returnsE: "returns m P \<Longrightarrow> (\<And>x. m = Some x \<Longrightarrow> P x \<Longrightarrow> thesis) \<Longrightarrow> thesis"
  by (auto simp: returns_def)

section \<open>Changing one entry\<close>

lemma updateFirst_cong: "find p xs = Some x \<Longrightarrow> f x = g x \<Longrightarrow> updateFirst p f xs = updateFirst p g xs"
  by (induction xs) (auto split: if_splits)

lemma find_updateFirst:
  assumes "\<And>x. find (\<lambda>y. g y = k) xs = Some x \<Longrightarrow> g (f x) = g x"
  shows "find (\<lambda>y. g y = k') (updateFirst (\<lambda>y. g y = k) f xs) =
    (if k' = k then map_option f (find (\<lambda>y. g y = k) xs) else find (\<lambda>y. g y = k') xs)"
  using assms by (induction xs) auto

lemma pit_modify_cong:
  assumes "nt_inv nt" and "pit_get r nt = Some e" and "f e = g e"
  shows "pit_modify r f nt = pit_modify r g nt"
  unfolding pit_modify_def nt_update_def
proof (rule map_cong [OF refl])
  fix x
  assume x: "x \<in> set nt"
  have "updateFirst (\<lambda>p. pe_id p = snd r) f (nte_pits (snd x)) = updateFirst (\<lambda>p. pe_id p = snd r) g (nte_pits (snd x))"
    if "fst x = fst r"
  proof (rule updateFirst_cong [where x = e])
    have "map_of nt (fst r) = Some (snd x)" using assms(1) x that by (cases x) (simp add: nt_inv_def)
    then show "find (\<lambda>p. pe_id p = snd r) (nte_pits (snd x)) = Some e"
      using assms(2) by (simp add: pit_get_def nt_pits_def nt_get_def)
  qed (rule assms(3))
  then show "(case x of (m, e) \<Rightarrow> (m, if m = fst r then e\<lparr>nte_pits := updateFirst (\<lambda>p. pe_id p = snd r) f (nte_pits e)\<rparr> else e)) =
      (case x of (m, e) \<Rightarrow> (m, if m = fst r then e\<lparr>nte_pits := updateFirst (\<lambda>p. pe_id p = snd r) g (nte_pits e)\<rparr> else e))"
    by (cases x) simp
qed

lemma pit_get_modify:
  assumes "\<And>e. pit_get r nt = Some e \<Longrightarrow> pe_id (f e) = pe_id e"
  shows "pit_get r' (pit_modify r f nt) = (if r' = r then map_option f (pit_get r nt) else pit_get r' nt)"
  using assms find_updateFirst [of pe_id "snd r" "nt_pits (fst r) nt" f "snd r'"]
  by (cases r; cases r') (auto simp: pit_get_def)

text \<open>Only what is done to the entry referred to matters.\<close>

lemma pit_modify_entry:
  assumes inv: "pit_inv L (nt, k, a)" and e: "pit_get r nt = Some e"
    and f: "pe_id (f e) = pe_id e" "pe_key (f e) = pe_key e" "pe_inv e \<Longrightarrow> pe_inv (f e)"
  shows "pit_inv L (pit_modify r f nt, k, a)"
proof -
  let ?g = "\<lambda>p. if p = e then f e else p"
  have "nt_inv nt" using inv by (simp add: pit_inv_def)
  from pit_modify_cong [OF this e, of f ?g] have "pit_modify r f nt = pit_modify r ?g nt" by simp
  moreover have "pit_inv L (pit_modify r ?g nt, k, a)"
    by (rule pit_modify_key [OF inv]) (use e f in auto)
  ultimately show ?thesis by simp
qed

section \<open>The invariant\<close>

definition valid_face :: "forwarder \<Rightarrow> faceRef \<Rightarrow> bool" where
  "valid_face s f \<longleftrightarrow> f_id (fw_face s f) \<noteq> INVALID_FACEID"

text \<open>
  An entry refers to faces of the face table only, its StrategyInfo items have the types their
  identifiers say, and a forwarding hint in its Interest has not reached the producer region.
\<close>

definition entry_ok :: "forwarder \<Rightarrow> pit_entry \<Rightarrow> bool" where
  "entry_ok s e \<longleftrightarrow> retx_ok (pe_info e) \<and> 0 \<le> pe_dataFreshnessPeriod e \<and>
     \<not> isInProducerRegion (fw_networkRegions s) (i_forwardingHint (pe_interest e)) \<and>
     list_all (\<lambda>r. valid_face s (fr_face r)) (pe_inRecords e) \<and>
     list_all (\<lambda>r. valid_face s (fr_face r) \<and> retx_ok (fr_info r)) (pe_outRecords e)"

definition fw_tables :: "ndn_lib \<Rightarrow> forwarder \<Rightarrow> bool" where
  "fw_tables L s \<longleftrightarrow>
     pit_inv L (fw_nameTree s, fw_nPit s, fw_nextPit s) \<and> fib_inv (fw_nameTree s, fw_nFib s) \<and>
     (\<forall>r e. fw_pit s r = Some e \<longrightarrow> entry_ok s e) \<and>
     (\<forall>p e. nt_fib p (fw_nameTree s) = Some e \<longrightarrow>
        fe_nextHops e \<noteq> [] \<and> list_all (\<lambda>nh. valid_face s (nh_face nh)) (fe_nextHops e))"

lemma fw_tables_entry:
  assumes "fw_tables L s" and "fw_pit s r = Some e"
  shows "entry_ok s e" and "pe_inv e" and "pe_id e = snd r" and "fst r = nteName L (pe_name e)"
proof -
  have wf: "pit_wf L (fw_nextPit s) (fw_nameTree s)" using assms(1) by (simp add: fw_tables_def pit_inv_def)
  have "e \<in> set (nt_pits (fst r) (fw_nameTree s)) \<and> pe_id e = snd r"
    using pit_get_Some_iff [OF wf, of "fst r" "snd r" e] assms(2) by simp
  then show "pe_inv e" "pe_id e = snd r" "fst r = nteName L (pe_name e)" using pit_wfD [OF wf] by blast+
  show "entry_ok s e" using assms by (simp add: fw_tables_def)
qed

section \<open>What a strategy may do\<close>

text \<open>
  A packet handed to a face is safe if the face is in the face table and the scope, the hop
  limit and the type of the link allow it. An Interest whose sender chose the next hop itself is
  exempt from scope control.
\<close>

fun safe_out :: "(faceRef \<Rightarrow> face) \<Rightarrow> packetOut \<Rightarrow> bool" where
  "safe_out F (SendInterest f i) \<longleftrightarrow> f_id (F f) \<noteq> INVALID_FACEID \<and>
     (f_scope (F f) = FACE_SCOPE_NON_LOCAL \<longrightarrow>
        i_hopLimit i \<noteq> Some 0 \<and> (prefix LOCALHOST (i_name i) \<longrightarrow> i_nextHopFaceId i \<noteq> None))"
| "safe_out F (SendData f d) \<longleftrightarrow> f_id (F f) \<noteq> INVALID_FACEID \<and>
     (f_scope (F f) = FACE_SCOPE_NON_LOCAL \<longrightarrow> \<not> prefix LOCALHOST (d_name d))"
| "safe_out F (SendNack f n) \<longleftrightarrow> f_id (F f) \<noteq> INVALID_FACEID \<and> f_linkType (F f) = LINK_TYPE_POINT_TO_POINT"

definition entry_step :: "pit_entry \<Rightarrow> pit_entry \<Rightarrow> bool" where
  "entry_step e e' \<longleftrightarrow> pe_id e' = pe_id e \<and> pe_interest e' = pe_interest e \<and>
     (pe_expiryTimer e \<noteq> None \<longrightarrow> pe_expiryTimer e' \<noteq> None)"

text \<open>The state outside of the PIT entries, the measurements and the counters does not change.\<close>

definition fw_frame :: "forwarder \<Rightarrow> forwarder \<Rightarrow> bool" where
  "fw_frame s s' \<longleftrightarrow> fw_faceTable s' = fw_faceTable s \<and> fw_networkRegions s' = fw_networkRegions s \<and>
     fw_cs s' = fw_cs s \<and> fw_dnl s' = fw_dnl s \<and> fw_nSc s' = fw_nSc s \<and> fw_csFace s' = fw_csFace s \<and>
     fw_unsolicitedDataPolicy s' = fw_unsolicitedDataPolicy s \<and> fw_defaultHopLimit s' = fw_defaultHopLimit s \<and>
     (\<forall>n. nt_sc n (fw_nameTree s') = nt_sc n (fw_nameTree s)) \<and>
     (\<forall>n. nt_fib n (fw_nameTree s') = nt_fib n (fw_nameTree s))"

definition fw_acts :: "forwarder \<Rightarrow> forwarder \<Rightarrow> bool" where
  "fw_acts s s' \<longleftrightarrow> fw_frame s s' \<and> (\<forall>r. rel_option entry_step (fw_pit s r) (fw_pit s' r)) \<and>
     (\<exists>os. fw_out s' = fw_out s @ os \<and> list_all (safe_out (fw_face s)) os)"

lemma entry_step_refl [simp]: "entry_step e e"
  by (simp add: entry_step_def)

lemma entry_step_trans: "entry_step a b \<Longrightarrow> entry_step b c \<Longrightarrow> entry_step a c"
  by (simp add: entry_step_def)

lemma rel_option_refl': "(\<And>x. R x x) \<Longrightarrow> rel_option R m m"
  by (cases m) auto

lemma fw_acts_refl [simp]: "fw_acts s s"
  by (simp add: fw_acts_def fw_frame_def rel_option_refl')

lemma fw_acts_trans:
  assumes ab: "fw_acts a b" and bc: "fw_acts b c"
  shows "fw_acts a c"
proof -
  have "rel_option entry_step (fw_pit a r) (fw_pit c r)" for r
  proof -
    have "rel_option entry_step (fw_pit a r) (fw_pit b r)" "rel_option entry_step (fw_pit b r) (fw_pit c r)"
      using assms by (simp_all add: fw_acts_def)
    then show ?thesis
      by (cases "fw_pit a r"; cases "fw_pit b r"; cases "fw_pit c r") (auto intro: entry_step_trans)
  qed
  moreover have "fw_faceTable b = fw_faceTable a" using ab by (simp add: fw_acts_def fw_frame_def)
  ultimately show ?thesis using assms by (auto simp: fw_acts_def fw_frame_def)
qed

lemma fw_acts_pit: "fw_acts s s' \<Longrightarrow> fw_pit s r = Some e \<Longrightarrow> \<exists>e'. fw_pit s' r = Some e' \<and> entry_step e e'"
  by (auto simp: fw_acts_def option_rel_Some1 dest: spec [of _ r])

lemma fw_acts_face:
  "fw_acts s s' \<Longrightarrow> fw_faceTable s' = fw_faceTable s"
  "fw_acts s s' \<Longrightarrow> valid_face s' f = valid_face s f"
  by (simp_all add: fw_acts_def fw_frame_def valid_face_def)

text \<open>The total-correctness judgement on an action: it returns, and respects table and relation.\<close>

definition acting :: "ndn_lib \<Rightarrow> forwarder \<Rightarrow> forwarder option \<Rightarrow> bool" where
  "acting L s m \<longleftrightarrow> returns m (\<lambda>s'. fw_tables L s' \<and> fw_acts s s')"

lemma acting_Some: "acting L s (Some s') \<longleftrightarrow> fw_tables L s' \<and> fw_acts s s'"
  by (simp add: acting_def)

lemma acting_refl: "fw_tables L s \<Longrightarrow> acting L s (Some s)"
  by (simp add: acting_def)

lemma acting_bind:
  assumes "acting L s m" and "\<And>s'. m = Some s' \<Longrightarrow> fw_tables L s' \<Longrightarrow> fw_acts s s' \<Longrightarrow> acting L s' (f s')"
  shows "acting L s (m \<bind> f)"
  using assms unfolding acting_def returns_def by (fastforce intro: fw_acts_trans)

lemma acting_trans: "fw_acts s s' \<Longrightarrow> acting L s' m \<Longrightarrow> acting L s m"
  by (auto simp: acting_def elim!: returns_mono intro: fw_acts_trans)

section \<open>Changing an entry of the forwarder\<close>

lemma fw_tables_cong [simp]:
  "fw_tables L (fw_emit x s) = fw_tables L s" "fw_tables L (fw_count c s) = fw_tables L s"
  "fw_tables L (s\<lparr>fw_nOutHopLimitZero := h\<rparr>) = fw_tables L s" "fw_tables L (s\<lparr>fw_random := g\<rparr>) = fw_tables L s"
  "fw_tables L (s\<lparr>fw_dnl := d\<rparr>) = fw_tables L s" "fw_tables L (s\<lparr>fw_cs := c'\<rparr>) = fw_tables L s"
  "fw_tables L (s\<lparr>fw_nInHopLimitZero := h\<rparr>) = fw_tables L s" "fw_tables L (s\<lparr>fw_fit := t\<rparr>) = fw_tables L s"
  by (simp_all add: fw_tables_def fw_emit_def fw_count_def entry_ok_def valid_face_def)

lemma fw_sel_cong [simp]:
  "fw_nameTree (fw_emit x s) = fw_nameTree s" "fw_faceTable (fw_emit x s) = fw_faceTable s"
  "fw_nameTree (fw_count c s) = fw_nameTree s" "fw_faceTable (fw_count c s) = fw_faceTable s"
  "fw_faceTable (fw_modify r f s) = fw_faceTable s" "fw_out (fw_modify r f s) = fw_out s"
  "fw_out (fw_emit x s) = fw_out s @ [x]" "fw_out (fw_count c s) = fw_out s"
  "fw_nSc (fw_emit x s) = fw_nSc s" "fw_nSc (fw_count c s) = fw_nSc s" "fw_nSc (fw_modify r f s) = fw_nSc s"
  "fw_dnl (fw_emit x s) = fw_dnl s" "fw_dnl (fw_count c s) = fw_dnl s" "fw_dnl (fw_modify r f s) = fw_dnl s"
  "fw_cs (fw_emit x s) = fw_cs s" "fw_cs (fw_count c s) = fw_cs s" "fw_cs (fw_modify r f s) = fw_cs s"
  "fw_networkRegions (fw_emit x s) = fw_networkRegions s" "fw_networkRegions (fw_count c s) = fw_networkRegions s"
  "fw_networkRegions (fw_modify r f s) = fw_networkRegions s"
  by (simp_all add: fw_emit_def fw_count_def fw_modify_def)

lemma fw_acts_emit [intro]: "safe_out (fw_face s) x \<Longrightarrow> fw_acts s (fw_emit x s)"
  by (auto simp: fw_acts_def fw_frame_def fw_emit_def rel_option_refl')

lemma fw_acts_count [simp, intro]: "fw_acts s (fw_count c s)" "fw_acts s (s\<lparr>fw_random := g\<rparr>)"
    "fw_acts s (s\<lparr>fw_nOutHopLimitZero := h\<rparr>)" "fw_acts s (s\<lparr>fw_nInHopLimitZero := h\<rparr>)" "fw_acts s (s\<lparr>fw_fit := t\<rparr>)"
  by (simp_all add: fw_acts_def fw_frame_def fw_count_def rel_option_refl')

text \<open>An admissible change of one entry.\<close>

definition entry_change :: "forwarder \<Rightarrow> (pit_entry \<Rightarrow> pit_entry) \<Rightarrow> pit_entry \<Rightarrow> bool" where
  "entry_change s f e \<longleftrightarrow> entry_step e (f e) \<and> (pe_inv e \<longrightarrow> pe_inv (f e)) \<and> (entry_ok s e \<longrightarrow> entry_ok s (f e))"

lemma fw_pit_modify:
  assumes "\<And>e. fw_pit s r = Some e \<Longrightarrow> pe_id (f e) = pe_id e"
  shows "fw_pit (fw_modify r f s) r' = (if r' = r then map_option f (fw_pit s r) else fw_pit s r')"
  using pit_get_modify [of r "fw_nameTree s" f r'] assms by (simp add: fw_modify_def)

lemma fw_modify_tables:
  assumes T: "fw_tables L s" and e: "fw_pit s r = Some e"
    and f: "pe_id (f e) = pe_id e" "pe_key (f e) = pe_key e" "pe_inv e \<Longrightarrow> pe_inv (f e)" "entry_ok s e \<Longrightarrow> entry_ok s (f e)"
  shows "fw_tables L (fw_modify r f s)"
    and "fw_pit (fw_modify r f s) r' = (if r' = r then Some (f e) else fw_pit s r')"
proof -
  show get: "fw_pit (fw_modify r f s) r' = (if r' = r then Some (f e) else fw_pit s r')" for r'
    using fw_pit_modify [where s = s and r = r and f = f and r' = r'] e f(1) by simp
  have old: "pit_inv L (fw_nameTree s, fw_nPit s, fw_nextPit s)" and fib: "fib_inv (fw_nameTree s, fw_nFib s)"
    using T by (simp_all add: fw_tables_def)
  have pit: "pit_inv L (pit_modify r f (fw_nameTree s), fw_nPit s, fw_nextPit s)"
    by (rule pit_modify_entry [OF old e]) (rule f)+
  moreover have "fib_inv (pit_modify r f (fw_nameTree s), fw_nFib s)"
    by (rule fib_inv_views [OF fib]) (use pit in \<open>simp_all add: pit_inv_def\<close>)
  moreover have "entry_ok (fw_modify r f s) x = entry_ok s x" "valid_face (fw_modify r f s) g = valid_face s g" for x g
    by (simp_all add: entry_ok_def valid_face_def)
  moreover have "entry_ok s x" if "fw_pit (fw_modify r f s) r' = Some x" for r' x
    using that get [of r'] T e f(4) by (auto simp: fw_tables_def split: if_splits)
  ultimately show "fw_tables L (fw_modify r f s)"
    using T by (simp add: fw_tables_def fw_modify_def)
qed

lemma fw_modify_acts:
  assumes T: "fw_tables L s" and e: "fw_pit s r = Some e" and f: "entry_change s f e"
  shows "fw_tables L (fw_modify r f s)" and "fw_acts s (fw_modify r f s)"
    and "fw_pit (fw_modify r f s) r' = (if r' = r then Some (f e) else fw_pit s r')"
proof -
  have step: "entry_step e (f e)" and id: "pe_id (f e) = pe_id e" and key: "pe_key (f e) = pe_key e"
    using f by (simp_all add: entry_change_def entry_step_def)
  show "fw_tables L (fw_modify r f s)"
    by (rule fw_modify_tables(1) [OF T e]) (use f id key in \<open>simp_all add: entry_change_def\<close>)
  show get: "fw_pit (fw_modify r f s) r' = (if r' = r then Some (f e) else fw_pit s r')" for r'
    by (rule fw_modify_tables(2) [OF T e]) (use f id key in \<open>simp_all add: entry_change_def\<close>)
  have "rel_option entry_step (fw_pit s r') (fw_pit (fw_modify r f s) r')" for r'
    using get [of r'] e step by (simp add: rel_option_refl')
  then show "fw_acts s (fw_modify r f s)"
    by (simp add: fw_acts_def fw_frame_def fw_modify_def)
qed

lemma fw_modify_acting:
  "fw_tables L s \<Longrightarrow> fw_pit s r = Some e \<Longrightarrow> entry_change s f e \<Longrightarrow> acting L s (Some (fw_modify r f s))"
  using fw_modify_acts by (simp add: acting_Some)

text \<open>The changes the code makes are admissible.\<close>

lemma entry_ok_flags [simp]:
  "entry_ok s (e\<lparr>pe_expiryTimer := t\<rparr>) = entry_ok s e" "entry_ok s (e\<lparr>pe_isSatisfied := b\<rparr>) = entry_ok s e"
  by (simp_all add: entry_ok_def)

lemma entry_change_timer [simp, intro]: "entry_change s (\<lambda>e. e\<lparr>pe_expiryTimer := Some t\<rparr>) e"
  by (simp add: entry_change_def entry_step_def nfd_inv)

lemma entry_change_satisfied [simp, intro]: "entry_change s (\<lambda>e. e\<lparr>pe_isSatisfied := b\<rparr>) e"
  by (simp add: entry_change_def entry_step_def nfd_inv)

lemma entry_change_info: "retx_ok h \<Longrightarrow> entry_change s (\<lambda>e. e\<lparr>pe_info := h\<rparr>) e"
  by (simp add: entry_change_def entry_step_def entry_ok_def nfd_inv)

lemma pe_timer_ops [simp]:
  "pe_expiryTimer (insertOrUpdateInRecord now f i e) = pe_expiryTimer e"
  "pe_expiryTimer (insertOrUpdateOutRecord now f i e) = pe_expiryTimer e"
  "pe_expiryTimer (deleteInRecord f e) = pe_expiryTimer e"
  "pe_expiryTimer (deleteOutRecord f e) = pe_expiryTimer e"
  "pe_expiryTimer (clearInRecords e) = pe_expiryTimer e"
  "pe_expiryTimer (updateOutRecord f g e) = pe_expiryTimer e"
  by (simp_all add: insertOrUpdateInRecord_def insertOrUpdateOutRecord_def deleteInRecord_def deleteOutRecord_def
      clearInRecords_def updateOutRecord_def Let_def)

lemma list_all_removeFirst: "list_all P xs \<Longrightarrow> list_all P (removeFirst q xs)"
  by (auto simp: list_all_iff dest: set_removeFirst_subset [THEN subsetD])

lemma list_all_updateFirst:
  "list_all P xs \<Longrightarrow> (\<And>x. q x \<Longrightarrow> P x \<Longrightarrow> P (f x)) \<Longrightarrow> list_all P (updateFirst q f xs)"
  by (induction xs) auto

lemma entry_change_deleteIn [simp, intro]: "entry_change s (deleteInRecord f) e"
  by (simp add: entry_change_def entry_step_def nfd_inv)
    (simp add: entry_ok_def deleteInRecord_def list_all_removeFirst)

lemma entry_change_deleteOut [simp, intro]: "entry_change s (deleteOutRecord f) e"
  by (simp add: entry_change_def entry_step_def nfd_inv)
    (simp add: entry_ok_def deleteOutRecord_def list_all_removeFirst)

lemma entry_change_clearIn [simp, intro]: "entry_change s clearInRecords e"
  by (simp add: entry_change_def entry_step_def nfd_inv) (simp add: entry_ok_def clearInRecords_def)

lemma entry_change_insertOut: "valid_face s f \<Longrightarrow> entry_change s (insertOrUpdateOutRecord now f i) e"
  by (simp add: entry_change_def entry_step_def nfd_inv)
    (auto simp: entry_ok_def insertOrUpdateOutRecord_def Let_def newOutRecord_def face_record_update_def
      intro!: list_all_updateFirst)

lemma entry_change_insertIn:
  "valid_face s f \<Longrightarrow> canMatch e i 0 \<Longrightarrow> entry_change s (insertOrUpdateInRecord now f i) e"
  by (simp add: entry_change_def entry_step_def nfd_inv)
    (auto simp: entry_ok_def insertOrUpdateInRecord_def Let_def newInRecord_def face_record_update_def
      in_record_update_def intro!: list_all_updateFirst)

lemma entry_change_updateOut:
  assumes "\<And>x. fr_face (g x) = fr_face x" and "\<And>x. retx_ok (fr_info x) \<Longrightarrow> retx_ok (fr_info (g x))"
  shows "entry_change s (updateOutRecord f g) e"
  using assms by (simp add: entry_change_def entry_step_def nfd_inv)
    (auto simp: entry_ok_def updateOutRecord_def intro!: list_all_updateFirst)

section \<open>Actions\<close>

lemma setExpiryTimer_acts:
  assumes "fw_tables L s" and "fw_pit s r = Some e"
  shows "fw_tables L (setExpiryTimer now r d s)" and "fw_acts s (setExpiryTimer now r d s)"
    and "fw_pit (setExpiryTimer now r d s) r = Some (e\<lparr>pe_expiryTimer := Some (now + ms (max d 0))\<rparr>)"
  using fw_modify_acts [OF assms entry_change_timer] by (simp_all add: setExpiryTimer_def)

lemma setExpiryTimer_out [simp]: "fw_out (setExpiryTimer now r d s) = fw_out s"
  by (simp add: setExpiryTimer_def)

lemma onOutgoingInterest_acts:
  assumes T: "fw_tables L s" and e: "fw_pit s r = Some e" and v: "valid_face s egress"
    and scope: "f_scope (fw_face s egress) = FACE_SCOPE_NON_LOCAL \<Longrightarrow> prefix LOCALHOST (i_name i) \<Longrightarrow> i_nextHopFaceId i \<noteq> None"
  shows "returns (onOutgoingInterest now i egress r s) (\<lambda>(s', sent). fw_tables L s' \<and> fw_acts s s' \<and>
    (sent \<longleftrightarrow> \<not> (i_hopLimit i = Some 0 \<and> f_scope (fw_face s egress) = FACE_SCOPE_NON_LOCAL)) \<and>
    fw_pit s' r = Some (if sent then insertOrUpdateOutRecord now egress i e else e) \<and>
    fw_out s' = fw_out s @ (if sent then [SendInterest egress i] else []))"
proof (cases "i_hopLimit i = Some 0 \<and> f_scope (fw_face s egress) = FACE_SCOPE_NON_LOCAL")
  case True
  then show ?thesis using T e by (simp add: onOutgoingInterest_def)
next
  case False
  let ?s = "fw_modify r (insertOrUpdateOutRecord now egress i) s"
  note m = fw_modify_acts [OF T e entry_change_insertOut [OF v, of now i]]
  have "safe_out (fw_face ?s) (SendInterest egress i)"
    using v scope False by (auto simp: valid_face_def)
  then have "fw_acts ?s (fw_emit (SendInterest egress i) ?s)" by blast
  then have "fw_acts s (fw_count c (fw_emit (SendInterest egress i) ?s))" for c
    using m(2) fw_acts_count(1) fw_acts_trans by blast
  then show ?thesis using False m e by (auto simp: onOutgoingInterest_def)
qed

lemma sendInterest_acts:
  assumes "fw_tables L s" and "fw_pit s r = Some e" and "valid_face s egress"
    and "f_scope (fw_face s egress) = FACE_SCOPE_NON_LOCAL \<Longrightarrow> prefix LOCALHOST (i_name i) \<Longrightarrow> i_nextHopFaceId i \<noteq> None"
  shows "returns (sendInterest now i egress r s) (\<lambda>(s', sent). fw_tables L s' \<and> fw_acts s s' \<and>
    (sent \<longleftrightarrow> \<not> (i_hopLimit i = Some 0 \<and> f_scope (fw_face s egress) = FACE_SCOPE_NON_LOCAL)) \<and>
    fw_pit s' r = Some (if sent then insertOrUpdateOutRecord now egress (i\<lparr>i_pitToken := None\<rparr>) e else e) \<and>
    fw_out s' = fw_out s @ (if sent then [SendInterest egress (i\<lparr>i_pitToken := None\<rparr>)] else []))"
proof -
  have "sendInterest now i egress r s = onOutgoingInterest now (i\<lparr>i_pitToken := None\<rparr>) egress r s"
    by (cases i) (simp add: sendInterest_def)
  then show ?thesis using onOutgoingInterest_acts [OF assms(1-3), of "i\<lparr>i_pitToken := None\<rparr>" now] assms(4) by simp
qed

lemma onOutgoingData_acts:
  "fw_tables L (fst (onOutgoingData d egress s)) = fw_tables L s"
  "fw_acts s (fst (onOutgoingData d egress s))"
  "fw_nameTree (fst (onOutgoingData d egress s)) = fw_nameTree s"
  "fw_out (fst (onOutgoingData d egress s)) = fw_out s @
     (if f_id (fw_face s egress) = INVALID_FACEID \<or>
         f_scope (fw_face s egress) = FACE_SCOPE_NON_LOCAL \<and> prefix LOCALHOST (d_name d)
      then [] else [SendData egress d])"
proof -
  show "fw_acts s (fst (onOutgoingData d egress s))"
  proof (cases "safe_out (fw_face s) (SendData egress d)")
    case True
    then have "fw_acts s (fw_count c (fw_emit (SendData egress d) s))" for c
      using fw_acts_emit fw_acts_count(1) fw_acts_trans by blast
    then show ?thesis by (simp add: onOutgoingData_def)
  qed (auto simp: onOutgoingData_def)
qed (auto simp: onOutgoingData_def)

lemma in_record_interest: "pe_inv e \<Longrightarrow> getInRecord f e = Some x \<Longrightarrow> \<exists>i. ir_interest x = Some i \<and> canMatch e i 0"
  by (auto simp: pe_inv_def getInRecord_def list_all_iff in_record_ok_def dest!: find_Some_iff2 split: option.splits)

lemma onOutgoingNack_acts:
  assumes T: "fw_tables L s" and e: "fw_pit s r = Some e"
  shows "returns (onOutgoingNack reason egress r s) (\<lambda>(s', sent). fw_tables L s' \<and> fw_acts s s' \<and>
    fw_pit s' r = Some (if sent then deleteInRecord egress e else e) \<and>
    (if valid_face s egress \<and> getInRecord egress e \<noteq> None \<and> f_linkType (fw_face s egress) = LINK_TYPE_POINT_TO_POINT
     then sent \<and> (\<exists>i. map_option ir_interest (getInRecord egress e) = Some (Some i) \<and>
        fw_out s' = fw_out s @ [SendNack egress \<lparr>n_interest = i, n_reason = reason\<rparr>])
     else \<not> sent \<and> s' = s))"
proof (cases "valid_face s egress \<and> getInRecord egress e \<noteq> None \<and> f_linkType (fw_face s egress) = LINK_TYPE_POINT_TO_POINT")
  case True
  then obtain x where x: "getInRecord egress e = Some x" by auto
  then obtain i where i: "ir_interest x = Some i"
    using in_record_interest [OF fw_tables_entry(2) [OF T e]] by blast
  let ?s = "fw_modify r (deleteInRecord egress) s" and ?n = "SendNack egress \<lparr>n_interest = i, n_reason = reason\<rparr>"
  note m = fw_modify_acts [OF T e entry_change_deleteIn [where f = egress]]
  have "safe_out (fw_face ?s) ?n" using True by (simp add: valid_face_def)
  then have "fw_acts ?s (fw_emit ?n ?s)" by blast
  then have "fw_acts s (fw_count c (fw_emit ?n ?s))" for c
    using m(2) fw_acts_count(1) fw_acts_trans by blast
  then show ?thesis using True x i e m by (simp add: onOutgoingNack_def valid_face_def)
next
  case False
  then show ?thesis using T e by (auto simp: onOutgoingNack_def valid_face_def split: option.splits)
qed

lemma sendNackEach_acting:
  "fw_tables L s \<Longrightarrow> fw_pit s r = Some e \<Longrightarrow> acting L s (sendNackEach reason r fs s)"
proof (induction fs arbitrary: s e)
  case (Cons f fs)
  from onOutgoingNack_acts [OF Cons.prems, of reason f] obtain s' b where
    s': "onOutgoingNack reason f r s = Some (s', b)" "fw_tables L s'" "fw_acts s s'" "\<exists>e'. fw_pit s' r = Some e'"
    by (auto elim!: returnsE)
  then have "acting L s' (sendNackEach reason r fs s')" using Cons.IH by blast
  then show ?case using s' by (simp add: sendNack_def acting_trans)
qed (simp add: acting_refl)

lemma sendNacks_acting: "fw_tables L s \<Longrightarrow> fw_pit s r = Some e \<Longrightarrow> acting L s (sendNacks reason r ex s)"
  using sendNackEach_acting by (simp add: sendNacks_def)

lemma processNack_acting:
  assumes T: "fw_tables L s" and e: "fw_pit s r = Some e"
  shows "acting L s (processNack E r s)"
proof -
  obtain n f reason where k: "nackSummary E (pe_outRecords e) = (n, f, reason)" by (cases "nackSummary E (pe_outRecords e)")
  have "let (n, f, _) = foldl (\<lambda>(n, lastFace, reason) x.
        case or_incomingNack x of
          None \<Rightarrow> (Suc n, Some (fr_face x), reason)
        | Some nk \<Rightarrow> (n, lastFace, if env_isLessSevere E nk reason then nk else reason)) (n0, f0, r0) rs
    in n \<noteq> 0 \<longrightarrow> f \<noteq> None" if "n0 \<noteq> 0 \<longrightarrow> f0 \<noteq> None" for n0 :: nat and f0 r0 and rs :: "out_record list"
    using that by (induction rs arbitrary: n0 f0 r0) (auto split: option.split)
  then have f: "n \<noteq> 0 \<Longrightarrow> f \<noteq> None" using k unfolding nackSummary_def by (fastforce split: prod.splits)
  have "acting L s (map_option fst (sendNack reason g r s))" for g
    using onOutgoingNack_acts [OF T e, of reason g] unfolding acting_def sendNack_def
    by (auto elim!: returns_mono)
  then show ?thesis
    using f T e sendNacks_acting [OF T e] by (auto simp: processNack_def k acting_refl)
qed

lemma sendData_acting:
  assumes T: "fw_tables (env_lib E) s" and e: "fw_pit s r = Some e" and m: "matchesData (env_lib E) (pe_interest e) d"
  shows "acting (env_lib E) s (sendData E now d egress r s)"
proof -
  let ?s = "fw_modify r (deleteInRecord egress) s"
  note m' = fw_modify_acts [OF T e entry_change_deleteIn [where f = egress]]
  obtain t where t: "(case getInRecord egress e of None \<Rightarrow> Some None
      | Some x \<Rightarrow> map_option i_pitToken (ir_interest x)) = Some t"
    using in_record_interest [OF fw_tables_entry(2) [OF T e]] by (fastforce split: option.splits)
  have a: "acting (env_lib E) s (Some (fst (onOutgoingData d' egress ?s)))" for d'
    using onOutgoingData_acts(1) [of "env_lib E" d' egress ?s] onOutgoingData_acts(2) [of ?s d' egress] m'(1,2) fw_acts_trans
    unfolding acting_Some by blast
  let ?s2 = "fst (onOutgoingData d egress ?s)"
  have s2: "fw_tables (env_lib E) ?s2" "fw_pit ?s2 r = Some (deleteInRecord egress e)"
    using m' by (simp_all add: onOutgoingData_acts)
  note s3 = setExpiryTimer_acts [OF s2, of now 0]
  have "acting (env_lib E) s (Some (fw_modify r (\<lambda>e. e\<lparr>pe_isSatisfied := True\<rparr>) (setExpiryTimer now r 0 ?s2)))"
    using acting_trans [OF _ fw_modify_acting [OF s3(1,3) entry_change_satisfied]] a [of d] s3(2) fw_acts_trans
    by (metis acting_Some)
  then show ?thesis using e m t a by (auto simp: sendData_def Let_def)
qed

section \<open>FIB lookup\<close>

lemma fib_entryAt_cases: "fib_entryAt x nt = s_emptyEntry \<or> (\<exists>p. nt_fib p nt = Some (fib_entryAt x nt))"
  by (auto simp: fib_entryAt_def split: option.splits)

lemma fib_lookup_hops:
  assumes "fw_tables L s"
  shows "list_all (\<lambda>nh. valid_face s (nh_face nh)) (fe_nextHops (fib_entryAt x (fw_nameTree s)))"
    and "\<not> fe_hasNextHops (fib_entryAt x (fw_nameTree s)) \<Longrightarrow> fe_prefix (fib_entryAt x (fw_nameTree s)) = []"
  using fib_entryAt_cases [of x "fw_nameTree s"] assms
  by (auto simp: fw_tables_def s_emptyEntry_def newFibEntry_def fe_hasNextHops_def)

lemma lookupDelegations_returns:
  assumes T: "fw_tables L s" and "fh \<noteq> [] \<or> (\<exists>x. found = Some x \<and> fe_prefix x = [] \<and> fe_nextHops x = [])"
  shows "returns (lookupDelegations fh (fw_nameTree s) found)
    (\<lambda>e. list_all (\<lambda>nh. valid_face s (nh_face nh)) (fe_nextHops e))"
  using assms(2)
proof (induction fh arbitrary: found)
  case (Cons d fh)
  show ?case
    using Cons.IH fib_lookup_hops [OF T] by (auto simp: fib_findLongestPrefixMatch_def fe_hasNextHops_def Let_def)
qed auto

lemma isInProducerRegion_Nil [simp]: "\<not> isInProducerRegion regions []"
  by (simp add: isInProducerRegion_def list_ex_iff)

lemma lookupFib_returns:
  assumes T: "fw_tables L s" and e: "fw_pit s r = Some e"
  shows "returns (lookupFib r s) (\<lambda>x. list_all (\<lambda>nh. valid_face s (nh_face nh)) (fe_nextHops x))"
  using fw_tables_entry(1) [OF T e] lookupDelegations_returns [OF T, of "i_forwardingHint (pe_interest e)" None]
    fib_lookup_hops(1) [OF T] e
  by (auto simp: lookupFib_def entry_ok_def fib_findLongestPrefixMatch_pit_def Let_def)

end
