(* ===== verification/StrategyLaws.thy ===== *)
theory StrategyLaws
  imports Strategies FwInv
begin

text \<open>
  The contract between the forwarder and its strategies: whatever a strategy does in a trigger,
  the trigger returns, the tables stay well-formed, the entry it was called for is still there,
  and every packet it sends is safe. The contract is proved for each strategy here, and the
  pipelines are verified against the contract alone.
\<close>

section \<open>The packet library and the environment\<close>

text \<open>
  Documented behaviour of what the environment supplies: whether a packet satisfies an Interest
  depends on the selectors of the Interest and not on tags, an encoded name has a length a
  \<^verbatim>\<open>size_t\<close> can hold, a shuffle permutes, version components have their own type, and \<^verbatim>\<open>NONE\<close> is
  the most severe Nack reason.
\<close>

locale fw_env_laws = cs_lib_laws "env_lib E" for E :: fw_env +
  assumes matches_key: "i_key i = i_key i' \<Longrightarrow> matchesData (env_lib E) i d = matchesData (env_lib E) i' d"
    and matches_tags: "matchesData (env_lib E) i (d\<lparr>d_incomingFaceId := a, d_pitToken := b\<rparr>) = matchesData (env_lib E) i d"
    and wire_length: "length (env_wireEncode E n) < 2 ^ 64"
    and shuffle_mset: "mset (fst (env_shuffle E g nhs)) = mset nhs"
    and isVersion_type: "isVersion (env_lib E) c \<longleftrightarrow> tlvType c = 54"
    and appendVersion_type: "tlvType (env_appendVersion E v) = 54"
    and severity_none: "env_isLessSevere E x NONE \<longleftrightarrow> x \<noteq> NONE"
    and severity_trans: "env_isLessSevere E x y \<Longrightarrow> env_isLessSevere E y z \<Longrightarrow> env_isLessSevere E x z"
    and severity_total: "x \<noteq> y \<Longrightarrow> env_isLessSevere E x y \<or> env_isLessSevere E y x"

text \<open>An environment: the canonical packet library, an encoding, and the identity shuffle.\<close>

fun severity :: "nackReason \<Rightarrow> nat" where
  "severity CONGESTION = 50" | "severity DUPLICATE = 100" | "severity NO_ROUTE = 150" | "severity NONE = 200"

definition canonicalEnv :: fw_env where
  "canonicalEnv = \<lparr>env_lib = canonicalLib, env_wireEncode = (\<lambda>n. [of_nat (length n)]),
     env_isLessSevere = (\<lambda>x y. severity x < severity y), env_appendVersion = (\<lambda>v. Component 54 [char_of v]),
     env_getEstimatedRto = (\<lambda>_. ms 1000), env_shuffle = (\<lambda>g nhs. (nhs, g))\<rparr>"

interpretation canonical_env: fw_env_laws canonicalEnv
proof -
  have *: "env_lib canonicalEnv = canonicalLib" by (simp add: canonicalEnv_def)
  show "fw_env_laws canonicalEnv"
  proof (intro fw_env_laws.intro fw_env_laws_axioms.intro)
    show "cs_lib_laws (env_lib canonicalEnv)" using canonical_cs.cs_lib_laws_axioms * by simp
    show "i_key i = i_key i' \<Longrightarrow> matchesData (env_lib canonicalEnv) i d = matchesData (env_lib canonicalEnv) i' d" for i i' d
      by (simp add: canonicalEnv_def canonicalLib_def i_key_def)
    show "matchesData (env_lib canonicalEnv) i (d\<lparr>d_incomingFaceId := a, d_pitToken := b\<rparr>) = matchesData (env_lib canonicalEnv) i d"
      for i d a b by (simp add: canonicalEnv_def canonicalLib_def d_fullName_def)
    show "isVersion (env_lib canonicalEnv) c \<longleftrightarrow> tlvType c = 54" for c by (simp add: canonicalEnv_def canonicalLib_def)
    show "x \<noteq> y \<Longrightarrow> env_isLessSevere canonicalEnv x y \<or> env_isLessSevere canonicalEnv y x" for x y
      by (cases x; cases y) (simp_all add: canonicalEnv_def)
    show "env_isLessSevere canonicalEnv x NONE \<longleftrightarrow> x \<noteq> NONE" for x
      by (cases x) (simp_all add: canonicalEnv_def)
  qed (auto simp: canonicalEnv_def)
qed

section \<open>The contract\<close>

definition sameRecords :: "forwarder \<Rightarrow> forwarder \<Rightarrow> bool" where
  "sameRecords s s' \<longleftrightarrow> (\<forall>r. rel_option (\<lambda>e e'. \<exists>h. e' = e\<lparr>pe_info := h\<rparr>) (fw_pit s r) (fw_pit s' r))"

locale strategy_contract =
  fixes L :: ndn_lib and ops :: strategy_ops
  assumes afterReceiveInterest_ok: "fw_tables L s \<Longrightarrow> fw_pit s r = Some e \<Longrightarrow> valid_face s f \<Longrightarrow>
      acting L s (so_afterReceiveInterest ops now i f r s)"
    and beforeSatisfyInterest_ok: "fw_tables L s \<Longrightarrow> fw_pit s r = Some e \<Longrightarrow>
      returns (so_beforeSatisfyInterest ops now d f r s)
        (\<lambda>s'. fw_tables L s' \<and> fw_acts s s' \<and> fw_out s' = fw_out s \<and> sameRecords s s')"
    and afterReceiveNack_ok: "fw_tables L s \<Longrightarrow> fw_pit s r = Some e \<Longrightarrow>
      acting L s (so_afterReceiveNack ops now n f r s)"
    and afterNewNextHop_ok: "fw_tables L s \<Longrightarrow> fw_pit s r = Some e \<Longrightarrow> valid_face s (nh_face nh) \<Longrightarrow>
      acting L s (so_afterNewNextHop ops now nh r s)"

lemma sameRecords_refl [simp]: "sameRecords s s"
proof -
  have "\<exists>h. e = e\<lparr>pe_info := h\<rparr>" for e :: pit_entry by (rule exI [of _ "pe_info e"]) simp
  then show ?thesis by (simp add: sameRecords_def rel_option_refl')
qed

section \<open>Sending to a next hop\<close>

lemma violates_local:
  "\<not> wouldViolateScope F i G \<Longrightarrow> f_scope G = FACE_SCOPE_NON_LOCAL \<Longrightarrow> \<not> prefix LOCALHOST (i_name i)"
  by (auto simp: wouldViolateScope_def split: if_splits)

lemma sendTo_acting:
  assumes "fw_tables L s" and "fw_pit s r = Some e" and "valid_face s (nh_face nh)"
    and "\<not> wouldViolateScope G i (fw_face s (nh_face nh))"
  shows "acting L s (sendTo now i nh r s)"
proof -
  have "returns (sendInterest now i (nh_face nh) r s) (\<lambda>(s', sent). fw_tables L s' \<and> fw_acts s s')"
    by (rule returns_mono [OF sendInterest_acts [OF assms(1-3), of i now]]) (use violates_local [OF assms(4)] in auto)
  then show ?thesis by (auto simp: sendTo_def acting_def split_def elim!: returns_mono)
qed

lemma sendNoRoute_acting:
  assumes T: "fw_tables L s" and e: "fw_pit s r = Some e"
  shows "acting L s (sendNoRoute now f r s)"
proof -
  from onOutgoingNack_acts [OF T e, of NO_ROUTE f] obtain s' b e' where
    s': "onOutgoingNack NO_ROUTE f r s = Some (s', b)" "fw_tables L s'" "fw_acts s s'" "fw_pit s' r = Some e'"
    by (auto elim!: returnsE)
  note t = setExpiryTimer_acts [OF s'(2,4), of now 0]
  then show ?thesis
    using s' fw_acts_trans [OF s'(3) t(2)] by (simp add: sendNoRoute_def sendNack_def rejectPendingInterest_def acting_Some)
qed

lemma fw_write_acts:
  assumes "fw_tables L s" and "fw_pit s r = Some e" and "entry_change s (\<lambda>_. e') e"
  shows "fw_tables L (fw_write r e' s)" "fw_acts s (fw_write r e' s)" "fw_pit (fw_write r e' s) r = Some e'"
  using fw_modify_acts [OF assms] by (simp_all add: fw_write_def)

lemma fw_write_sel [simp]: "fw_faceTable (fw_write r e s) = fw_faceTable s" "fw_out (fw_write r e s) = fw_out s"
  "valid_face (fw_write r e s) f = valid_face s f"
  by (simp_all add: fw_write_def valid_face_def)

section \<open>Best route\<close>

lemma find_hop_valid:
  assumes "find P hops = Some nh" and "list_all (\<lambda>nh. valid_face s (nh_face nh)) hops"
  shows "P nh" and "valid_face s (nh_face nh)"
  using find_Some_iff2 [OF assms(1)] assms(2) by (auto simp: list_all_iff)

text \<open>Where no eligible next hop is unused, each of them has an out-record.\<close>

lemma findEarliest_returns:
  assumes "find (\<lambda>nh. isNextHopEligible F f i nh e True now) hops = None"
  shows "\<exists>x. findEligibleNextHopWithEarliestOutRecord F f i hops e = Some x \<and>
    (x = None \<or> (\<exists>nh \<in> set hops. x = Some nh \<and> nextHopEligible F f i e nh))"
proof -
  have "getOutRecord (nh_face nh) e \<noteq> None" if "nh \<in> set hops" "nextHopEligible F f i e nh" for nh
    using assms that eligible_iff [of F f i nh e True now]
    by (cases "getOutRecord (nh_face nh) e") (auto simp: find_None_iff)
  from earliestLoop_returns [of hops F f i e None TIME_MAX, OF this] show ?thesis
    by (auto simp: findEligibleNextHopWithEarliestOutRecord_def)
qed

lemma bestRoute_afterReceiveInterest_acting:
  assumes T: "fw_tables L s" and e: "fw_pit s r = Some e"
  shows "acting L s (bestRoute_afterReceiveInterest now i f r s)"
proof -
  let ?rx = "retxOf BR_RETX_SUPPRESSION_INITIAL BR_RETX_SUPPRESSION_MAX"
  have "retx_ok (pe_info e)" using fw_tables_entry(1) [OF T e] by (simp add: entry_ok_def)
  from decidePerPitEntry_spec [OF this, of ?rx now] obtain h x where
    d: "decidePerPitEntry ?rx now e = Some (e\<lparr>pe_info := h\<rparr>, x)" "retx_ok h" by blast
  let ?e = "e\<lparr>pe_info := h\<rparr>"
  let ?s = "fw_write r ?e s"
  have ch: "entry_change s (\<lambda>_. ?e) e" using entry_change_info [OF d(2), of s e] by (simp add: entry_change_def)
  note w = fw_write_acts [OF T e ch]
  obtain fe where fe: "lookupFib r ?s = Some fe" "list_all (\<lambda>nh. valid_face ?s (nh_face nh)) (fe_nextHops fe)"
    using lookupFib_returns [OF w(1,3)] by (auto elim: returnsE)
  have send: "acting L s (sendTo now i nh r ?s)"
    if "nextHopEligible (fw_face ?s) f i ?e nh" "valid_face ?s (nh_face nh)" for nh
    by (rule acting_trans [OF w(2) sendTo_acting [OF w(1,3) that(2) eligible_scope [OF that(1)]]])
  have new: "acting L s (case find (nextHopEligible (fw_face ?s) f i ?e) (fe_nextHops fe) of
      None \<Rightarrow> sendNoRoute now f r ?s | Some nh \<Rightarrow> sendTo now i nh r ?s)"
  proof (cases "find (nextHopEligible (fw_face ?s) f i ?e) (fe_nextHops fe)")
    case None
    then show ?thesis using acting_trans [OF w(2) sendNoRoute_acting [OF w(1,3)]] by simp
  next
    case (Some nh)
    then show ?thesis using send [OF find_hop_valid [OF Some fe(2)]] by simp
  qed
  have retx: "acting L s (case find (\<lambda>nh. isNextHopEligible (fw_face ?s) f i nh ?e True now) (fe_nextHops fe) of
        Some nh \<Rightarrow> sendTo now i nh r ?s
      | None \<Rightarrow> findEligibleNextHopWithEarliestOutRecord (fw_face ?s) f i (fe_nextHops fe) ?e \<bind>
          (\<lambda>it. case it of None \<Rightarrow> Some ?s | Some nh \<Rightarrow> sendTo now i nh r ?s))"
  proof (cases "find (\<lambda>nh. isNextHopEligible (fw_face ?s) f i nh ?e True now) (fe_nextHops fe)")
    case None
    from findEarliest_returns [OF None] None show ?thesis
      using send fe(2) acting_trans [OF w(2) acting_refl [OF w(1)]] by (auto simp: list_all_iff)
  next
    case (Some nh)
    have "nextHopEligible (fw_face ?s) f i ?e nh"
      using find_hop_valid(1) [OF Some fe(2)] by (subst (asm) eligible_iff) blast
    then show ?thesis using Some send find_hop_valid(2) [OF Some fe(2)] by simp
  qed
  show ?thesis
    using new retx acting_trans [OF w(2) acting_refl [OF w(1)]]
    by (cases x) (simp_all add: bestRoute_afterReceiveInterest_def Let_def e d fe)
qed

interpretation best_route: strategy_contract "env_lib E" "bestRouteOps E" for E
  by unfold_locales (simp_all add: bestRouteOps_def bestRoute_afterReceiveInterest_acting strategy_beforeSatisfyInterest_def
      bestRoute_afterReceiveNack_def processNack_acting strategy_afterNewNextHop_def acting_refl)

section \<open>Multicast\<close>

lemma decidePerUpstream_spec:
  assumes ok: "\<And>x. getOutRecord f e = Some x \<Longrightarrow> retx_ok (fr_info x)"
  shows "\<exists>e' res. decidePerUpstream rx now f e = Some (e', res) \<and>
    (e' = e \<and> getOutRecord f e = None \<or> (\<exists>h. retx_ok h \<and> e' = updateOutRecord f (\<lambda>x. x\<lparr>fr_info := h\<rparr>) e)) \<and>
    (case res of
       RETX_NEW \<Rightarrow> getOutRecord f e = None
     | RETX_FORWARD \<Rightarrow> (\<exists>x. getOutRecord f e = Some x \<and> retx_interval rx (fr_info x) \<le> now - fr_lastRenewed x)
     | RETX_SUPPRESS \<Rightarrow> (\<exists>x. getOutRecord f e = Some x \<and> now - fr_lastRenewed x < retx_interval rx (fr_info x)))"
proof (cases "getOutRecord f e")
  case (Some x)
  obtain h where h: "retx_pitInfo rx (fr_info x) = Some (h, retx_interval rx (fr_info x))"
    "map_of h = (map_of (fr_info x))(retxPitInfoTypeId \<mapsto> RetxPitInfo (retx_interval rx (fr_info x)))"
    using retx_pitInfo_spec [OF ok [OF Some]] .
  have "retx_ok h" by (rule retx_stored(1) [OF h(2)])
  then show ?thesis using Some h(1)
    by (cases "now - fr_lastRenewed x < retx_interval rx (fr_info x)") (auto simp: decidePerUpstream_def)
qed (simp add: decidePerUpstream_def)

lemma out_record_retx_ok:
  assumes "fw_tables L s" and "fw_pit s r = Some e" and "getOutRecord f e = Some x"
  shows "retx_ok (fr_info x)"
  using fw_tables_entry(1) [OF assms(1,2)] find_Some_iff2 [OF assms(3) [unfolded getOutRecord_def]]
  by (auto simp: entry_ok_def list_all_iff)

lemma multicast_send_acting:
  assumes T: "fw_tables L s" and e: "fw_pit s r = Some e" and v: "valid_face s (nh_face nh)"
    and sc: "\<not> wouldViolateScope G i (fw_face s (nh_face nh))"
  shows "acting L s (multicast_send now i nh res r s)"
proof -
  let ?f = "nh_face nh"
  from sendInterest_acts [OF T e v, of i now] violates_local [OF sc] obtain s1 sent where
    s1: "sendInterest now i ?f r s = Some (s1, sent)" "fw_tables L s1" "fw_acts s s1"
    "fw_pit s1 r = Some (if sent then insertOrUpdateOutRecord now ?f (i\<lparr>i_pitToken := None\<rparr>) e else e)"
    by (auto elim!: returnsE)
  show ?thesis
  proof (cases "sent \<and> res = RETX_FORWARD")
    case True
    let ?e = "insertOrUpdateOutRecord now ?f (i\<lparr>i_pitToken := None\<rparr>) e"
    have e1: "fw_pit s1 r = Some ?e" using s1(4) True by simp
    obtain x where x: "getOutRecord ?f ?e = Some x" by (simp add: getOutRecord_insertOrUpdate)
    obtain h where h: "retx_pitInfo multicastRetx (fr_info x) = Some (h, retx_interval multicastRetx (fr_info x))"
      "map_of h = (map_of (fr_info x))(retxPitInfoTypeId \<mapsto> RetxPitInfo (retx_interval multicastRetx (fr_info x)))"
      using retx_pitInfo_spec [OF out_record_retx_ok [OF s1(2) e1 x]] .
    let ?h = "setStrategyInfo retxPitInfoTypeId
      (RetxPitInfo (retx_nextInterval multicastRetx (retx_interval multicastRetx (fr_info x)))) h"
    have "updateOutRecord ?f (\<lambda>_. x\<lparr>fr_info := ?h\<rparr>) ?e = updateOutRecord ?f (\<lambda>x. x\<lparr>fr_info := ?h\<rparr>) ?e"
      using updateFirst_cong [OF x [unfolded getOutRecord_def], of "\<lambda>_. x\<lparr>fr_info := ?h\<rparr>" "\<lambda>x. x\<lparr>fr_info := ?h\<rparr>"]
      by (simp add: updateOutRecord_def)
    moreover have "entry_change s1 (updateOutRecord ?f (\<lambda>x. x\<lparr>fr_info := ?h\<rparr>)) ?e"
      using retx_stored(3) [OF h(2)] by (intro entry_change_updateOut) simp_all
    ultimately have "entry_change s1 (updateOutRecord ?f (\<lambda>_. x\<lparr>fr_info := ?h\<rparr>)) ?e" by (simp add: entry_change_def)
    from acting_trans [OF s1(3) fw_modify_acting [OF s1(2) e1 this]]
    show ?thesis using True s1(1) e1 x h(1) by (simp add: multicast_send_def incrementIntervalForOutRecord_def)
  next
    case False
    then show ?thesis using s1 by (auto simp: multicast_send_def acting_Some)
  qed
qed

lemma multicast_loop_acting:
  "fw_tables L s \<Longrightarrow> fw_pit s r = Some e \<Longrightarrow> list_all (\<lambda>nh. valid_face s (nh_face nh)) nhs \<Longrightarrow>
   acting L s (multicast_loop now i f r nhs s)"
proof (induction nhs arbitrary: s e)
  case (Cons nh nhs)
  note T = Cons.prems(1) and e = Cons.prems(2)
  obtain e' res where d: "decidePerUpstream multicastRetx now (nh_face nh) e = Some (e', res)"
    "e' = e \<or> (\<exists>h. retx_ok h \<and> e' = updateOutRecord (nh_face nh) (\<lambda>x. x\<lparr>fr_info := h\<rparr>) e)"
    using decidePerUpstream_spec [where f = "nh_face nh" and e = e and rx = multicastRetx and now = now]
      out_record_retx_ok [OF T e] by blast
  have "entry_change s (\<lambda>_. e') e"
    using d(2) entry_change_updateOut [of "\<lambda>x. x\<lparr>fr_info := _\<rparr>" s "nh_face nh" e] by (auto simp: entry_change_def)
  note w = fw_write_acts [OF T e this]
  let ?s = "fw_write r e' s"
  let ?m = "if res = RETX_SUPPRESS \<or> \<not> nextHopEligible (fw_face ?s) f i e' nh then Some ?s
            else multicast_send now i nh res r ?s"
  have v: "valid_face ?s (nh_face nh)" using Cons.prems(3) by simp
  have "acting L ?s ?m"
    using acting_refl [OF w(1)] multicast_send_acting [OF w(1,3) v, of "fw_face ?s f" i now res]
      eligible_scope [of "fw_face ?s" f i nh e' False TIME_MIN] by simp
  then have "acting L ?s (?m \<bind> multicast_loop now i f r nhs)"
  proof (rule acting_bind)
    fix s'
    assume s': "fw_tables L s'" "fw_acts ?s s'"
    obtain e1 where "fw_pit s' r = Some e1" using fw_acts_pit [OF s'(2) w(3)] by blast
    moreover have "list_all (\<lambda>nh. valid_face s' (nh_face nh)) nhs"
      using Cons.prems(3) fw_acts_face(2) [OF s'(2)] by simp
    ultimately show "acting L s' (multicast_loop now i f r nhs s')" using Cons.IH s'(1) by blast
  qed
  from acting_trans [OF w(2) this] show ?case using e d(1) by (simp add: Let_def)
qed (simp add: acting_refl)

lemma multicast_afterReceiveInterest_acting:
  assumes T: "fw_tables L s" and e: "fw_pit s r = Some e"
  shows "acting L s (multicast_afterReceiveInterest now i f r s)"
  using lookupFib_returns [OF T e] multicast_loop_acting [OF T e]
  by (auto simp: multicast_afterReceiveInterest_def elim!: returnsE)

lemma multicast_afterNewNextHop_acting:
  assumes T: "fw_tables L s" and e: "fw_pit s r = Some e" and v: "valid_face s (nh_face nh)"
  shows "acting L s (multicast_afterNewNextHop now nh r s)"
proof (cases "find (\<lambda>x. nextHopEligible (fw_face s) (fr_face x) (pe_interest e) e nh) (pe_inRecords e)")
  case None
  then show ?thesis using e acting_refl [OF T] by (simp add: multicast_afterNewNextHop_def)
next
  case (Some x)
  then show ?thesis
    using e sendTo_acting [OF T e v, of "fw_face s (fr_face x)" "pe_interest e" now] find_Some_iff2 [OF Some]
      eligible_scope [of "fw_face s" "fr_face x" "pe_interest e" nh e False TIME_MIN]
    by (simp add: multicast_afterNewNextHop_def)
qed

interpretation multicast: strategy_contract L multicastOps for L
  by unfold_locales (simp_all add: multicastOps_def multicast_afterReceiveInterest_acting strategy_beforeSatisfyInterest_def
      strategy_afterReceiveNack_def multicast_afterNewNextHop_acting acting_refl)

section \<open>Random\<close>

lemma random_afterReceiveInterest_acting:
  assumes E: "fw_env_laws E" and T: "fw_tables L s" and e: "fw_pit s r = Some e"
  shows "acting L s (random_afterReceiveInterest E now i f r s)"
proof -
  obtain fe where fe: "lookupFib r s = Some fe" "list_all (\<lambda>nh. valid_face s (nh_face nh)) (fe_nextHops fe)"
    using lookupFib_returns [OF T e] by (auto elim: returnsE)
  let ?nhs = "filter (nextHopEligible (fw_face s) f i e) (fe_nextHops fe)"
  obtain xs g where x: "env_shuffle E (fw_random s) ?nhs = (xs, g)" by (cases "env_shuffle E (fw_random s) ?nhs")
  have m: "mset xs = mset ?nhs" using fw_env_laws.shuffle_mset [OF E, of "fw_random s" ?nhs] x by simp
  let ?s = "s\<lparr>fw_random := g\<rparr>"
  have "acting L s (sendTo now i nh r ?s)" if "nh \<in> set xs" for nh
  proof -
    have "nh \<in> set ?nhs" using that m by (metis set_mset_mset)
    then have "nextHopEligible (fw_face s) f i e nh" "valid_face ?s (nh_face nh)"
      using fe(2) by (auto simp: list_all_iff valid_face_def)
    moreover have "fw_tables L ?s" "fw_pit ?s r = Some e" "fw_acts s ?s" using T e by simp_all
    ultimately show ?thesis
      using sendTo_acting [of L ?s r e nh "fw_face s f" i now] eligible_scope [of "fw_face s" f i nh e False TIME_MIN]
        acting_trans [of s ?s L] by simp
  qed
  moreover have "xs = [] \<Longrightarrow> ?nhs = []" using m by simp
  ultimately show ?thesis
    using e fe(1) x sendNoRoute_acting [OF T e]
    by (cases xs) (auto simp: random_afterReceiveInterest_def Let_def)
qed

lemma random_contract: "fw_env_laws E \<Longrightarrow> strategy_contract (env_lib E) (randomOps E)"
  by unfold_locales (simp_all add: randomOps_def random_afterReceiveInterest_acting strategy_beforeSatisfyInterest_def
      random_afterReceiveNack_def processNack_acting strategy_afterNewNextHop_def acting_refl)

sublocale fw_env_laws \<subseteq> random: strategy_contract "env_lib E" "randomOps E"
  by (rule random_contract [OF fw_env_laws_axioms])

section \<open>Every strategy object\<close>

lemma strategyOps_contract:
  assumes "fw_env_laws E" and "strategyOps E inst = Some ops"
  shows "strategy_contract (env_lib E) ops"
  using assms(2) best_route.strategy_contract_axioms [of E] multicast.strategy_contract_axioms [of "env_lib E"]
    random_contract [OF assms(1)]
  by (auto simp: strategyOps_def split: if_splits)

end
