(* ===== verification/FwSafety.thy ===== *)
theory FwSafety
  imports Forwarder StrategyLaws
begin

text \<open>
  Every pipeline of the forwarder returns and preserves its invariant, and every packet it hands
  to a face is safe. The strategies enter through their contract only.
\<close>

section \<open>The invariant\<close>

definition strategies_ok :: "fw_env \<Rightarrow> strategyChoice \<Rightarrow> bool" where
  "strategies_ok E s \<longleftrightarrow> sc_inv s \<and> (\<forall>n x. nt_sc n (fst s) = Some x \<longrightarrow> strategyOps E (sc_strategy x) \<noteq> None)"

lemma strategies_ok_views:
  assumes "strategies_ok E (nt, k)" and "nt_inv nt'" and "\<And>n. nt_sc n nt' = nt_sc n nt"
  shows "strategies_ok E (nt', k)"
  using assms by (simp add: strategies_ok_def sc_inv_def scCount_def)

definition store_ok :: "ndn_lib \<Rightarrow> policy cs \<Rightarrow> bool" where
  "store_ok L cs \<longleftrightarrow> cs_inv policy_tracks L cs \<and> (\<forall>x \<in> set (cs_table cs). 0 \<le> d_freshnessPeriod (ce_data x))"

definition fw_wf :: "fw_env \<Rightarrow> forwarder \<Rightarrow> bool" where
  "fw_wf E s \<longleftrightarrow> fw_tables (env_lib E) s \<and> ft_inv (fw_faceTable s) \<and> store_ok (env_lib E) (fw_cs s) \<and>
     strategies_ok E (fw_nameTree s, fw_nSc s)"

text \<open>Every pending Interest has its expiry scheduled.\<close>

definition timed :: "forwarder \<Rightarrow> bool" where
  "timed s \<longleftrightarrow> (\<forall>r e. fw_pit s r = Some e \<longrightarrow> pe_expiryTimer e \<noteq> None)"

definition fw_inv :: "fw_env \<Rightarrow> forwarder \<Rightarrow> bool" where
  "fw_inv E s \<longleftrightarrow> fw_wf E s \<and> timed s"

text \<open>The packets sent between two states are safe, and the faces are the same.\<close>

definition sends :: "forwarder \<Rightarrow> forwarder \<Rightarrow> bool" where
  "sends s s' \<longleftrightarrow> fw_faceTable s' = fw_faceTable s \<and> fw_networkRegions s' = fw_networkRegions s \<and>
     (\<exists>os. fw_out s' = fw_out s @ os \<and> list_all (safe_out (fw_face s)) os)"

lemma sends_refl [simp]: "sends s s"
  by (simp add: sends_def)

lemma sends_trans: "sends a b \<Longrightarrow> sends b c \<Longrightarrow> sends a c"
  by (auto simp: sends_def)

lemma sends_same: "fw_faceTable s' = fw_faceTable s \<Longrightarrow> fw_networkRegions s' = fw_networkRegions s \<Longrightarrow> fw_out s' = fw_out s \<Longrightarrow> sends s s'"
  by (simp add: sends_def)

lemma sends_valid: "sends s s' \<Longrightarrow> valid_face s' f = valid_face s f"
  by (simp add: sends_def valid_face_def)

lemma acts_sends: "fw_acts s s' \<Longrightarrow> sends s s'"
  by (simp add: fw_acts_def fw_frame_def sends_def)

lemma acts_wf:
  assumes "fw_wf E s" and "fw_tables (env_lib E) s'" and "fw_acts s s'"
  shows "fw_wf E s'"
proof -
  have "nt_inv (fw_nameTree s')" using assms(2) by (simp add: fw_tables_def pit_inv_def)
  then have "strategies_ok E (fw_nameTree s', fw_nSc s)"
    using assms(1,3) strategies_ok_views [of E "fw_nameTree s" "fw_nSc s" "fw_nameTree s'"]
    by (simp add: fw_wf_def fw_acts_def fw_frame_def)
  then show ?thesis using assms by (simp add: fw_wf_def fw_acts_def fw_frame_def)
qed

lemma acts_timed: "fw_acts s s' \<Longrightarrow> timed s \<Longrightarrow> timed s'"
  unfolding timed_def
proof (intro allI impI)
  fix r e'
  assume a: "fw_acts s s'" "\<forall>r e. fw_pit s r = Some e \<longrightarrow> pe_expiryTimer e \<noteq> None" "fw_pit s' r = Some e'"
  then have "rel_option entry_step (fw_pit s r) (Some e')" by (metis fw_acts_def)
  then show "pe_expiryTimer e' \<noteq> None" using a(2) by (auto simp: option_rel_Some2 entry_step_def)
qed

lemma acting_inv:
  assumes "fw_inv E s" and "acting (env_lib E) s m"
  shows "returns m (\<lambda>s'. fw_inv E s' \<and> sends s s')"
  using assms acts_wf acts_timed acts_sends unfolding acting_def fw_inv_def by (blast intro: returns_mono)

lemma sends_then:
  "sends a b \<Longrightarrow> returns m (\<lambda>s'. fw_inv E s' \<and> sends b s') \<Longrightarrow> returns m (\<lambda>s'. fw_inv E s' \<and> sends a s')"
  by (auto elim!: returns_mono intro: sends_trans)

lemma fw_wf_cong [simp]:
  "fw_wf E (fw_emit x s) = fw_wf E s" "fw_wf E (fw_count c s) = fw_wf E s"
  "fw_wf E (s\<lparr>fw_dnl := d\<rparr>) = fw_wf E s"
  "fw_wf E (s\<lparr>fw_nInHopLimitZero := h\<rparr>) = fw_wf E s"
  by (simp_all add: fw_wf_def)

lemma timed_cong [simp]:
  "timed (fw_emit x s) = timed s" "timed (fw_count c s) = timed s" "timed (s\<lparr>fw_dnl := d\<rparr>) = timed s"
  "timed (s\<lparr>fw_nInHopLimitZero := h\<rparr>) = timed s" "timed (s\<lparr>fw_cs := cs\<rparr>) = timed s"
  by (simp_all add: timed_def)

lemma fw_inv_cong [simp]:
  "fw_inv E (fw_emit x s) = fw_inv E s" "fw_inv E (fw_count c s) = fw_inv E s"
  "fw_inv E (s\<lparr>fw_dnl := d\<rparr>) = fw_inv E s" "fw_inv E (s\<lparr>fw_nInHopLimitZero := h\<rparr>) = fw_inv E s"
  by (simp_all add: fw_inv_def)

lemma fw_wf_cs: "fw_wf E s \<Longrightarrow> store_ok (env_lib E) cs \<Longrightarrow> fw_wf E (s\<lparr>fw_cs := cs\<rparr>)"
  by (simp add: fw_wf_def)

lemma sends_emit: "safe_out (fw_face s) x \<Longrightarrow> sends s (fw_emit x s)"
  using acts_sends fw_acts_emit by blast

lemma sends_count [simp]: "sends s (fw_count c s)"
  by (simp add: sends_def fw_count_def)

lemma fw_wfD:
  assumes "fw_wf E s"
  shows "fw_tables (env_lib E) s" "nt_inv (fw_nameTree s)" "ft_inv (fw_faceTable s)"
    "store_ok (env_lib E) (fw_cs s)" "strategies_ok E (fw_nameTree s, fw_nSc s)"
  using assms by (simp_all add: fw_wf_def fw_tables_def pit_inv_def)

section \<open>Effective strategies\<close>

lemma effectiveStrategy_contract:
  assumes E: "fw_env_laws E" and wf: "fw_wf E s" and e: "fw_pit s r = Some e"
  shows "\<exists>ops. effectiveStrategy E r s = Some ops \<and> strategy_contract (env_lib E) ops"
proof -
  let ?nt = "fw_nameTree s"
  note w = fw_wfD [OF wf]
  have n: "fst r = nteName (env_lib E) (pe_name e)" by (rule fw_tables_entry(4) [OF w(1) e])
  then have pre: "prefix (fst r) (pe_name e)" by (simp add: nteName_def take_is_prefix)
  have present: "nt_get (fst r) ?nt \<noteq> None" using e by (auto simp: pit_get_def nt_pits_def split: option.splits)
  let ?m = "longestMatch (take getMaxDepth (pe_name e)) (hit nteHasStrategyChoiceEntry ?nt)"
  have lpm: "findLongestPrefixMatch_pit (fst r) (pe_name e) nteHasStrategyChoiceEntry ?nt = ?m"
    using findLongestPrefixMatch_pit_aux [OF w(2) pre present] by (simp add: findLongestPrefixMatch_aux)
  have hit: "hit nteHasStrategyChoiceEntry ?nt m \<longleftrightarrow> nt_sc m ?nt \<noteq> None" for m
    by (simp add: hit_def nteHasStrategyChoiceEntry_def nt_sc_def split: option.split)
  have "?m \<noteq> None" using w(5) hit [of "[]"] by (auto simp: strategies_ok_def sc_inv_def longestMatch_None_iff intro!: exI [of _ "[]"])
  then obtain m x where m: "?m = Some m" "nt_sc m ?nt = Some x" using hit by (auto simp: longestMatch_Some_iff)
  then obtain ops where "strategyOps E (sc_strategy x) = Some ops" using w(5) by (fastforce simp: strategies_ok_def)
  then show ?thesis
    using e lpm m strategyOps_contract [OF E] by (auto simp: effectiveStrategy_def findEffectiveStrategy_pit_def)
qed

section \<open>The content store and the dead nonce list\<close>

lemma store_find:
  assumes L: "cs_lib_laws L" and cs: "store_ok L cs"
  shows "\<exists>cs' found. cs_find policyOps L now i cs = Some (cs', found) \<and> store_ok L cs' \<and>
    (\<forall>d. found = Some d \<longrightarrow> matchesData L i d \<and> 0 \<le> d_freshnessPeriod d)"
proof -
  note store = cs_store.intro [OF dispatch.cs_policy_laws_axioms L]
  have inv: "cs_inv policy_tracks L cs" using cs by (simp add: store_ok_def)
  let ?m = "if cs_shouldServe cs \<and> cs_limit cs \<noteq> 0 then find (canSatisfy L now i) (cs_table cs) else None"
  obtain cs' where f: "cs_findImpl policyOps L now i cs = Some (cs', ?m)" "cs_inv policy_tracks L cs'" "cs_table cs' = cs_table cs"
    using cs_store.find_spec [OF store inv, of now i] by blast
  have "matchesData L i (ce_data x) \<and> 0 \<le> d_freshnessPeriod (ce_data x)" if "?m = Some x" for x
    using that cs by (auto simp: store_ok_def canSatisfy_def split: if_splits dest!: find_Some_iff2)
  then show ?thesis using f cs by (auto simp: cs_find_def store_ok_def)
qed

lemma store_insert:
  assumes L: "cs_lib_laws L" and cs: "store_ok L cs" and d: "plainName L (d_name d)" "0 \<le> d_freshnessPeriod d"
  shows "\<exists>cs'. cs_insert policyOps L now d u cs = Some cs' \<and> store_ok L cs'"
proof -
  note store = cs_store.intro [OF dispatch.cs_policy_laws_axioms L]
  have inv: "cs_inv policy_tracks L cs" using cs by (simp add: store_ok_def)
  obtain cs' where c: "cs_insert policyOps L now d u cs = Some cs'" "cs_inv policy_tracks L cs'"
    using cs_store.insert_spec [OF store inv d(1), of now u] by blast
  have "ce_data ` set (cs_table cs') \<subseteq> insert d (ce_data ` set (cs_table cs))"
    by (rule cs_store.insert_data [OF store inv c(1)])
  then have "0 \<le> d_freshnessPeriod (ce_data x)" if "x \<in> set (cs_table cs')" for x
    using that cs d(2) by (auto simp: store_ok_def)
  then show ?thesis using c by (auto simp: store_ok_def)
qed

lemma makeEntry_returns: "fw_env_laws E \<Longrightarrow> \<exists>x. makeEntry (env_wireEncode E) n nonce = Some x"
  using CityHash64_returns [of "env_wireEncode E n" 0 "length (env_wireEncode E n)"] fw_env_laws.wire_length [of E n]
  by (auto simp: makeEntry_def CityHash64WithSeed_def CityHash64WithSeeds_def inBuf_def)

lemma dnl_has_returns: "fw_env_laws E \<Longrightarrow> \<exists>b. dnl_has (env_wireEncode E) n nonce d = Some b"
  using makeEntry_returns [of E n nonce] by (auto simp: dnl_has_def)

lemma dnl_addAll_returns: "fw_env_laws E \<Longrightarrow> \<exists>d'. dnl_addAll (env_wireEncode E) n xs d = Some d'"
proof (induction xs arbitrary: d)
  case (Cons x xs)
  obtain y where "makeEntry (env_wireEncode E) n x = Some y" using makeEntry_returns [OF Cons.prems] by blast
  then show ?case using Cons.IH [OF Cons.prems] by (simp add: dnl_add_def)
qed simp

lemma insertDeadNonceList_returns:
  assumes E: "fw_env_laws E" and T: "fw_tables L s" and e: "fw_pit s r = Some e"
  shows "\<exists>d. insertDeadNonceList E r upstream s = Some (s\<lparr>fw_dnl := d\<rparr>)"
proof -
  have f: "0 \<le> pe_dataFreshnessPeriod e" using fw_tables_entry(1) [OF T e] by (simp add: entry_ok_def)
  let ?xs = "case upstream of None \<Rightarrow> map fr_lastNonce (pe_outRecords e)
      | Some f \<Rightarrow> (case getOutRecord f e of None \<Rightarrow> [] | Some x \<Rightarrow> [fr_lastNonce x])"
  obtain d where d: "dnl_addAll (env_wireEncode E) (pe_name e) ?xs (fw_dnl s) = Some d"
    using dnl_addAll_returns [OF E] by blast
  have "insertDeadNonceList E r upstream s = Some s \<or> insertDeadNonceList E r upstream s = Some (s\<lparr>fw_dnl := d\<rparr>)"
    using f d by (simp add: insertDeadNonceList_def e)
  moreover have "s = s\<lparr>fw_dnl := fw_dnl s\<rparr>" by simp
  ultimately show ?thesis by metis
qed

section \<open>Interest pipelines\<close>

lemma onInterestLoop_inv:
  assumes "valid_face s f"
  shows "fw_inv E (onInterestLoop i f s) = fw_inv E s" and "sends s (onInterestLoop i f s)"
    and "fw_nameTree (onInterestLoop i f s) = fw_nameTree s" and "fw_wf E (onInterestLoop i f s) = fw_wf E s"
  using assms sends_emit [of s "SendNack f \<lparr>n_interest = i, n_reason = DUPLICATE\<rparr>"]
  by (simp_all add: onInterestLoop_def valid_face_def)

lemma fw_pitInsert_returns:
  assumes wf: "fw_wf E s" and hint: "\<not> isInProducerRegion (fw_networkRegions s) (i_forwardingHint i)"
  shows "\<exists>s' r isNew e. fw_pitInsert E i s = Some (s', r, isNew) \<and> fw_wf E s' \<and> fw_pit s' r = Some e \<and>
    pe_key e = i_key i \<and> (if isNew then e = newPitEntry (fw_nextPit s) i \<and> fw_pit s r = None else fw_pit s r = Some e) \<and>
    (\<forall>r'. r' \<noteq> r \<longrightarrow> fw_pit s' r' = fw_pit s r') \<and> sends s s' \<and> fw_out s' = fw_out s \<and> fw_cs s' = fw_cs s \<and>
    fw_dnl s' = fw_dnl s"
proof -
  note w = fw_wfD [OF wf]
  have pit: "pit_inv (env_lib E) (fw_nameTree s, fw_nPit s, fw_nextPit s)" and fib: "fib_inv (fw_nameTree s, fw_nFib s)"
    using w(1) by (simp_all add: fw_tables_def)
  obtain nt k a r0 isNew where p: "pit_insert (env_lib E) i (fw_nameTree s, fw_nPit s, fw_nextPit s) = ((nt, k, a), r0, isNew)"
    by (metis prod.exhaust)
  note v = pit_insert_views [OF pit p]
  note spec = pit_insert_entries [OF pit p]
  from spec [THEN conjunct2] obtain r e where x: "r0 = Some r \<and> pit_get r nt = Some e \<and> pe_key e = i_key i \<and>
      (isNew \<longleftrightarrow> pit_get r (fw_nameTree s) = None) \<and> (isNew \<longrightarrow> e = newPitEntry (fw_nextPit s) i) \<and>
      (\<forall>r1. r1 \<noteq> r \<or> \<not> isNew \<longrightarrow> pit_get r1 nt = pit_get r1 (fw_nameTree s)) \<and>
      (\<forall>r1 e1. pit_get r1 nt = Some e1 \<and> pe_key e1 = i_key i \<longrightarrow> r1 = r)"
    by (elim exE)
  have r: "pit_inv (env_lib E) (nt, k, a)" "r0 = Some r"
    "pit_get r nt = Some e" "pe_key e = i_key i" "isNew \<longleftrightarrow> pit_get r (fw_nameTree s) = None"
    "isNew \<longrightarrow> e = newPitEntry (fw_nextPit s) i"
    using spec x by blast+
  have other: "pit_get r1 nt = pit_get r1 (fw_nameTree s)" if "r1 \<noteq> r \<or> \<not> isNew" for r1 using x that by blast
  let ?s = "s\<lparr>fw_nameTree := nt, fw_nPit := k, fw_nextPit := a\<rparr>"
  have new: "entry_ok s (newPitEntry x i)" for x using hint by (simp add: entry_ok_def newPitEntry_def)
  have "entry_ok s x" if "pit_get r1 nt = Some x" for r1 x
  proof (cases "r1 = r \<and> isNew")
    case True
    then show ?thesis using that r(3,6) new by auto
  next
    case False
    then show ?thesis using that other [of r1] w(1) by (auto simp: fw_tables_def)
  qed
  moreover have "entry_ok ?s x = entry_ok s x" "valid_face ?s f = valid_face s f" for x f
    by (simp_all add: entry_ok_def valid_face_def)
  moreover have "fib_inv (nt, fw_nFib s)"
    by (rule fib_inv_views [OF fib]) (use r(1) v in \<open>simp_all add: pit_inv_def\<close>)
  ultimately have "fw_tables (env_lib E) ?s" using w(1) r(1) v by (simp add: fw_tables_def)
  moreover have "strategies_ok E (nt, fw_nSc s)"
    by (rule strategies_ok_views [OF w(5)]) (use r(1) v in \<open>simp_all add: pit_inv_def\<close>)
  ultimately have "fw_wf E ?s" using wf by (simp add: fw_wf_def)
  moreover have "fw_pitInsert E i s = Some (?s, r, isNew)" by (simp add: fw_pitInsert_def p r(2))
  moreover have "if isNew then e = newPitEntry (fw_nextPit s) i \<and> fw_pit s r = None else fw_pit s r = Some e"
    using r(3,5,6) other [of r] by (cases isNew) auto
  moreover have "sends s ?s" by (simp add: sends_def)
  ultimately show ?thesis using r(3,4) other
    by (intro exI [of _ ?s] exI [of _ r] exI [of _ isNew] exI [of _ e]) simp
qed

text \<open>All entries but the one being processed have their timer set.\<close>

definition timed_but :: "pitRef \<Rightarrow> forwarder \<Rightarrow> bool" where
  "timed_but r s \<longleftrightarrow> (\<forall>r' e. r' \<noteq> r \<longrightarrow> fw_pit s r' = Some e \<longrightarrow> pe_expiryTimer e \<noteq> None)"

lemma timed_but_cong [simp]: "timed_but r (fw_count c s) = timed_but r s" "timed_but r (s\<lparr>fw_cs := cs\<rparr>) = timed_but r s"
  by (simp_all add: timed_but_def)

lemma setExpiryTimer_inv:
  assumes "fw_wf E s" and "fw_pit s r = Some e" and "timed_but r s"
  shows "fw_inv E (setExpiryTimer now r d s)" and "sends s (setExpiryTimer now r d s)"
    and "fw_pit (setExpiryTimer now r d s) r = Some (e\<lparr>pe_expiryTimer := Some (now + ms (max d 0))\<rparr>)"
proof -
  let ?s = "setExpiryTimer now r d s"
  note t = setExpiryTimer_acts [OF fw_wfD(1) [OF assms(1)] assms(2), of now d]
  show "fw_pit ?s r = Some (e\<lparr>pe_expiryTimer := Some (now + ms (max d 0))\<rparr>)" by (rule t(3))
  show "sends s ?s" by (rule acts_sends [OF t(2)])
  have "pe_expiryTimer x \<noteq> None" if x: "fw_pit ?s r' = Some x" for r' x
  proof (cases "r' = r")
    case True
    then show ?thesis using x t(3) by auto
  next
    case False
    then have "fw_pit s r' = Some x"
      using x fw_modify_acts(3) [OF fw_wfD(1) [OF assms(1)] assms(2) entry_change_timer] by (simp add: setExpiryTimer_def)
    then show ?thesis using False assms(3) unfolding timed_but_def by blast
  qed
  then show "fw_inv E ?s" using acts_wf [OF assms(1) t(1,2)] by (simp add: fw_inv_def timed_def)
qed

lemma fw_modify_wf:
  assumes wf: "fw_wf E s" and e: "fw_pit s r = Some e"
    and f: "pe_id (f e) = pe_id e" "pe_key (f e) = pe_key e" "pe_inv e \<Longrightarrow> pe_inv (f e)" "entry_ok s e \<Longrightarrow> entry_ok s (f e)"
  shows "fw_wf E (fw_modify r f s)" and "sends s (fw_modify r f s)" and "timed_but r (fw_modify r f s) = timed_but r s"
    and "fw_pit (fw_modify r f s) r = Some (f e)" and "r' \<noteq> r \<Longrightarrow> fw_pit (fw_modify r f s) r' = fw_pit s r'"
proof -
  have t: "fw_tables (env_lib E) (fw_modify r f s)"
    by (rule fw_modify_tables(1) [OF fw_wfD(1) [OF wf] e]) (rule f, assumption?)+
  have get: "fw_pit (fw_modify r f s) r' = (if r' = r then Some (f e) else fw_pit s r')" for r'
    by (rule fw_modify_tables(2) [OF fw_wfD(1) [OF wf] e]) (rule f, assumption?)+
  have "strategies_ok E (fw_nameTree (fw_modify r f s), fw_nSc s)"
    by (rule strategies_ok_views [OF fw_wfD(5) [OF wf]]) (use t in \<open>simp_all add: fw_tables_def pit_inv_def fw_modify_def\<close>)
  then show "fw_wf E (fw_modify r f s)" using wf t by (simp add: fw_wf_def fw_modify_def)
  show "sends s (fw_modify r f s)" by (simp add: sends_def fw_modify_def)
  show "timed_but r (fw_modify r f s) = timed_but r s" by (simp add: timed_but_def get)
  show "fw_pit (fw_modify r f s) r = Some (f e)" "r' \<noteq> r \<Longrightarrow> fw_pit (fw_modify r f s) r' = fw_pit s r'" using get by auto
qed

lemma key_canMatch: "pe_key e = i_key i \<Longrightarrow> canMatch e i 0"
  by (simp add: canMatch_iff i_key_def pe_name_def)

lemma attachHopLimit_wf:
  assumes wf: "fw_wf E s" and e: "fw_pit s r = Some e" and key: "pe_key e = i_key i" and new: "isNew \<Longrightarrow> pe_interest e = i"
  shows "\<exists>i' s' e'. attachHopLimit i isNew r s = (i', s') \<and> fw_wf E s' \<and> fw_pit s' r = Some e' \<and> pe_key e' = i_key i' \<and>
    i_nextHopFaceId i' = i_nextHopFaceId i \<and> sends s s' \<and> timed_but r s' = timed_but r s \<and> fw_out s' = fw_out s"
proof (cases "0 < fw_defaultHopLimit s \<and> i_hopLimit i = None")
  case True
  let ?i = "i\<lparr>i_hopLimit := Some (fw_defaultHopLimit s)\<rparr>" and ?f = "\<lambda>e. e\<lparr>pe_interest := i\<lparr>i_hopLimit := Some (fw_defaultHopLimit s)\<rparr>\<rparr>"
  have k: "i_key ?i = i_key i" by (simp add: i_key_def)
  show ?thesis
  proof (cases isNew)
    case n: True
    then have eq: "pe_interest e = i" by (rule new)
    have "pe_inv (?f e)" if "pe_inv e"
      using that eq by (simp add: pe_inv_def in_record_ok_def canMatch_def pe_name_def list_all_iff split: option.splits)
    moreover have "entry_ok s (?f e)" if "entry_ok s e" using that eq by (simp add: entry_ok_def)
    moreover have "pe_key (?f e) = pe_key e" using key k by simp
    ultimately have m: "fw_wf E (fw_modify r ?f s)" "sends s (fw_modify r ?f s)"
      "timed_but r (fw_modify r ?f s) = timed_but r s" "fw_pit (fw_modify r ?f s) r = Some (?f e)"
      using fw_modify_wf [OF wf e, of ?f] by simp_all
    then show ?thesis using True n k
      by (intro exI [of _ ?i] exI [of _ "fw_modify r ?f s"] exI [of _ "?f e"]) (simp add: attachHopLimit_def Let_def)
  next
    case False
    then show ?thesis using True wf e key k
      by (intro exI [of _ ?i] exI [of _ s] exI [of _ e]) (simp add: attachHopLimit_def Let_def)
  qed
next
  case False
  then show ?thesis using wf e key
    by (intro exI [of _ i] exI [of _ s] exI [of _ e]) (auto simp: attachHopLimit_def)
qed

lemma insertInRecord_nonempty: "pe_inRecords (insertOrUpdateInRecord now f i e) \<noteq> []"
  using getInRecord_insertOrUpdate [of f now f i e] by (auto simp: getInRecord_def)

lemma ft_get_valid: "ft_inv (fw_faceTable s) \<Longrightarrow> ft_get k (fw_faceTable s) = Some f \<Longrightarrow> valid_face s f"
  by (auto simp: ft_inv_def ft_get_def valid_face_def)

lemma onContentStoreMiss_inv:
  assumes E: "fw_env_laws E" and wf: "fw_wf E s" and e: "fw_pit s r = Some e" and t: "timed_but r s"
    and v: "valid_face s f" and key: "pe_key e = i_key i" and new: "isNew \<Longrightarrow> pe_interest e = i"
  shows "returns (onContentStoreMiss E now i isNew f r s) (\<lambda>s'. fw_inv E s' \<and> sends s s')"
proof -
  let ?s0 = "fw_count (\<lambda>c. c\<lparr>nCsMisses := nCsMisses c + 1\<rparr>) s"
  have "fw_wf E ?s0" "fw_pit ?s0 r = Some e" using wf e by simp_all
  from attachHopLimit_wf [where isNew = isNew, OF this key new] obtain i' s1 e1 where s1: "attachHopLimit i isNew r ?s0 = (i', s1)" "fw_wf E s1"
    "fw_pit s1 r = Some e1" "pe_key e1 = i_key i'" "i_nextHopFaceId i' = i_nextHopFaceId i" "sends ?s0 s1" "timed_but r s1"
    using t by auto
  have v1: "valid_face s1 f" using v sends_valid [OF s1(6)] by (simp add: valid_face_def)
  let ?ins = "insertOrUpdateInRecord now f i'" and ?s2 = "fw_modify r (insertOrUpdateInRecord now f i') s1"
  have ch: "entry_change s1 ?ins e1" by (rule entry_change_insertIn [OF v1 key_canMatch [OF s1(4)]])
  have c: "pe_id (?ins e1) = pe_id e1" "pe_key (?ins e1) = pe_key e1" "pe_inv e1 \<Longrightarrow> pe_inv (?ins e1)"
    "entry_ok s1 e1 \<Longrightarrow> entry_ok s1 (?ins e1)" using ch by (simp_all add: entry_change_def)
  have s2: "fw_wf E ?s2" "sends s1 ?s2" "timed_but r ?s2" "fw_pit ?s2 r = Some (?ins e1)"
    using fw_modify_wf [where f = ?ins, OF s1(2,3) c] s1(7) by simp_all
  obtain m where m: "maxElement fr_expiry (pe_inRecords (?ins e1)) = Some m"
    using maxElement_spec [OF insertInRecord_nonempty] by blast
  let ?s3 = "setExpiryTimer now r (duration_cast_ms (fr_expiry m - now)) ?s2"
  note s3 = setExpiryTimer_inv [OF s2(1,4,3), of now "duration_cast_ms (fr_expiry m - now)"]
  have wf3: "fw_wf E ?s3" using s3(1) by (simp add: fw_inv_def)
  have sn: "sends s ?s3" using sends_count s1(6) s2(2) s3(2) sends_trans by blast
  have v3: "valid_face ?s3 f" using v sends_valid [OF sn] by simp
  have run: "returns m (\<lambda>s'. fw_inv E s' \<and> sends s s')" if "acting (env_lib E) ?s3 m" for m
    using acting_inv [OF s3(1) that] sn sends_trans by (blast intro: returns_mono)
  have forward: "returns (map_option fst (onOutgoingInterest now i' g r ?s3)) (\<lambda>s'. fw_inv E s' \<and> sends s s')"
    if "i_nextHopFaceId i' = Some k" "ft_get k (fw_faceTable ?s3) = Some g" for k g
  proof (rule run)
    have "valid_face ?s3 g" by (rule ft_get_valid [OF fw_wfD(3) [OF wf3] that(2)])
    from onOutgoingInterest_acts [OF fw_wfD(1) [OF wf3] s3(3) this, of i' now] that(1)
    show "acting (env_lib E) ?s3 (map_option fst (onOutgoingInterest now i' g r ?s3))"
      unfolding acting_def by (auto elim!: returns_mono)
  qed
  obtain ops where ops: "effectiveStrategy E r ?s3 = Some ops" "strategy_contract (env_lib E) ops"
    using effectiveStrategy_contract [OF E wf3 s3(3)] by blast
  have strat: "returns (so_afterReceiveInterest ops now i' f r ?s3) (\<lambda>s'. fw_inv E s' \<and> sends s s')"
    by (rule run) (rule strategy_contract.afterReceiveInterest_ok [OF ops(2) fw_wfD(1) [OF wf3] s3(3) v3])
  show ?thesis
    using s1(1) s2(4) m s3(1) sn ops(1) strat forward
    by (auto simp: onContentStoreMiss_def Let_def split: option.split)
qed

lemma entry_change_freshness:
  "0 \<le> t \<Longrightarrow> entry_change s (\<lambda>e. e\<lparr>pe_dataFreshnessPeriod := t\<rparr>) e"
  "0 \<le> t \<Longrightarrow> entry_change s (\<lambda>e. e\<lparr>pe_isSatisfied := b, pe_dataFreshnessPeriod := t\<rparr>) e"
  by (simp_all add: entry_change_def entry_step_def entry_ok_def nfd_inv)

lemma onContentStoreHit_inv:
  assumes E: "fw_env_laws E" and wf: "fw_wf E s" and e: "fw_pit s r = Some e" and t: "timed_but r s"
    and m: "matchesData (env_lib E) (pe_interest e) d" and d: "0 \<le> d_freshnessPeriod d"
  shows "returns (onContentStoreHit E now i f r d s) (\<lambda>s'. fw_inv E s' \<and> sends s s')"
proof -
  let ?s0 = "fw_count (\<lambda>c. c\<lparr>nCsHits := nCsHits c + 1\<rparr>) s"
  let ?d = "d\<lparr>d_incomingFaceId := Some FACEID_CONTENT_STORE, d_pitToken := i_pitToken i\<rparr>"
  let ?f = "\<lambda>e. e\<lparr>pe_isSatisfied := True, pe_dataFreshnessPeriod := d_freshnessPeriod d\<rparr>"
  have ch: "entry_change ?s0 ?f e" by (rule entry_change_freshness(2) [OF d])
  have c: "pe_id (?f e) = pe_id e" "pe_key (?f e) = pe_key e" "pe_inv e \<Longrightarrow> pe_inv (?f e)"
    "entry_ok ?s0 e \<Longrightarrow> entry_ok ?s0 (?f e)" using ch by (simp_all add: entry_change_def)
  let ?s1 = "fw_modify r ?f ?s0"
  have s1: "fw_wf E ?s1" "sends ?s0 ?s1" "timed_but r ?s1" "fw_pit ?s1 r = Some (?f e)"
    using fw_modify_wf [where f = ?f and s = ?s0, OF _ _ c] wf e t by simp_all
  let ?s2 = "setExpiryTimer now r 0 ?s1"
  note s2 = setExpiryTimer_inv [OF s1(1,4,3), of now 0]
  have wf2: "fw_wf E ?s2" using s2(1) by (simp add: fw_inv_def)
  have sn: "sends s ?s2" using sends_count s1(2) s2(2) sends_trans by blast
  obtain ops where ops: "effectiveStrategy E r ?s2 = Some ops" "strategy_contract (env_lib E) ops"
    using effectiveStrategy_contract [OF E wf2 s2(3)] by blast
  from strategy_contract.beforeSatisfyInterest_ok [OF ops(2) fw_wfD(1) [OF wf2] s2(3), of now ?d "fw_csFace ?s2"]
  obtain s3 where s3: "so_beforeSatisfyInterest ops now ?d (fw_csFace ?s2) r ?s2 = Some s3" "fw_tables (env_lib E) s3" "fw_acts ?s2 s3"
    by (auto elim!: returnsE)
  from fw_acts_pit [OF s3(3) s2(3)] obtain e3 where e3: "fw_pit s3 r = Some e3" "pe_interest e3 = pe_interest e"
    by (auto simp: entry_step_def)
  have "acting (env_lib E) s3 (sendData E now ?d f r s3)"
    by (rule sendData_acting [OF s3(2) e3(1)]) (use m e3(2) fw_env_laws.matches_tags [OF E] in simp)
  from acting_trans [OF s3(3) this] have "returns (sendData E now ?d f r s3) (\<lambda>s'. fw_inv E s' \<and> sends ?s2 s')"
    by (rule acting_inv [OF s2(1)])
  then show ?thesis
    using ops(1) s3(1) sn sends_trans by (auto simp: onContentStoreHit_def Let_def afterContentStoreHit_def elim!: returns_mono)
qed

lemma timed_timed_but: "timed s \<Longrightarrow> timed_but r s"
  unfolding timed_def timed_but_def by blast

lemma timed_but_timed: "timed_but r s \<Longrightarrow> fw_pit s r = Some e \<Longrightarrow> pe_expiryTimer e \<noteq> None \<Longrightarrow> timed s"
  unfolding timed_def timed_but_def by (metis option.inject)

lemma timed_but_other: "timed s \<Longrightarrow> \<forall>r'. r' \<noteq> r \<longrightarrow> fw_pit s' r' = fw_pit s r' \<Longrightarrow> timed_but r s'"
  unfolding timed_def timed_but_def by simp

lemma no_records_no_duplicate: "pe_inRecords e = [] \<Longrightarrow> pe_outRecords e = [] \<Longrightarrow> \<not> hasDuplicateNonceInPit s e nonce f"
  by (simp add: hasDuplicateNonceInPit_def findDuplicateNonce_def Let_def DUPLICATE_NONCE_NONE_def)

lemma onPitInserted_inv:
  assumes E: "fw_env_laws E" and wf: "fw_wf E s" and e: "fw_pit s r = Some e" and t: "timed_but r s"
    and v: "valid_face s f" and key: "pe_key e = i_key i"
    and new: "if isNew then e = newPitEntry a i else pe_expiryTimer e \<noteq> None"
  shows "returns (onPitInserted E now i isNew f r s) (\<lambda>s'. fw_inv E s' \<and> sends s s')"
proof (cases "hasDuplicateNonceInPit s e (i_nonce i) f")
  case True
  then have "\<not> isNew" using new no_records_no_duplicate [of e s] by (auto simp: newPitEntry_def)
  then have "timed s" using new timed_but_timed [OF t e] by simp
  then have "fw_inv E s" using wf by (simp add: fw_inv_def)
  moreover obtain ops where "effectiveStrategy E r (onInterestLoop i f s) = Some ops"
    using effectiveStrategy_contract [OF E, of "onInterestLoop i f s" r e] onInterestLoop_inv [OF v] wf e by auto
  ultimately show ?thesis using True e onInterestLoop_inv [OF v] by (simp add: onPitInserted_def Let_def)
next
  case False
  have int: "isNew \<Longrightarrow> pe_interest e = i" using new by (simp add: newPitEntry_def)
  have L: "cs_lib_laws (env_lib E)" by (rule fw_env_laws.axioms(1) [OF E])
  obtain cs found where cs: "cs_find policyOps (env_lib E) now i (fw_cs s) = Some (cs, found)" "store_ok (env_lib E) cs"
      "\<And>d. found = Some d \<Longrightarrow> matchesData (env_lib E) i d \<and> 0 \<le> d_freshnessPeriod d"
    using store_find [OF L fw_wfD(4) [OF wf]] by blast
  let ?s = "s\<lparr>fw_cs := cs\<rparr>"
  have s: "fw_wf E ?s" "fw_pit ?s r = Some e" "timed_but r ?s" "valid_face ?s f" "sends s ?s"
    using fw_wf_cs [OF wf cs(2)] e t v by (simp_all add: valid_face_def sends_def)
  have hit: "returns (onContentStoreHit E now i f r d ?s) (\<lambda>s'. fw_inv E s' \<and> sends s s')" if "found = Some d" for d
  proof -
    have "matchesData (env_lib E) (pe_interest e) d" using cs(3) [OF that] fw_env_laws.matches_key [OF E key]
      by simp
    from onContentStoreHit_inv [OF E s(1-3) this, of now i f] cs(3) [OF that] show ?thesis
      by (simp add: sends_then [OF s(5)])
  qed
  have miss: "returns (onContentStoreMiss E now i isNew f r ?s) (\<lambda>s'. fw_inv E s' \<and> sends s s')"
    by (rule sends_then [OF s(5) onContentStoreMiss_inv [where isNew = isNew, OF E s(1-4) key int]])
  show ?thesis
    using False e cs(1) hit miss onContentStoreMiss_inv [where isNew = isNew, OF E wf e t v key int]
    by (auto simp: onPitInserted_def Let_def split: option.split)
qed

lemma stripForwardingHint_ok: "\<not> isInProducerRegion regions (i_forwardingHint (stripForwardingHint regions i))"
  by (cases "i_forwardingHint i") (simp_all add: stripForwardingHint_def)

lemma onIncomingInterest_inv:
  assumes E: "fw_env_laws E" and inv: "fw_inv E s" and v: "valid_face s f"
  shows "returns (onIncomingInterest E now i f s) (\<lambda>s'. fw_inv E s' \<and> sends s s')"
proof -
  let ?s0 = "fw_count (\<lambda>c. c\<lparr>nInInterests := nInInterests c + 1\<rparr>) s"
  let ?i1 = "i\<lparr>i_incomingFaceId := Some (f_id (fw_face s f)), i_hopLimit := map_option (\<lambda>h. h - 1) (i_hopLimit i)\<rparr>"
  define i2 where "i2 = stripForwardingHint (fw_networkRegions s) ?i1"
  have s0: "fw_inv E ?s0" "fw_wf E ?s0" "timed ?s0" "valid_face ?s0 f" "sends s ?s0"
    using inv v by (simp_all add: fw_inv_def valid_face_def)
  have reg: "fw_networkRegions ?s0 = fw_networkRegions s" by (simp add: fw_count_def)
  obtain b where b: "dnl_has (env_wireEncode E) (i_name i) (i_nonce i) (fw_dnl s) = Some b" using dnl_has_returns [OF E] by blast
  note loop = onInterestLoop_inv [OF s0(4), where i = ?i1]
  have "\<not> isInProducerRegion (fw_networkRegions ?s0) (i_forwardingHint i2)"
    unfolding i2_def reg by (rule stripForwardingHint_ok)
  from fw_pitInsert_returns [OF s0(2) this] obtain s1 r isNew e where
    c: "fw_pitInsert E i2 ?s0 = Some (s1, r, isNew) \<and> fw_wf E s1 \<and> fw_pit s1 r = Some e \<and> pe_key e = i_key i2 \<and>
      (if isNew then e = newPitEntry (fw_nextPit ?s0) i2 \<and> fw_pit ?s0 r = None else fw_pit ?s0 r = Some e) \<and>
      (\<forall>r'. r' \<noteq> r \<longrightarrow> fw_pit s1 r' = fw_pit ?s0 r') \<and> sends ?s0 s1 \<and> fw_out s1 = fw_out ?s0 \<and> fw_cs s1 = fw_cs ?s0 \<and>
      fw_dnl s1 = fw_dnl ?s0"
    by (elim exE)
  have p: "fw_pitInsert E i2 ?s0 = Some (s1, r, isNew)" "fw_wf E s1" "fw_pit s1 r = Some e" "pe_key e = i_key i2"
      "if isNew then e = newPitEntry (fw_nextPit ?s0) i2 \<and> fw_pit ?s0 r = None else fw_pit ?s0 r = Some e"
      "\<forall>r'. r' \<noteq> r \<longrightarrow> fw_pit s1 r' = fw_pit ?s0 r'" "sends ?s0 s1"
    using c by - (elim conjE, assumption)+
  have t1: "timed_but r s1" by (rule timed_but_other [OF s0(3) p(6)])
  have v1: "valid_face s1 f" using s0(4) sends_valid [OF p(7)] by simp
  have "pe_expiryTimer e \<noteq> None" if "fw_pit ?s0 r = Some e" using s0(3) that unfolding timed_def by blast
  then have n1: "if isNew then e = newPitEntry (fw_nextPit ?s0) i2 else pe_expiryTimer e \<noteq> None"
    using p(5) by (cases isNew) simp_all
  have fin: "returns (onPitInserted E now i2 isNew f r s1) (\<lambda>s'. fw_inv E s' \<and> sends s s')"
    by (rule sends_then [OF sends_trans [OF s0(5) p(7)] onPitInserted_inv [OF E p(2,3) t1 v1 p(4) n1]])
  have sh: "sends s (s0\<lparr>fw_nInHopLimitZero := h\<rparr>) = sends s s0" for s0 h by (simp add: sends_def)
  show ?thesis
    using s0(1,5) b loop(1) p(1) fin reg sends_trans [OF s0(5) loop(2)]
    by (simp add: onIncomingInterest_def Let_def sh i2_def)
qed

end
