(* ===== verification/FwData.thy ===== *)
theory FwData
  imports FwSafety
begin

text \<open>
  The end of a pending Interest and the Data pipelines: they return, keep the invariant, and a
  Data packet is sent to exactly the downstreams that wait for it.
\<close>

section \<open>The end of a pending Interest\<close>

lemma pit_erase_get:
  assumes inv: "pit_inv L (nt, k, a)" and r: "pit_get r nt \<noteq> None"
  shows "pit_get r' (fst (pit_erase r c (nt, k, a))) = (if r' = r then None else pit_get r' nt)"
proof -
  let ?p = "pit_erase (fst r, snd r) c (nt, k, a)"
  have rr: "pit_get (fst r, snd r) nt \<noteq> None" using r by simp
  note spec = pit_erase_spec [OF inv rr, where c = c]
  have wf: "pit_wf L a nt" "pit_wf L (snd (snd ?p)) (fst ?p)"
    using inv spec(1) by (auto simp: pit_inv_def split: prod.splits)
  have "pit_get (n, i) (fst ?p) = Some e \<longleftrightarrow> (n, i) \<noteq> r \<and> pit_get (n, i) nt = Some e" for n i e
    unfolding pit_get_Some_iff [OF wf(1)] pit_get_Some_iff [OF wf(2)] spec(2) by (cases r) auto
  then have "pit_get r' (fst ?p) = Some e \<longleftrightarrow> (if r' = r then None else pit_get r' nt) = Some e" for e
    by (cases r') auto
  then show ?thesis by (metis option.exhaust prod.collapse)
qed

lemma pit_erase_views:
  assumes "nt_inv nt"
  shows "nt_fib m (fst (pit_erase r c (nt, k, a))) = nt_fib m nt"
    and "nt_sc m (fst (pit_erase r c (nt, k, a))) = nt_sc m nt"
    and "nt_meas m (fst (pit_erase r c (nt, k, a))) = nt_meas m nt"
proof -
  have t: "nt_inv (erasePitEntry (fst r) (snd r) nt)" using nt_inv_setters(3) [OF assms] .
  have "sameTables (erasePitEntry (fst r) (snd r) nt) (fst (pit_erase r c (nt, k, a)))"
    using eraseIfEmpty_facts(2) [OF t] by (simp add: pit_erase_def Let_def)
  then show "nt_fib m (fst (pit_erase r c (nt, k, a))) = nt_fib m nt"
    "nt_sc m (fst (pit_erase r c (nt, k, a))) = nt_sc m nt" "nt_meas m (fst (pit_erase r c (nt, k, a))) = nt_meas m nt"
    by (simp_all add: sameTables_def)
qed

lemma onInterestFinalize_inv:
  assumes E: "fw_env_laws E" and inv: "fw_inv E s" and e: "fw_pit s r = Some e"
  shows "returns (onInterestFinalize E r s) (\<lambda>s'. fw_inv E s' \<and> sends s s' \<and> fw_out s' = fw_out s \<and>
    (\<forall>r'. fw_pit s' r' = (if r' = r then None else fw_pit s r')))"
proof -
  have wf: "fw_wf E s" and t: "timed s" using inv by (simp_all add: fw_inv_def)
  obtain d where d: "insertDeadNonceList E r None s = Some (s\<lparr>fw_dnl := d\<rparr>)"
    using insertDeadNonceList_returns [OF E fw_wfD(1) [OF wf] e] by blast
  define s2 where "s2 = fw_count (if pe_isSatisfied e then (\<lambda>c. c\<lparr>nSatisfiedInterests := nSatisfiedInterests c + 1\<rparr>)
                       else (\<lambda>c. c\<lparr>nUnsatisfiedInterests := nUnsatisfiedInterests c + 1\<rparr>)) (s\<lparr>fw_dnl := d\<rparr>)"
  have s2: "fw_wf E s2" "fw_pit s2 r = Some e" "fw_nameTree s2 = fw_nameTree s" "fw_out s2 = fw_out s" "sends s s2"
    using wf e by (simp_all add: s2_def sends_def)
  let ?f = "\<lambda>e :: pit_entry. e\<lparr>pe_expiryTimer := None\<rparr>"
  have c: "pe_id (?f e) = pe_id e" "pe_key (?f e) = pe_key e" "pe_inv e \<Longrightarrow> pe_inv (?f e)"
    "entry_ok s2 e \<Longrightarrow> entry_ok s2 (?f e)" by (simp_all add: nfd_inv)
  let ?s3 = "fw_modify r ?f s2"
  note s3 = fw_modify_wf [where f = ?f, OF s2(1,2) c]
  have pit: "pit_inv (env_lib E) (fw_nameTree ?s3, fw_nPit ?s3, fw_nextPit ?s3)"
    and fib: "fib_inv (fw_nameTree ?s3, fw_nFib ?s3)"
    using fw_wfD(1) [OF s3(1)] by (simp_all add: fw_tables_def)
  have present: "pit_get r (fw_nameTree ?s3) \<noteq> None" using s3(4) by simp
  obtain nt k a where p: "pit_erase r True (fw_nameTree ?s3, fw_nPit ?s3, fw_nextPit ?s3) = (nt, k, a)" by (metis prod.exhaust)
  have get3: "fw_pit ?s3 r' = (if r' = r then Some (?f e) else fw_pit s r')" for r'
    using s3(4,5) s2(3) by simp
  have get: "pit_get r' nt = (if r' = r then None else fw_pit s r')" for r'
    using pit_erase_get [OF pit present, of r' True] p get3 [of r'] by simp
  have ntinv: "nt_inv (fw_nameTree ?s3)" using pit by (simp add: pit_inv_def)
  have views: "nt_fib m nt = nt_fib m (fw_nameTree s)" "nt_sc m nt = nt_sc m (fw_nameTree s)" for m
    using pit_erase_views [OF ntinv, where r = r and c = True and k = "fw_nPit ?s3" and a = "fw_nextPit ?s3"] p s2(3)
    by (simp_all add: fw_modify_def)
  have "pit_inv (env_lib E) (nt, k, a)"
    using pit_erase_spec(1) [OF pit, of "fst r" "snd r" True] present p by simp
  moreover from this have "nt_inv nt" by (simp add: pit_inv_def)
  then have "fib_inv (nt, fw_nFib s2)"
    by (rule fib_inv_views [OF fib [unfolded fw_modify_def, simplified]]) (simp add: views s2(3))
  moreover let ?s4 = "?s3\<lparr>fw_nameTree := nt, fw_nPit := k, fw_nextPit := a\<rparr>"
  have face: "valid_face ?s4 g = valid_face s2 g" "entry_ok ?s4 x = entry_ok s2 x" for g x
    by (simp_all add: valid_face_def entry_ok_def)
  have "entry_ok ?s4 x" if "pit_get r' nt = Some x" for r' x
    using that fw_wfD(1) [OF s2(1)] s2(3) face get by (auto simp: fw_tables_def split: if_splits)
  moreover have "fe_nextHops x \<noteq> [] \<and> list_all (\<lambda>nh. valid_face ?s4 (nh_face nh)) (fe_nextHops x)" if "nt_fib q nt = Some x" for q x
    using that fw_wfD(1) [OF s2(1)] s2(3) face views by (auto simp: fw_tables_def)
  ultimately have "fw_tables (env_lib E) ?s4" by (simp add: fw_tables_def fw_modify_def)
  moreover have "strategies_ok E (nt, fw_nSc s2)"
    by (rule strategies_ok_views [OF fw_wfD(5) [OF s2(1)] \<open>nt_inv nt\<close>]) (simp add: views s2(3))
  ultimately have "fw_wf E ?s4" using s2(1,3) by (simp add: fw_wf_def fw_modify_def)
  moreover have "timed ?s4" using t get by (auto simp: timed_def)
  ultimately have "fw_inv E ?s4" by (simp add: fw_inv_def)
  moreover have "sends s ?s4" using s2(5) by (simp add: sends_def fw_modify_def)
  ultimately show ?thesis using e d p get s2(4)
    by (simp add: onInterestFinalize_def Let_def s2_def [symmetric])
qed

section \<open>Matching Data with pending Interests\<close>

lemma fw_modify_inv:
  assumes "fw_inv E s" and "fw_pit s r = Some e" and "entry_change s f e"
  shows "fw_inv E (fw_modify r f s)" and "sends s (fw_modify r f s)"
    and "fw_pit (fw_modify r f s) r' = (if r' = r then Some (f e) else fw_pit s r')"
proof -
  have wf: "fw_wf E s" and t: "timed s" using assms(1) by (simp_all add: fw_inv_def)
  note m = fw_modify_acts [OF fw_wfD(1) [OF wf] assms(2,3)]
  show "fw_inv E (fw_modify r f s)" using acts_wf [OF wf m(1,2)] acts_timed [OF m(2) t] by (simp add: fw_inv_def)
  show "sends s (fw_modify r f s)" by (rule acts_sends [OF m(2)])
  show "fw_pit (fw_modify r f s) r' = (if r' = r then Some (f e) else fw_pit s r')" by (rule m(3))
qed

lemma fold_emplace:
  assumes "sorted ds" and "distinct ds"
  shows "let ds' = fold (\<lambda>x ds. if P x then set_emplace (g x) ds else ds) xs ds
    in sorted ds' \<and> distinct ds' \<and> set ds' = set ds \<union> g ` {x \<in> set xs. P x}"
  using assms
proof (induction xs arbitrary: ds)
  case (Cons x xs)
  let ?ds = "if P x then set_emplace (g x) ds else ds"
  have "sorted ?ds" "distinct ?ds" "set ?ds = set ds \<union> g ` {y. y = x \<and> P y}"
    using Cons.prems by (auto simp: set_emplace_def sorted_insort distinct_insort set_insort_key)
  then show ?case using Cons.IH [of ?ds] by (auto simp: Let_def)
qed (simp add: Let_def)

lemma deleteInRecord_filter:
  "pe_inv e \<Longrightarrow> deleteInRecord f e = e\<lparr>pe_inRecords := filter (\<lambda>y. fr_face y \<noteq> f) (pe_inRecords e)\<rparr>"
  by (simp add: deleteInRecord_def pe_inv_def removeFirst_key_filter)

lemma fold_deleteIn_filter:
  "pe_inv e \<Longrightarrow> fold (\<lambda>x. deleteInRecord (fst x)) xs e =
     e\<lparr>pe_inRecords := filter (\<lambda>y. fr_face y \<notin> fst ` set xs) (pe_inRecords e)\<rparr>"
proof (induction xs arbitrary: e)
  case (Cons x xs)
  then have "pe_inv (deleteInRecord (fst x) e)" by (simp add: nfd_inv)
  from Cons.IH [OF this] show ?case using Cons.prems
    by (simp add: deleteInRecord_filter conj_commute)
qed simp

lemma fold_deleteIn_inv:
  assumes "fw_inv E s" and "fw_pit s r = Some e"
  shows "let s' = fold (\<lambda>x. fw_modify r (deleteInRecord (fst x))) xs s in
    fw_inv E s' \<and> sends s s' \<and> fw_out s' = fw_out s \<and> fw_dnl s' = fw_dnl s \<and>
    (\<forall>r'. fw_pit s' r' = (if r' = r then Some (fold (\<lambda>x. deleteInRecord (fst x)) xs e) else fw_pit s r'))"
  using assms
proof (induction xs arbitrary: s e)
  case (Cons x xs)
  note m = fw_modify_inv [OF Cons.prems entry_change_deleteIn [where f = "fst x"]]
  have "fw_pit (fw_modify r (deleteInRecord (fst x)) s) r = Some (deleteInRecord (fst x) e)" using m(3) [of r] by simp
  from Cons.IH [OF m(1) this] show ?case using m(2,3) sends_trans [OF m(2)] by (simp add: Let_def)
qed (simp add: Let_def)

text \<open>What the loop does to a matched entry, and how other entries may change.\<close>

definition dataDone :: "time \<Rightarrow> data \<Rightarrow> faceRef \<Rightarrow> faceRef set \<Rightarrow> pit_entry \<Rightarrow> pit_entry \<Rightarrow> bool" where
  "dataDone now d ingress fs e e' \<longleftrightarrow> (\<exists>h. e' = deleteOutRecord ingress
     (e\<lparr>pe_info := h, pe_expiryTimer := Some (now + ms 0), pe_isSatisfied := True,
        pe_dataFreshnessPeriod := d_freshnessPeriod d,
        pe_inRecords := filter (\<lambda>y. fr_face y \<notin> fs) (pe_inRecords e)\<rparr>))"

definition sameInfo :: "pit_entry \<Rightarrow> pit_entry \<Rightarrow> bool" where
  "sameInfo e e' \<longleftrightarrow> (\<exists>h. e' = e\<lparr>pe_info := h\<rparr>)"

definition pendingFaces :: "time \<Rightarrow> pit_entry \<Rightarrow> faceRef set" where
  "pendingFaces now e = fr_face ` {x \<in> set (pe_inRecords e). now < fr_expiry x}"

lemma sameInfo_refl [simp]: "sameInfo e e"
  unfolding sameInfo_def by (rule exI [of _ "pe_info e"]) simp

lemma sameInfo_trans: "sameInfo a b \<Longrightarrow> sameInfo b c \<Longrightarrow> sameInfo a c"
  by (auto simp: sameInfo_def)

lemma dataDone_info: "sameInfo e e1 \<Longrightarrow> dataDone now d f fs e1 e2 \<Longrightarrow> dataDone now d f fs e e2"
  by (auto simp: sameInfo_def dataDone_def)

lemma dataDone_then: "dataDone now d f fs e e1 \<Longrightarrow> sameInfo e1 e2 \<Longrightarrow> dataDone now d f fs e e2"
  unfolding sameInfo_def dataDone_def
  by (elim exE) (rule exI, rule pit_entry.equality, simp_all add: deleteOutRecord_def)

lemma satisfyInterest_returns:
  assumes E: "fw_env_laws E" and inv: "fw_inv E s" and e: "fw_pit s r = Some e"
  shows "\<exists>ops s'. effectiveStrategy E r s = Some ops \<and>
    satisfyInterest ops now r f d sat [] s = Some (s', fold (\<lambda>x ds. if now < fr_expiry x then set_emplace (fr_face x, 0) ds else ds)
                        (pe_inRecords e) sat, []) \<and>
    fw_inv E s' \<and> sends s s' \<and> fw_out s' = fw_out s \<and> fw_dnl s' = fw_dnl s \<and> fw_cs s' = fw_cs s \<and>
    (\<forall>r'. rel_option sameInfo (fw_pit s r') (fw_pit s' r'))"
proof -
  have wf: "fw_wf E s" and t: "timed s" using inv by (simp_all add: fw_inv_def)
  obtain ops where ops: "effectiveStrategy E r s = Some ops" "strategy_contract (env_lib E) ops"
    using effectiveStrategy_contract [OF E wf e] by blast
  from strategy_contract.beforeSatisfyInterest_ok [OF ops(2) fw_wfD(1) [OF wf] e, of now d f] obtain s' where
    s': "so_beforeSatisfyInterest ops now d f r s = Some s'" "fw_tables (env_lib E) s'" "fw_acts s s'"
      "fw_out s' = fw_out s" "sameRecords s s'" by (auto elim!: returnsE)
  have "\<forall>r'. rel_option sameInfo (fw_pit s r') (fw_pit s' r')"
    using s'(5) by (simp add: sameRecords_def sameInfo_def [abs_def])
  moreover have "fw_dnl s' = fw_dnl s" "fw_cs s' = fw_cs s" using s'(3) by (simp_all add: fw_acts_def fw_frame_def)
  ultimately show ?thesis
    using ops(1) e s'(1,4) acts_wf [OF wf s'(2,3)] acts_timed [OF s'(3) t] acts_sends [OF s'(3)]
    by (simp add: satisfyInterest_def fw_inv_def)
qed

lemma rel_option_Some_left: "rel_option R (Some x) m \<longleftrightarrow> (\<exists>y. m = Some y \<and> R x y)"
  by (cases m) simp_all

lemma onDataMatch_spec:
  assumes E: "fw_env_laws E" and inv: "fw_inv E s" and e: "fw_pit s r = Some e" and d: "0 \<le> d_freshnessPeriod d"
    and sat: "sorted sat" "distinct sat"
  shows "\<exists>s' sat' e'. onDataMatch E now d f r (s, sat, []) = Some (s', sat', []) \<and> fw_inv E s' \<and> sends s s' \<and>
    fw_out s' = fw_out s \<and> fw_cs s' = fw_cs s \<and> sorted sat' \<and> distinct sat' \<and>
    set sat' = set sat \<union> pendingFaces now e \<times> {0} \<and>
    (\<forall>r'. r' \<noteq> r \<longrightarrow> rel_option sameInfo (fw_pit s r') (fw_pit s' r')) \<and>
    fw_pit s' r = Some e' \<and> dataDone now d f (fst ` set sat') e e'"
proof -
  define sat' where "sat' = fold (\<lambda>x ds. if now < fr_expiry x then set_emplace (fr_face x, 0 :: nat) ds else ds) (pe_inRecords e) sat"
  have sat': "sorted sat'" "distinct sat'" "set sat' = set sat \<union> pendingFaces now e \<times> {0}"
    using fold_emplace [OF sat, of "\<lambda>x. now < fr_expiry x" "\<lambda>x. (fr_face x, 0 :: nat)" "pe_inRecords e"]
    by (auto simp: sat'_def Let_def pendingFaces_def)
  obtain ops s1 where s1: "effectiveStrategy E r s = Some ops" "satisfyInterest ops now r f d sat [] s = Some (s1, sat', [])"
      "fw_inv E s1" "sends s s1" "fw_out s1 = fw_out s" "fw_cs s1 = fw_cs s" "\<forall>r'. rel_option sameInfo (fw_pit s r') (fw_pit s1 r')"
    using satisfyInterest_returns [OF E inv e, of now f d sat] unfolding sat'_def by (elim exE conjE) blast
  from s1(7) [rule_format, of r] e obtain h where e1: "fw_pit s1 r = Some (e\<lparr>pe_info := h\<rparr>)"
    by (auto simp: rel_option_Some_left sameInfo_def)
  let ?s2 = "setExpiryTimer now r 0 s1" and ?e2 = "e\<lparr>pe_info := h, pe_expiryTimer := Some (now + ms 0)\<rparr>"
  note s2 = fw_modify_inv [OF s1(3) e1 entry_change_timer [where t = "now + ms 0"]]
  have s2': "fw_inv E ?s2" "sends s1 ?s2" "fw_pit ?s2 r' = (if r' = r then Some ?e2 else fw_pit s1 r')" for r'
    using s2 by (simp_all add: setExpiryTimer_def)
  have e2: "fw_pit ?s2 r = Some ?e2" using s2'(3) by simp
  let ?s3 = "fw_modify r (\<lambda>e. e\<lparr>pe_isSatisfied := True\<rparr>) ?s2" and ?e3 = "?e2\<lparr>pe_isSatisfied := True\<rparr>"
  note s3 = fw_modify_inv [OF s2'(1) e2 entry_change_satisfied [where b = True]]
  have e3: "fw_pit ?s3 r = Some ?e3" using s3(3) by simp
  have T3: "fw_tables (env_lib E) ?s3" using s3(1) by (simp add: fw_inv_def fw_wf_def)
  obtain dnl where dnl: "insertDeadNonceList E r (Some f) ?s3 = Some (?s3\<lparr>fw_dnl := dnl\<rparr>)"
    using insertDeadNonceList_returns [OF E T3 e3] by blast
  let ?s4 = "?s3\<lparr>fw_dnl := dnl\<rparr>"
  have i4: "fw_inv E ?s4" "fw_pit ?s4 r = Some ?e3" using s3(1) e3 by simp_all
  let ?s5 = "fw_modify r (\<lambda>e. e\<lparr>pe_dataFreshnessPeriod := d_freshnessPeriod d\<rparr>) ?s4"
    and ?e5 = "?e3\<lparr>pe_dataFreshnessPeriod := d_freshnessPeriod d\<rparr>"
  note s5 = fw_modify_inv [OF i4 entry_change_freshness(1) [OF d]]
  have e5: "fw_pit ?s5 r = Some ?e5" using s5(3) by simp
  let ?s6 = "fold (\<lambda>x. fw_modify r (deleteInRecord (fst x))) sat' ?s5" and ?e6 = "fold (\<lambda>x. deleteInRecord (fst x)) sat' ?e5"
  note s6 = fold_deleteIn_inv [OF s5(1) e5, of sat', unfolded Let_def]
  have i6: "fw_inv E ?s6" "fw_pit ?s6 r = Some ?e6" using s6 by simp_all
  let ?s7 = "fw_modify r (deleteOutRecord f) ?s6"
  note s7 = fw_modify_inv [OF i6 entry_change_deleteOut [where f = f]]
  have T5: "fw_tables (env_lib E) ?s5" using s5(1) by (simp add: fw_inv_def fw_wf_def)
  have dd: "dataDone now d f (fst ` set sat') e (deleteOutRecord f ?e6)"
    unfolding dataDone_def fold_deleteIn_filter [OF fw_tables_entry(2) [OF T5 e5]] by (rule exI [of _ h]) simp
  have e7: "fw_pit ?s7 r = Some (deleteOutRecord f ?e6)" using s7(3) by simp
  have other: "\<forall>r'. r' \<noteq> r \<longrightarrow> rel_option sameInfo (fw_pit s r') (fw_pit ?s7 r')"
  proof (intro allI impI)
    fix r'
    assume "r' \<noteq> r"
    then have "fw_pit ?s7 r' = fw_pit s1 r'"
      using s7(3) [of r'] s6 s5(3) [of r'] s3(3) [of r'] s2'(3) [of r'] by simp
    then show "rel_option sameInfo (fw_pit s r') (fw_pit ?s7 r')" using s1(7) by simp
  qed
  have "sends ?s3 ?s4" by (simp add: sends_def)
  moreover have "sends ?s5 ?s6" using s6 by simp
  ultimately have snd: "sends s ?s7"
    by (rule sends_trans [OF s1(4) sends_trans [OF s2'(2) sends_trans [OF s3(2)
        sends_trans [OF _ sends_trans [OF s5(2) sends_trans [OF _ s7(2)]]]]]])
  have "fw_cs (fold (\<lambda>x. fw_modify r (deleteInRecord (fst x))) xs t) = fw_cs t" for xs :: "downstream list" and t
    by (induction xs arbitrary: t) simp_all
  then have cs: "fw_cs ?s7 = fw_cs s" using s1(6) by (simp add: setExpiryTimer_def)
  have out: "fw_out ?s7 = fw_out s" using s6 s1(5) by simp
  have run: "onDataMatch E now d f r (s, sat, []) = Some (?s7, sat', [])"
    using s1(1,2) dnl by (simp add: onDataMatch_def Let_def)
  show ?thesis by (intro exI conjI) (rule run s7(1) snd out cs sat' other e7 dd)+
qed

definition pendingAt :: "time \<Rightarrow> forwarder \<Rightarrow> pitRef \<Rightarrow> faceRef set" where
  "pendingAt now s r = (case fw_pit s r of None \<Rightarrow> {} | Some e \<Rightarrow> pendingFaces now e)"

definition matchedAt :: "time \<Rightarrow> data \<Rightarrow> faceRef \<Rightarrow> forwarder \<Rightarrow> forwarder \<Rightarrow> pitRef \<Rightarrow> bool" where
  "matchedAt now d f s s' r \<longleftrightarrow> (\<exists>e e' fs. fw_pit s r = Some e \<and> fw_pit s' r = Some e' \<and>
     pendingFaces now e \<subseteq> fs \<and> dataDone now d f fs e e')"

lemma pendingAt_info: "rel_option sameInfo (fw_pit s r) (fw_pit s' r) \<Longrightarrow> pendingAt now s' r = pendingAt now s r"
  by (auto simp: pendingAt_def pendingFaces_def sameInfo_def split: option.splits)

lemma pendingFaces_info: "sameInfo e e' \<Longrightarrow> pendingFaces now e' = pendingFaces now e"
  by (auto simp: sameInfo_def pendingFaces_def)

lemma matchedAt_before:
  assumes "rel_option sameInfo (fw_pit s r) (fw_pit s1 r)" and "matchedAt now d f s1 s' r"
  shows "matchedAt now d f s s' r"
proof -
  obtain e1 e' fs where m: "fw_pit s1 r = Some e1" "fw_pit s' r = Some e'" "pendingFaces now e1 \<subseteq> fs" "dataDone now d f fs e1 e'"
    using assms(2) by (auto simp: matchedAt_def)
  obtain e where e: "fw_pit s r = Some e" "sameInfo e e1" using assms(1) m(1) by (auto simp: option_rel_Some2)
  then show ?thesis unfolding matchedAt_def using m dataDone_info [OF e(2) m(4)] pendingFaces_info [OF e(2)] by blast
qed

lemma matchedAt_after:
  assumes "matchedAt now d f s s1 r" and "rel_option sameInfo (fw_pit s1 r) (fw_pit s' r)"
  shows "matchedAt now d f s s' r"
proof -
  obtain e e1 fs where m: "fw_pit s r = Some e" "fw_pit s1 r = Some e1" "pendingFaces now e \<subseteq> fs" "dataDone now d f fs e e1"
    using assms(1) by (auto simp: matchedAt_def)
  obtain e' where e': "fw_pit s' r = Some e'" "sameInfo e1 e'" using assms(2) m(2) by (auto simp: option_rel_Some1)
  then show ?thesis unfolding matchedAt_def using m dataDone_then [OF m(4) e'(2)] by blast
qed

lemma rel_sameInfo_refl [simp]: "rel_option sameInfo m m"
  by (simp add: rel_option_refl')

lemma rel_sameInfo_trans: "rel_option sameInfo a b \<Longrightarrow> rel_option sameInfo b c \<Longrightarrow> rel_option sameInfo a c"
  by (cases a; cases b; cases c) (auto intro: sameInfo_trans)

lemma dataMatchLoop_spec:
  assumes E: "fw_env_laws E" and d: "0 \<le> d_freshnessPeriod d"
  shows "fw_inv E s \<Longrightarrow> distinct rs \<Longrightarrow> \<forall>r \<in> set rs. fw_pit s r \<noteq> None \<Longrightarrow> sorted sat \<Longrightarrow> distinct sat \<Longrightarrow>
    \<exists>s' sat'. dataMatchLoop E now d f rs (s, sat, []) = Some (s', sat', []) \<and> fw_inv E s' \<and> sends s s' \<and>
    fw_out s' = fw_out s \<and> fw_cs s' = fw_cs s \<and> sorted sat' \<and> distinct sat' \<and>
    set sat' = set sat \<union> (\<Union>r \<in> set rs. pendingAt now s r) \<times> {0} \<and>
    (\<forall>r. r \<notin> set rs \<longrightarrow> rel_option sameInfo (fw_pit s r) (fw_pit s' r)) \<and>
    (\<forall>r \<in> set rs. matchedAt now d f s s' r)"
proof (induction rs arbitrary: s sat)
  case Nil
  then show ?case by simp
next
  case (Cons r rs)
  have r: "r \<notin> set rs" "distinct rs" using Cons.prems(2) by simp_all
  obtain e where e: "fw_pit s r = Some e" using Cons.prems(3) by auto
  from onDataMatch_spec [OF E Cons.prems(1) e d Cons.prems(4,5), of now f] obtain s1 sat1 e1 where
    c: "onDataMatch E now d f r (s, sat, []) = Some (s1, sat1, []) \<and> fw_inv E s1 \<and> sends s s1 \<and>
      fw_out s1 = fw_out s \<and> fw_cs s1 = fw_cs s \<and> sorted sat1 \<and> distinct sat1 \<and>
      set sat1 = set sat \<union> pendingFaces now e \<times> {0} \<and>
      (\<forall>r'. r' \<noteq> r \<longrightarrow> rel_option sameInfo (fw_pit s r') (fw_pit s1 r')) \<and>
      fw_pit s1 r = Some e1 \<and> dataDone now d f (fst ` set sat1) e e1" by (elim exE)
  have s1: "onDataMatch E now d f r (s, sat, []) = Some (s1, sat1, [])" "fw_inv E s1" "sends s s1"
    "fw_out s1 = fw_out s" "fw_cs s1 = fw_cs s" "sorted sat1" "distinct sat1" "set sat1 = set sat \<union> pendingFaces now e \<times> {0}"
    "fw_pit s1 r = Some e1" "dataDone now d f (fst ` set sat1) e e1"
    using c by - (elim conjE, assumption)+
  have o1: "rel_option sameInfo (fw_pit s r') (fw_pit s1 r')" if "r' \<noteq> r" for r' using c that by blast
  have pres: "\<forall>r' \<in> set rs. fw_pit s1 r' \<noteq> None"
  proof
    fix r'
    assume r': "r' \<in> set rs"
    then have "r' \<noteq> r" using r(1) by blast
    moreover have "fw_pit s r' \<noteq> None" using Cons.prems(3) r' by simp
    ultimately show "fw_pit s1 r' \<noteq> None" using o1 [of r'] by (auto simp: option_rel_Some1)
  qed
  from Cons.IH [OF s1(2) r(2) pres s1(6,7)] obtain s' sat' where
    i: "dataMatchLoop E now d f rs (s1, sat1, []) = Some (s', sat', []) \<and> fw_inv E s' \<and> sends s1 s' \<and>
      fw_out s' = fw_out s1 \<and> fw_cs s' = fw_cs s1 \<and> sorted sat' \<and> distinct sat' \<and>
      set sat' = set sat1 \<union> (\<Union>r \<in> set rs. pendingAt now s1 r) \<times> {0} \<and>
      (\<forall>r. r \<notin> set rs \<longrightarrow> rel_option sameInfo (fw_pit s1 r) (fw_pit s' r)) \<and>
      (\<forall>r \<in> set rs. matchedAt now d f s1 s' r)" by (elim exE)
  have pend: "pendingAt now s1 r' = pendingAt now s r'" if "r' \<in> set rs" for r'
    using pendingAt_info [OF o1 [of r']] that r(1) by blast
  have "set sat' = set sat1 \<union> (\<Union>r \<in> set rs. pendingAt now s r) \<times> {0}" using i pend by simp
  then have sat': "set sat' = set sat \<union> (\<Union>r \<in> set (r # rs). pendingAt now s r) \<times> {0}"
    using s1(8) e by (auto simp: pendingAt_def)
  have other: "\<forall>r'. r' \<notin> set (r # rs) \<longrightarrow> rel_option sameInfo (fw_pit s r') (fw_pit s' r')"
    using o1 i rel_sameInfo_trans by (metis list.set_intros(1,2))
  have "pendingFaces now e \<subseteq> fst ` set sat1" unfolding s1(8) image_Un by force
  then have "matchedAt now d f s s1 r" unfolding matchedAt_def using e s1(9,10) by blast
  moreover have "rel_option sameInfo (fw_pit s1 r) (fw_pit s' r)" using i r(1) by blast
  ultimately have "matchedAt now d f s s' r" by (rule matchedAt_after)
  moreover have "matchedAt now d f s s' r'" if "r' \<in> set rs" for r'
    by (rule matchedAt_before [OF o1]) (use that r(1) i in auto)
  ultimately have all: "\<forall>r' \<in> set (r # rs). matchedAt now d f s s' r'" by simp
  have run: "dataMatchLoop E now d f (r # rs) (s, sat, []) = Some (s', sat', [])" using s1(1) i by simp
  have rest: "fw_inv E s'" "sends s s'" "fw_out s' = fw_out s" "fw_cs s' = fw_cs s" "sorted sat'" "distinct sat'"
    using i s1(3-5) sends_trans [OF s1(3)] by simp_all
  show ?case by (intro exI conjI) (rule run rest sat' other all)+
qed

section \<open>Sending Data downstream\<close>

definition takesData :: "(faceRef \<Rightarrow> face) \<Rightarrow> data \<Rightarrow> faceRef \<Rightarrow> nat \<Rightarrow> downstream \<Rightarrow> bool" where
  "takesData F d ingress endpoint x \<longleftrightarrow>
     \<not> (f_id (F (fst x)) = f_id (F ingress) \<and> snd x = endpoint \<and> f_linkType (F (fst x)) \<noteq> LINK_TYPE_AD_HOC) \<and>
     f_id (F (fst x)) \<noteq> INVALID_FACEID \<and> \<not> (f_scope (F (fst x)) = FACE_SCOPE_NON_LOCAL \<and> prefix LOCALHOST (d_name d))"

lemma dataDownstream_spec:
  "fw_inv E (dataDownstream d f ep x s) = fw_inv E s"
  "fw_nameTree (dataDownstream d f ep x s) = fw_nameTree s" "fw_cs (dataDownstream d f ep x s) = fw_cs s"
  "sends s (dataDownstream d f ep x s)"
  "fw_out (dataDownstream d f ep x s) = fw_out s @ (if takesData (fw_face s) d f ep x then [SendData (fst x) d] else [])"
proof -
  show "fw_inv E (dataDownstream d f ep x s) = fw_inv E s" "fw_nameTree (dataDownstream d f ep x s) = fw_nameTree s"
    "fw_cs (dataDownstream d f ep x s) = fw_cs s"
    by (simp_all add: dataDownstream_def onOutgoingData_def)
  show "sends s (dataDownstream d f ep x s)"
    using acts_sends [OF onOutgoingData_acts(2)] by (simp add: dataDownstream_def)
  show "fw_out (dataDownstream d f ep x s) = fw_out s @ (if takesData (fw_face s) d f ep x then [SendData (fst x) d] else [])"
    by (simp add: dataDownstream_def onOutgoingData_def takesData_def)
qed

lemma fold_dataDownstream:
  "let s' = fold (dataDownstream d f ep) xs s in
    fw_inv E s' = fw_inv E s \<and> fw_nameTree s' = fw_nameTree s \<and> fw_cs s' = fw_cs s \<and> sends s s' \<and>
    fw_out s' = fw_out s @ map (\<lambda>x. SendData (fst x) d) (filter (takesData (fw_face s) d f ep) xs)"
proof (induction xs arbitrary: s)
  case (Cons x xs)
  note x = dataDownstream_spec [where d = d and f = f and ep = ep and x = x and s = s]
  have "fw_face (dataDownstream d f ep x s) = fw_face s" using x(4) by (simp add: sends_def)
  then show ?case using Cons.IH [of "dataDownstream d f ep x s"] x sends_trans [OF x(4)] by (simp add: Let_def)
qed (simp add: Let_def)

section \<open>The incoming Data pipeline\<close>

lemma onDataUnsolicited_inv:
  assumes E: "fw_env_laws E" and inv: "fw_inv E s" and d: "plainName (env_lib E) (d_name d)" "0 \<le> d_freshnessPeriod d"
  shows "returns (onDataUnsolicited E now d f s) (\<lambda>s'. fw_inv E s' \<and> sends s s' \<and> fw_out s' = fw_out s \<and>
    fw_nameTree s' = fw_nameTree s)"
proof -
  have wf: "fw_wf E s" and t: "timed s" using inv by (simp_all add: fw_inv_def)
  obtain cs where cs: "cs_insert policyOps (env_lib E) now d True (fw_cs s) = Some cs" "store_ok (env_lib E) cs"
    using store_insert [OF fw_env_laws.axioms(1) [OF E] fw_wfD(4) [OF wf] d] by blast
  then show ?thesis using inv fw_wf_cs [OF wf cs(2)] t
    by (simp add: onDataUnsolicited_def sends_def fw_inv_def)
qed

lemma onIncomingData_spec:
  fixes f :: faceRef and d :: data and s :: forwarder
  assumes E: "fw_env_laws E" and inv: "fw_inv E s"
    and d: "plainName (env_lib E) (d_name d)" "0 \<le> d_freshnessPeriod d"
  defines "d' \<equiv> d\<lparr>d_incomingFaceId := Some (f_id (fw_face s f))\<rparr>"
  defines "matches \<equiv> {r. \<exists>e. fw_pit s r = Some e \<and> matchesData (env_lib E) (pe_interest e) d'}"
  shows "returns (onIncomingData E now d f ep s) (\<lambda>s'. fw_inv E s' \<and> sends s s' \<and>
    (if f_scope (fw_face s f) = FACE_SCOPE_NON_LOCAL \<and> prefix LOCALHOST (d_name d)
     then fw_out s' = fw_out s \<and> fw_nameTree s' = fw_nameTree s
     else (\<exists>sat. fw_out s' = fw_out s @ map (\<lambda>x. SendData (fst x) d') (filter (takesData (fw_face s) d' f ep) sat) \<and>
             sorted sat \<and> distinct sat \<and> set sat = (\<Union>r \<in> matches. pendingAt now s r) \<times> {0}) \<and>
          (\<forall>r. if r \<in> matches then matchedAt now d' f s s' r else rel_option sameInfo (fw_pit s r) (fw_pit s' r))))"
    (is "returns _ (\<lambda>s'. _ \<and> _ \<and> (if ?bad then _ else ?sent s' \<and> ?pit s'))")
proof -
  let ?s0 = "fw_count (\<lambda>c. c\<lparr>nInData := nInData c + 1\<rparr>) s"
  let ?rs = "pit_findAllDataMatches (env_lib E) d' (fw_nameTree s)"
  have d': "plainName (env_lib E) (d_name d')" "0 \<le> d_freshnessPeriod d'" "d_name d' = d_name d" using d by (simp_all add: d'_def)
  have inv0: "fw_inv E ?s0" and wf0: "fw_wf E ?s0" using inv by (simp_all add: fw_inv_def)
  have L: "cs_lib_laws (env_lib E)" by (rule fw_env_laws.axioms(1) [OF E])
  have pit: "pit_inv (env_lib E) (fw_nameTree s, fw_nPit s, fw_nextPit s)" using inv by (simp add: fw_inv_def fw_wf_def fw_tables_def)
  have rs: "distinct ?rs" "set ?rs = matches"
    using findAllDataMatches_aux [OF cs_lib_laws.axioms(1) [OF L] pit] by (auto simp: matches_def)
  show ?thesis
  proof (cases ?bad)
    case True
    then show ?thesis using inv0 d'(3) by (simp add: onIncomingData_def Let_def d'_def)
  next
    case good: False
    show ?thesis
    proof (cases "?rs = []")
      case True
      then have none: "matches = {}" using rs(2) by simp
      have "returns (onDataUnsolicited E now d' f ?s0) (\<lambda>s'. fw_inv E s' \<and> sends s s' \<and> ?sent s' \<and> ?pit s')"
        using onDataUnsolicited_inv [OF E inv0 d'(1,2), of now f]
        by (rule returns_mono) (use none sends_trans [OF sends_count] in \<open>auto intro!: exI [of _ "[]"]\<close>)
      moreover have "onIncomingData E now d f ep s = onDataUnsolicited E now d' f ?s0"
        using good True by (auto simp: onIncomingData_def Let_def d'_def)
      ultimately show ?thesis unfolding if_not_P [OF good] by simp
    next
      case False
      obtain cs where cs: "cs_insert policyOps (env_lib E) now d' False (fw_cs ?s0) = Some cs" "store_ok (env_lib E) cs"
        using store_insert [OF L fw_wfD(4) [OF wf0] d'(1,2)] by blast
      let ?s1 = "?s0\<lparr>fw_cs := cs\<rparr>"
      have s1: "fw_inv E ?s1" "sends s ?s1" "fw_nameTree ?s1 = fw_nameTree s" "fw_face ?s1 = fw_face s" "fw_out ?s1 = fw_out s"
        using fw_wf_cs [OF wf0 cs(2)] inv0 by (simp_all add: fw_inv_def sends_def)
      have pres: "\<forall>r \<in> set ?rs. fw_pit ?s1 r \<noteq> None" unfolding rs(2) s1(3) by (auto simp: matches_def)
      have nil: "sorted ([] :: downstream list)" "distinct ([] :: downstream list)" by simp_all
      from dataMatchLoop_spec [where now = now and f = f, OF E d'(2) s1(1) rs(1) pres nil]
      obtain s2 sat where
        c: "dataMatchLoop E now d' f ?rs (?s1, [], []) = Some (s2, sat, []) \<and> fw_inv E s2 \<and> sends ?s1 s2 \<and>
          fw_out s2 = fw_out ?s1 \<and> fw_cs s2 = fw_cs ?s1 \<and> sorted sat \<and> distinct sat \<and>
          set sat = set [] \<union> (\<Union>r \<in> set ?rs. pendingAt now ?s1 r) \<times> {0} \<and>
          (\<forall>r. r \<notin> set ?rs \<longrightarrow> rel_option sameInfo (fw_pit ?s1 r) (fw_pit s2 r)) \<and>
          (\<forall>r \<in> set ?rs. matchedAt now d' f ?s1 s2 r)" by (elim exE)
      let ?s3 = "fold (dataDownstream d' f ep) sat s2"
      have F2: "fw_face s2 = fw_face s" using c s1(4) by (simp add: sends_def)
      have s3: "fw_inv E ?s3" "fw_nameTree ?s3 = fw_nameTree s2" "sends s2 ?s3"
        "fw_out ?s3 = fw_out s @ map (\<lambda>x. SendData (fst x) d') (filter (takesData (fw_face s) d' f ep) sat)"
        using fold_dataDownstream [where d = d' and f = f and ep = ep and xs = sat and s = s2 and E = E] c s1(5) F2 by (simp_all add: Let_def)
      have "pendingAt now ?s1 r = pendingAt now s r" for r by (simp add: pendingAt_def)
      then have set: "sorted sat" "distinct sat" "set sat = (\<Union>r \<in> matches. pendingAt now s r) \<times> {0}" using c rs(2) by simp_all
      have "?pit ?s3"
        using c unfolding rs(2) matchedAt_def s3(2) s1(3) by auto
      moreover have "?sent ?s3" using s3(4) set by blast
      moreover have "sends s ?s3" using sends_trans [OF s1(2) sends_trans [OF _ s3(3)]] c by blast
      moreover have "onIncomingData E now d f ep s = Some ?s3"
        using good False cs(1) c by (auto simp: onIncomingData_def Let_def d'_def)
      ultimately show ?thesis unfolding if_not_P [OF good] using s3(1) by simp
    qed
  qed
qed

end
