(* ===== verification/FwTables.thy ===== *)
theory FwTables
  imports FwData
begin

text \<open>
  The Nack pipeline, the reaction to a new next hop, and the effect of adding and removing faces
  and routes on the invariant of the forwarder.
\<close>

section \<open>The Nack pipeline\<close>

lemma pit_find_get:
  assumes inv: "pit_inv L (nt, k, a)" and f: "pit_find L i (nt, k, a) = Some r"
  shows "\<exists>e. pit_get r nt = Some e \<and> pe_key e = i_key i"
proof -
  have wf: "pit_wf L a nt" using inv by (simp add: pit_inv_def)
  let ?n = "nteName L (i_name i)"
  obtain e where e: "find (\<lambda>e. pe_key e = i_key i) (nt_pits ?n nt) = Some e" "r = (?n, pe_id e)"
    using f unfolding pit_find_def pit_find_spec [OF inv] by auto
  then have "e \<in> set (nt_pits ?n nt)" "pe_key e = i_key i" using find_Some_iff2 [OF e(1)] by auto
  then show ?thesis using pit_get_Some_iff [OF wf, of ?n "pe_id e" e] e(2) by auto
qed

lemma onIncomingNack_inv:
  assumes E: "fw_env_laws E" and inv: "fw_inv E s"
  shows "returns (onIncomingNack E now n f s) (\<lambda>s'. fw_inv E s' \<and> sends s s')"
proof -
  let ?s0 = "fw_count (\<lambda>c. c\<lparr>nInNacks := nInNacks c + 1\<rparr>) s"
  have inv0: "fw_inv E ?s0" using inv by simp
  have pit: "pit_inv (env_lib E) (fw_nameTree ?s0, fw_nPit ?s0, fw_nextPit ?s0)"
    using inv0 by (simp add: fw_inv_def fw_wf_def fw_tables_def)
  show ?thesis
  proof (cases "pit_find (env_lib E) (n_interest n) (fw_nameTree ?s0, fw_nPit ?s0, fw_nextPit ?s0)")
    case None
    then show ?thesis using inv0 by (simp add: onIncomingNack_def Let_def)
  next
    case (Some r)
    from pit_find_get [OF pit Some] obtain e where e: "fw_pit ?s0 r = Some e" by blast
    let ?g = "\<lambda>x. fst (setIncomingNack n x)"
    have ch: "entry_change ?s0 (updateOutRecord f ?g) e"
      by (rule entry_change_updateOut) (simp_all add: setIncomingNack_def)
    let ?s1 = "fw_modify r (updateOutRecord f ?g) ?s0" and ?e1 = "updateOutRecord f ?g e"
    note s1 = fw_modify_inv [OF inv0 e ch]
    have e1: "fw_pit ?s1 r = Some ?e1" using s1(3) by simp
    let ?s2 = "if \<not> hasPendingOutRecords now ?e1 then setExpiryTimer now r 0 ?s1 else ?s1"
    have wf1: "fw_wf E ?s1" and t1: "timed_but r ?s1" using s1(1) timed_timed_but by (auto simp: fw_inv_def)
    note t = setExpiryTimer_inv [OF wf1 e1 t1, of now 0]
    have s2: "fw_inv E ?s2" "sends ?s1 ?s2" "\<exists>x. fw_pit ?s2 r = Some x" using s1(1) e1 t by simp_all
    from s2(3) obtain e2 where e2: "fw_pit ?s2 r = Some e2" by blast
    have wf2: "fw_wf E ?s2" using s2(1) unfolding fw_inv_def by (rule conjunct1)
    obtain ops where ops: "effectiveStrategy E r ?s2 = Some ops" "strategy_contract (env_lib E) ops"
      using effectiveStrategy_contract [OF E wf2 e2] by blast
    have snd: "sends s ?s2" by (rule sends_trans [OF sends_count sends_trans [OF s1(2) s2(2)]])
    have "returns (so_afterReceiveNack ops now n f r ?s2) (\<lambda>s'. fw_inv E s' \<and> sends s s')"
      by (rule sends_then [OF snd acting_inv [OF s2(1)
            strategy_contract.afterReceiveNack_ok [OF ops(2) fw_wfD(1) [OF wf2] e2]]])
    then show ?thesis using inv0 Some e e1 ops(1)
      by (simp add: onIncomingNack_def Let_def split: option.split)
  qed
qed

section \<open>New next hops\<close>

lemma newNextHopLoop_inv:
  assumes E: "fw_env_laws E"
  shows "fw_inv E s \<Longrightarrow> \<forall>r \<in> set rs. fw_pit s r \<noteq> None \<Longrightarrow> valid_face s (nh_face nh) \<Longrightarrow>
    returns (newNextHopLoop E now nh rs s) (\<lambda>s'. fw_inv E s' \<and> sends s s')"
proof (induction rs arbitrary: s)
  case (Cons r rs)
  obtain e where e: "fw_pit s r = Some e" using Cons.prems(2) by auto
  have wf: "fw_wf E s" using Cons.prems(1) by (simp add: fw_inv_def)
  obtain ops where ops: "effectiveStrategy E r s = Some ops" "strategy_contract (env_lib E) ops"
    using effectiveStrategy_contract [OF E wf e] by blast
  note a = strategy_contract.afterNewNextHop_ok [OF ops(2) fw_wfD(1) [OF wf] e Cons.prems(3), of now]
  then obtain s1 where s1: "so_afterNewNextHop ops now nh r s = Some s1" "fw_acts s s1"
    by (auto simp: acting_def elim: returnsE)
  have inv1: "fw_inv E s1" "sends s s1" using acting_inv [OF Cons.prems(1) a] s1(1) by simp_all
  have "fw_pit s1 q \<noteq> None" if "q \<in> set rs" for q
    using Cons.prems(2) that fw_acts_pit [OF s1(2), of q] by (cases "fw_pit s q") auto
  then have "returns (newNextHopLoop E now nh rs s1) (\<lambda>s'. fw_inv E s' \<and> sends s1 s')"
    using Cons.IH [OF inv1(1)] Cons.prems(3) sends_valid [OF inv1(2)] by simp
  then show ?case using ops(1) s1(1) sends_then [OF inv1(2)] by simp
qed simp

lemma onNewNextHop_inv:
  assumes E: "fw_env_laws E" and inv: "fw_inv E s" and nh: "valid_face s (nh_face nh)"
  shows "returns (onNewNextHop E now pfx nh s) (\<lambda>s'. fw_inv E s' \<and> sends s s')"
proof -
  have wf: "fw_wf E s" using inv by (simp add: fw_inv_def)
  obtain ns where ns: "partialEnumerate pfx (newNextHopSelector pfx) (fw_nameTree s) = Some ns"
    using partialEnumerate_aux [OF fw_wfD(2) [OF wf]] by blast
  let ?rs = "concat (map (\<lambda>n. map (\<lambda>e. (n, pe_id e)) (nt_pits n (fw_nameTree s))) ns)"
  have "pit_wf (env_lib E) (fw_nextPit s) (fw_nameTree s)" using fw_wfD(1) [OF wf] by (simp add: fw_tables_def pit_inv_def)
  note get = pit_get_Some_iff [OF this]
  have "fw_pit s r \<noteq> None" if "r \<in> set ?rs" for r
  proof -
    from that obtain n e where "e \<in> set (nt_pits n (fw_nameTree s))" "r = (n, pe_id e)" by auto
    then have "fw_pit s r = Some e" using get [of n "pe_id e" e] by simp
    then show ?thesis by simp
  qed
  then show ?thesis using newNextHopLoop_inv [OF E inv _ nh, of ?rs now] ns by (simp add: onNewNextHop_def)
qed

section \<open>Routes\<close>

text \<open>The next hops of all FIB entries, in terms of the routing table.\<close>

definition routes_ok :: "forwarder \<Rightarrow> nameTree \<Rightarrow> bool" where
  "routes_ok s nt \<longleftrightarrow> (\<forall>p m. fib_routes nt p = Some m \<longrightarrow> m \<noteq> Map.empty \<and> (\<forall>f \<in> dom m. valid_face s f))"

lemma dom_fe_costs: "dom (fe_costs e) = nh_face ` set (fe_nextHops e)"
  by (simp add: fe_costs_def dom_map_of_conv_image_fst image_image)

lemma hops_ok_iff:
  "fe_nextHops e \<noteq> [] \<and> list_all (\<lambda>nh. valid_face s (nh_face nh)) (fe_nextHops e) \<longleftrightarrow>
   fe_costs e \<noteq> Map.empty \<and> (\<forall>f \<in> dom (fe_costs e). valid_face s f)"
  by (simp add: dom_fe_costs fe_costs_empty fe_hasNextHops_def list_all_iff)

lemma fw_tables_iff:
  "fw_tables L s \<longleftrightarrow> pit_inv L (fw_nameTree s, fw_nPit s, fw_nextPit s) \<and> fib_inv (fw_nameTree s, fw_nFib s) \<and>
     (\<forall>r e. fw_pit s r = Some e \<longrightarrow> entry_ok s e) \<and> routes_ok s (fw_nameTree s)"
proof -
  have "routes_ok s nt \<longleftrightarrow> (\<forall>p e. nt_fib p nt = Some e \<longrightarrow> fe_costs e \<noteq> Map.empty \<and> (\<forall>f \<in> dom (fe_costs e). valid_face s f))" for nt
    by (auto simp: routes_ok_def fib_routes_def)
  then show ?thesis unfolding fw_tables_def hops_ok_iff by simp
qed

text \<open>An operation on the FIB that leaves the other tables alone.\<close>

lemma fib_change_inv:
  assumes inv: "fw_inv E s" and fib: "fib_inv (nt, k)" and r: "routes_ok s nt"
    and v: "\<And>m. nt_pits m nt = nt_pits m (fw_nameTree s)" "\<And>m. nt_sc m nt = nt_sc m (fw_nameTree s)"
  shows "fw_inv E (s\<lparr>fw_nameTree := nt, fw_nFib := k\<rparr>)"
proof -
  let ?s = "s\<lparr>fw_nameTree := nt, fw_nFib := k\<rparr>"
  have wf: "fw_wf E s" and t: "timed s" using inv by (simp_all add: fw_inv_def)
  note T = fw_wfD(1) [OF wf, unfolded fw_tables_iff]
  have n: "nt_inv nt" using fib by (simp add: fib_inv_def)
  have get: "pit_get r nt = fw_pit s r" for r by (simp add: pit_get_def v(1))
  have "pit_inv (env_lib E) (nt, fw_nPit s, fw_nextPit s)" by (rule pit_inv_views [OF _ n v(1)]) (use T in simp)
  moreover have "entry_ok ?s x = entry_ok s x" "valid_face ?s g = valid_face s g" for x g
    by (simp_all add: entry_ok_def valid_face_def)
  ultimately have "fw_tables (env_lib E) ?s"
    using T fib r get unfolding fw_tables_iff by (simp add: routes_ok_def)
  moreover have "strategies_ok E (nt, fw_nSc s)" by (rule strategies_ok_views [OF fw_wfD(5) [OF wf] n v(2)])
  ultimately show ?thesis using wf t get by (simp add: fw_inv_def fw_wf_def timed_def)
qed

section \<open>Faces\<close>

lemma ft_add_faces:
  "ft_add f t = Some t' \<Longrightarrow> f_id (ft_objects t g) \<noteq> INVALID_FACEID \<Longrightarrow> f_id (ft_objects t' g) \<noteq> INVALID_FACEID"
  by (auto simp: ft_add_def ft_addImpl_def face_setId_def Let_def INVALID_FACEID_def split: if_splits)

definition fw_addFace :: "faceRef \<Rightarrow> forwarder \<Rightarrow> forwarder option" where
  "fw_addFace f s = map_option (\<lambda>t. s\<lparr>fw_faceTable := t\<rparr>) (ft_add f (fw_faceTable s))"

lemma entry_ok_mono:
  assumes "entry_ok s e" and "\<And>g. valid_face s g \<Longrightarrow> valid_face s' g" and "fw_networkRegions s' = fw_networkRegions s"
  shows "entry_ok s' e"
  using assms by (auto simp: entry_ok_def list_all_iff)

lemma fw_addFace_inv:
  assumes inv: "fw_inv E s"
  shows "returns (fw_addFace f s) (\<lambda>s'. fw_inv E s' \<and> fw_out s' = fw_out s)"
proof -
  have wf: "fw_wf E s" and t: "timed s" using inv by (simp_all add: fw_inv_def)
  obtain t' where t': "ft_add f (fw_faceTable s) = Some t'" "ft_inv t'" using ft_add_inv [OF fw_wfD(3) [OF wf]] by blast
  let ?s = "s\<lparr>fw_faceTable := t'\<rparr>"
  have v: "valid_face ?s g" if "valid_face s g" for g using that ft_add_faces [OF t'(1), of g] by (simp add: valid_face_def)
  have "fw_tables (env_lib E) ?s"
    using fw_wfD(1) [OF wf] entry_ok_mono [of s _ ?s] v unfolding fw_tables_iff routes_ok_def by simp
  then have "fw_inv E ?s" using wf t t'(2) by (simp add: fw_inv_def fw_wf_def timed_def)
  then show ?thesis using t'(1) by (simp add: fw_addFace_def)
qed

lemma withoutFace_ok:
  assumes "entry_ok s e" and "pe_inv e" and "\<And>g. valid_face s g \<Longrightarrow> g \<noteq> f \<Longrightarrow> valid_face s' g"
    and "fw_networkRegions s' = fw_networkRegions s"
  shows "entry_ok s' (withoutFace f e)"
  using assms
  by (auto simp: entry_ok_def withoutFace_def deleteInRecord_def deleteOutRecord_def pe_inv_def list_all_iff
      removeFirst_key_filter)

lemma routesWithout_ok:
  assumes "routesWithout f r = Some m" and "\<And>m. r = Some m \<Longrightarrow> m \<noteq> Map.empty"
  shows "m \<noteq> Map.empty \<and> (\<exists>m0. r = Some m0 \<and> dom m \<subseteq> dom m0 - {f})"
  using assms by (cases r) (auto simp: routesWithout_def withoutRoute_def split: if_splits)

lemma find_map: "find P (map g xs) = map_option g (find (\<lambda>x. P (g x)) xs)"
  by (induction xs) simp_all

lemma fw_removeFace_inv:
  assumes inv: "fw_inv E s" and i: "ft_faces (fw_faceTable s) i = Some f"
  shows "returns (fw_removeFace i s) (\<lambda>s'. fw_inv E s' \<and> fw_out s' = fw_out s)"
proof -
  have wf: "fw_wf E s" and t: "timed s" using inv by (simp_all add: fw_inv_def)
  note T = fw_wfD(1) [OF wf, unfolded fw_tables_iff]
  obtain t' where t': "ft_remove i (fw_faceTable s) = Some (f, t')" "ft_inv t'" using ft_remove_inv [OF fw_wfD(3) [OF wf] i] by blast
  have "tables_inv (env_lib E) (fw_nPit s) (fw_nextPit s) (fw_nameTree s, fw_nFib s)" using T by (simp add: tables_inv_def)
  note c = cleanupOnFaceRemoval_spec [OF this, where f = f]
  obtain nt k where r: "cleanupOnFaceRemoval f (fw_nameTree s, fw_nFib s) = (nt, k)" by (metis prod.exhaust)
  let ?s = "s\<lparr>fw_nameTree := nt, fw_nFib := k, fw_fit := (\<lambda>p. (fw_fit s p)(i := None)), fw_faceTable := t'\<rparr>"
  have v: "valid_face ?s g" if "valid_face s g" "g \<noteq> f" for g
    using that t'(1) i by (auto simp: valid_face_def ft_remove_def)
  have c': "tables_inv (env_lib E) (fw_nPit s) (fw_nextPit s) (nt, k)" "fib_routes nt m = routesWithout f (fib_routes (fw_nameTree s) m)"
    "nt_pits m nt = map (withoutFace f) (nt_pits m (fw_nameTree s))" "nt_sc m nt = nt_sc m (fw_nameTree s)" for m
    using c(1) c(3,4,6) [of m] r by simp_all
  have wf0: "pit_wf (env_lib E) (fw_nextPit s) (fw_nameTree s)" using T by (simp add: pit_inv_def)
  have get: "pit_get r nt = map_option (withoutFace f) (fw_pit s r)" for r
    by (simp add: pit_get_def c'(3) find_map withoutFace_def)
  have "entry_ok ?s x" if x: "pit_get q nt = Some x" for q x
  proof -
    obtain e where e: "fw_pit s q = Some e" "x = withoutFace f e" using x get by auto
    show ?thesis unfolding e(2)
      by (rule withoutFace_ok [where s = s, OF fw_tables_entry(1,2) [OF fw_wfD(1) [OF wf] e(1)] v]) simp_all
  qed
  moreover have "routes_ok ?s nt"
    unfolding routes_ok_def
  proof (intro allI impI)
    fix p m
    assume m: "fib_routes nt p = Some m"
    have r0: "m0 \<noteq> Map.empty \<and> (\<forall>g \<in> dom m0. valid_face s g)" if "fib_routes (fw_nameTree s) p = Some m0" for m0
      using T that unfolding routes_ok_def by blast
    have "m \<noteq> Map.empty \<and> (\<exists>m0. fib_routes (fw_nameTree s) p = Some m0 \<and> dom m \<subseteq> dom m0 - {f})"
      by (rule routesWithout_ok [OF m [unfolded c'(2)]]) (use r0 in blast)
    then show "m \<noteq> Map.empty \<and> (\<forall>g \<in> dom m. valid_face ?s g)" using r0 v by blast
  qed
  ultimately have "fw_tables (env_lib E) ?s" using c'(1) unfolding fw_tables_iff by (simp add: tables_inv_def)
  moreover have "strategies_ok E (nt, fw_nSc s)"
    by (rule strategies_ok_views [OF fw_wfD(5) [OF wf]]) (use c'(1,4) in \<open>simp_all add: tables_inv_def fib_inv_def\<close>)
  moreover have "timed ?s" using t get by (auto simp: timed_def withoutFace_def)
  ultimately have "fw_inv E ?s" using wf t'(2) by (simp add: fw_inv_def fw_wf_def)
  then show ?thesis using t'(1) r by (simp add: fw_removeFace_def)
qed

end
