(* ===== verification/Management.thy ===== *)
theory Management
  imports FwTables
begin

text \<open>
  \<^verbatim>\<open>daemon/mgmt\<close>: the handlers of the FIB, strategy choice and content store managers. A handler
  returns the new state of the forwarder and the status code of its response; the dispatcher, which
  parses and authenticates commands and encodes responses, belongs to ndn-cxx.
\<close>

section \<open>FIB manager\<close>

text \<open>\<open>None\<close> is the failing assertion that the tag is there.\<close>

definition setFaceForSelfRegistration :: "faceId option \<Rightarrow> faceId \<Rightarrow> faceId option" where
  "setFaceForSelfRegistration incomingFaceIdTag faceId =
     (let isSelfRegistration = (faceId = 0)
      in if isSelfRegistration then incomingFaceIdTag else Some faceId)"

definition fibManager_addNextHop ::
    "fw_env \<Rightarrow> time \<Rightarrow> faceId option \<Rightarrow> name \<Rightarrow> faceId \<Rightarrow> nat \<Rightarrow> forwarder \<Rightarrow> (forwarder \<times> nat) option" where
  "fibManager_addNextHop E now tag pfx faceId cost s = do {
     faceId \<leftarrow> setFaceForSelfRegistration tag faceId;
     if length pfx > getMaxDepth then Some (s, 414)
     else case ft_get faceId (fw_faceTable s) of
       None \<Rightarrow> Some (s, 410)
     | Some face \<Rightarrow>
         (case fib_addOrUpdateNextHop pfx face cost (fst (fib_insert pfx (fw_nameTree s, fw_nFib s))) of
            ((nt, k), signal) \<Rightarrow> do {
              let s1 = s\<lparr>fw_nameTree := nt, fw_nFib := k\<rparr>;
              s2 \<leftarrow> (case signal of None \<Rightarrow> Some s1 | Some (p, nh) \<Rightarrow> onNewNextHop E now p nh s1);
              Some (s2, 200) }) }"

definition fibManager_removeNextHop :: "faceId option \<Rightarrow> name \<Rightarrow> faceId \<Rightarrow> forwarder \<Rightarrow> (forwarder \<times> nat) option" where
  "fibManager_removeNextHop tag pfx faceId s = do {
     faceId \<leftarrow> setFaceForSelfRegistration tag faceId;
     case ft_get faceId (fw_faceTable s) of
       None \<Rightarrow> Some (s, 200)
     | Some face \<Rightarrow>
         (case fib_findExactMatch pfx (fw_nameTree s) of
            None \<Rightarrow> Some (s, 200)
          | Some entry \<Rightarrow>
              (case fib_removeNextHop pfx face (fw_nameTree s, fw_nFib s) of
                 ((nt, k), _) \<Rightarrow> Some (s\<lparr>fw_nameTree := nt, fw_nFib := k\<rparr>, 200))) }"

section \<open>Strategy choice manager\<close>

text \<open>The strategies of this development, in the order of their names.\<close>

definition strategyRegistry :: "fw_env \<Rightarrow> registry" where
  "strategyRegistry E =
     [(random_getStrategyName E, newRandomStrategy E), (multicast_getStrategyName E, newMulticastStrategy E),
      (bestRoute_getStrategyName E, newBestRouteStrategy E)]"

definition scManager_setStrategy :: "fw_env \<Rightarrow> name \<Rightarrow> name \<Rightarrow> forwarder \<Rightarrow> (forwarder \<times> nat) option" where
  "scManager_setStrategy E pfx strategy s =
     (case sc_insert (env_lib E) (strategyRegistry E) pfx strategy (fw_nameTree s, fw_nSc s) of
        ((nt, k), res) \<Rightarrow>
          let s' = s\<lparr>fw_nameTree := nt, fw_nSc := k\<rparr> in
          if res \<noteq> OK then Some (s', getStatusCode res)
          else if \<not> fst (sc_get pfx nt) then None
          else Some (s', 200))"

definition scManager_unsetStrategy :: "fw_env \<Rightarrow> name \<Rightarrow> forwarder \<Rightarrow> forwarder \<times> nat" where
  "scManager_unsetStrategy E pfx s =
     (case sc_erase (env_lib E) (strategyRegistry E) pfx (fw_nameTree s, fw_nSc s) of
        (nt, k) \<Rightarrow> (s\<lparr>fw_nameTree := nt, fw_nSc := k\<rparr>, 200))"

section \<open>Content store manager\<close>

definition csManager_changeConfig ::
    "nat option \<Rightarrow> bool option \<Rightarrow> bool option \<Rightarrow> forwarder \<Rightarrow> (forwarder \<times> nat) option" where
  "csManager_changeConfig capacity enableAdmit enableServe s = do {
     cs \<leftarrow> (case capacity of None \<Rightarrow> Some (fw_cs s) | Some n \<Rightarrow> cs_setLimit policyOps n (fw_cs s));
     let cs = (case enableAdmit of None \<Rightarrow> cs | Some b \<Rightarrow> cs_enableAdmit b cs);
     let cs = (case enableServe of None \<Rightarrow> cs | Some b \<Rightarrow> cs_enableServe b cs);
     Some (s\<lparr>fw_cs := cs\<rparr>, 200) }"

definition ERASE_LIMIT :: nat where "ERASE_LIMIT = 256"

text \<open>The response says how many packets were erased, and whether there may be more.\<close>

definition csManager_erase ::
    "fw_env \<Rightarrow> time \<Rightarrow> interest \<Rightarrow> nat option \<Rightarrow> forwarder \<Rightarrow> (forwarder \<times> nat \<times> bool) option" where
  "csManager_erase E now query hasCount s = do {
     let count = (case hasCount of None \<Rightarrow> 2 ^ 64 - 1 | Some n \<Rightarrow> n);
     (cs, nErased) \<leftarrow> cs_eraseImpl policyOps (env_lib E) (i_name query) (min count ERASE_LIMIT) (fw_cs s);
     if nErased = ERASE_LIMIT \<and> ERASE_LIMIT < count
     then do {
       (cs', match) \<leftarrow> cs_find policyOps (env_lib E) now query cs;
       Some (s\<lparr>fw_cs := cs'\<rparr>, nErased, match \<noteq> None) }
     else Some (s\<lparr>fw_cs := cs\<rparr>, nErased, False) }"

section \<open>The handlers keep the invariant\<close>

lemma fib_insert_views:
  assumes "nt_inv nt" and "length p \<le> getMaxDepth"
  shows "nt_pits m (fst (fst (fib_insert p (nt, k)))) = nt_pits m nt" "nt_sc m (fst (fst (fib_insert p (nt, k)))) = nt_sc m nt"
proof -
  have "sameTables nt (lookup p (length p) nt)" using lookup_spec [OF assms(1) le_refl assms(2)] by simp
  then show "nt_pits m (fst (fst (fib_insert p (nt, k)))) = nt_pits m nt" "nt_sc m (fst (fst (fib_insert p (nt, k)))) = nt_sc m nt"
    by (simp_all add: fib_insert_def Let_def sameTables_def)
qed

lemma fib_add_views:
  "nt_pits m (fst (fst (fib_addOrUpdateNextHop p f c (nt, k)))) = nt_pits m nt"
  "nt_sc m (fst (fst (fib_addOrUpdateNextHop p f c (nt, k)))) = nt_sc m nt"
  by (simp_all add: fib_addOrUpdateNextHop_def split_def Let_def split: option.split)

lemma fib_add_signal:
  assumes "fib_inv (nt, k)" and "snd (fib_addOrUpdateNextHop p f c (nt, k)) = Some (q, nh)"
  shows "\<exists>e. nt_fib p (fst (fst (fib_addOrUpdateNextHop p f c (nt, k)))) = Some e \<and> nh \<in> set (fe_nextHops e)"
proof -
  obtain e where e: "nt_fib p nt = Some e" using assms(2) by (auto simp: fib_addOrUpdateNextHop_def split: option.splits)
  obtain e' it isNew where a: "fe_addOrUpdateNextHop f c e = (e', it, isNew)" by (metis prod.exhaust)
  have g: "nt_get p nt \<noteq> None" using nt_view_present(1) e by auto
  have n: "isNew" "nh = fe_nextHops e' ! it" using assms(2) e a by (auto simp: fib_addOrUpdateNextHop_def split: if_splits)
  have "it < length (fe_nextHops e')"
    using a n(1) by (auto simp: fe_addOrUpdateNextHop_def fe_sortNextHops_def Let_def)
  then show ?thesis using e a g n(2) by (auto simp: fib_addOrUpdateNextHop_def)
qed

lemma selfRegistration_returns:
  "(faceId = 0 \<Longrightarrow> tag \<noteq> None) \<Longrightarrow> \<exists>i. setFaceForSelfRegistration tag faceId = Some i"
  by (cases "faceId = 0") (auto simp: setFaceForSelfRegistration_def)

lemma addNextHop_inv:
  assumes E: "fw_env_laws E" and inv: "fw_inv E s" and tag: "faceId = 0 \<Longrightarrow> tag \<noteq> None"
  shows "returns (fibManager_addNextHop E now tag pfx faceId cost s) (\<lambda>(s', code). fw_inv E s' \<and> sends s s')"
proof -
  obtain i where i: "setFaceForSelfRegistration tag faceId = Some i"
    using selfRegistration_returns [OF tag] by blast
  show ?thesis
  proof (cases "length pfx \<le> getMaxDepth")
    case len: True
    show ?thesis
    proof (cases "ft_get i (fw_faceTable s)")
      case None
      then show ?thesis using i len inv by (simp add: fibManager_addNextHop_def)
    next
      case (Some f)
      have wf: "fw_wf E s" using inv by (simp add: fw_inv_def)
      note T = fw_wfD(1) [OF wf, unfolded fw_tables_iff]
      have f: "valid_face s f" by (rule ft_get_valid [OF fw_wfD(3) [OF wf] Some])
      obtain nt1 k1 where r1: "fst (fib_insert pfx (fw_nameTree s, fw_nFib s)) = (nt1, k1)" by (metis prod.exhaust)
      have fib: "fib_inv (fw_nameTree s, fw_nFib s)" using T by simp
      note ins = fib_insert_facts(1,2) [OF fib len, unfolded r1 fst_conv]
      obtain nt k signal where r2: "fib_addOrUpdateNextHop pfx f cost (nt1, k1) = ((nt, k), signal)" by (metis prod.exhaust)
      note add = fib_addOrUpdateNextHop_facts [OF ins(1), where p = pfx and f = f and c = cost, unfolded r2 fst_conv]
      have routes: "fib_routes nt q = (if q = pfx then Some ((case fib_routes (fw_nameTree s) pfx of None \<Rightarrow> Map.empty | Some m \<Rightarrow> m)(f \<mapsto> cost))
          else fib_routes (fw_nameTree s) q)" for q
        unfolding add(2) ins(2) by (auto split: option.split)
      have ok: "routes_ok s nt"
        unfolding routes_ok_def routes using T f
        by (auto simp: routes_ok_def split: if_splits option.splits)
      have v: "nt_pits m nt = nt_pits m (fw_nameTree s)" "nt_sc m nt = nt_sc m (fw_nameTree s)" for m
        using fib_insert_views [OF fw_wfD(2) [OF wf] len, of m "fw_nFib s"] fib_add_views [of m pfx f cost nt1 k1] r1 r2 by simp_all
      let ?s = "s\<lparr>fw_nameTree := nt, fw_nFib := k\<rparr>"
      have inv1: "fw_inv E ?s" by (rule fib_change_inv [OF inv add(1) ok v])
      have snd: "sends s ?s" by (simp add: sends_def)
      have hop: "valid_face ?s (nh_face nh)" if sg: "signal = Some (p, nh)" for p nh
      proof -
        obtain e where "nt_fib pfx nt = Some e" "nh \<in> set (fe_nextHops e)"
          using fib_add_signal [OF ins(1), of pfx f cost p nh] r2 sg by auto
        then show ?thesis using inv1 by (auto simp: fw_inv_def fw_wf_def fw_tables_def list_all_iff)
      qed
      have "returns (onNewNextHop E now p nh ?s) (\<lambda>s'. fw_inv E s' \<and> sends s s')" if "signal = Some (p, nh)" for p nh
        by (rule sends_then [OF snd onNewNextHop_inv [OF E inv1 hop [OF that]]])
      then show ?thesis
        using i len Some r1 r2 inv1 snd by (auto simp: fibManager_addNextHop_def Let_def split: option.split)
    qed
  qed (use i inv in \<open>simp add: fibManager_addNextHop_def\<close>)
qed

lemma removeNextHop_inv:
  assumes inv: "fw_inv E s" and tag: "faceId = 0 \<Longrightarrow> tag \<noteq> None"
  shows "returns (fibManager_removeNextHop tag pfx faceId s) (\<lambda>(s', code). fw_inv E s' \<and> sends s s')"
proof -
  obtain i where i: "setFaceForSelfRegistration tag faceId = Some i"
    using selfRegistration_returns [OF tag] by blast
  have wf: "fw_wf E s" using inv by (simp add: fw_inv_def)
  note T = fw_wfD(1) [OF wf, unfolded fw_tables_iff]
  have fib: "fib_inv (fw_nameTree s, fw_nFib s)" using T by simp
  have change: "fw_inv E (s\<lparr>fw_nameTree := nt, fw_nFib := k\<rparr>)"
    if r: "fib_removeNextHop pfx f (fw_nameTree s, fw_nFib s) = ((nt, k), res)" for f nt k res
  proof -
    note rem = fib_removeNextHop_facts [OF fib, where p = pfx and f = f, unfolded r fst_conv]
    have "routes_ok s nt"
      unfolding routes_ok_def
    proof (intro allI impI)
      fix p m
      assume m: "fib_routes nt p = Some m"
      have r0: "m0 \<noteq> Map.empty \<and> (\<forall>g \<in> dom m0. valid_face s g)" if "fib_routes (fw_nameTree s) q = Some m0" for q m0
        using T that unfolding routes_ok_def by blast
      show "m \<noteq> Map.empty \<and> (\<forall>g \<in> dom m. valid_face s g)"
      proof (cases "p = pfx")
        case True
        have "routesWithout f (fib_routes (fw_nameTree s) pfx) = Some m" using m True unfolding rem(2) by (simp add: routesWithout_def)
        from routesWithout_ok [OF this] r0 show ?thesis by blast
      next
        case False
        then show ?thesis using m r0 unfolding rem(2) by simp
      qed
    qed
    then show ?thesis
      using fib_change_inv [OF inv rem(1)] fib_removeNextHop_views [of _ pfx f "fw_nameTree s" "fw_nFib s"] r by simp
  qed
  then show ?thesis
    using i inv by (auto simp: fibManager_removeNextHop_def sends_def split: option.split prod.split)
qed

text \<open>Clearing strategy information touches nothing the invariant speaks of.\<close>

lemma pe_clearInfo_sel [simp]:
  "pe_id (pe_clearInfo e) = pe_id e" "pe_interest (pe_clearInfo e) = pe_interest e"
  "pe_expiryTimer (pe_clearInfo e) = pe_expiryTimer e" "pe_name (pe_clearInfo e) = pe_name e"
  by (simp_all add: pe_clearInfo_def pe_name_def)

lemma pe_clearInfo_ok:
  "pe_inv (pe_clearInfo e) = pe_inv e" "entry_ok s e \<Longrightarrow> entry_ok s (pe_clearInfo e)"
  by (auto simp: pe_inv_def pe_clearInfo_def in_record_ok_def canMatch_def pe_name_def list_all_iff comp_def
      entry_ok_def retx_ok_def clearStrategyInfo_def split: option.splits)

lemma pits_ok_clear: "pits_ok L a n ps \<Longrightarrow> pits_ok L a n (map pe_clearInfo ps)"
  by (auto simp: pits_ok_def comp_def list_all_iff pe_clearInfo_ok(1))

lemma pit_inv_clear:
  assumes inv: "pit_inv L (nt, k, a)" and nt': "nt_inv nt'"
    and p: "\<And>m. nt_pits m nt' = nt_pits m nt \<or> nt_pits m nt' = map pe_clearInfo (nt_pits m nt)"
  shows "pit_inv L (nt', k, a)"
proof -
  have "pits_ok L a m (nt_pits m nt')" for m
    using p [of m] inv pits_ok_clear by (auto simp: pit_inv_def pit_wf_def)
  moreover have ids: "pe_id ` set (nt_pits m nt') = pe_id ` set (nt_pits m nt)" for m
    using p [of m] by (auto simp: image_image)
  moreover have "n = n'" if "x \<in> set (nt_pits n nt')" "y \<in> set (nt_pits n' nt')" "pe_id x = pe_id y" for n n' x y
  proof -
    have "pe_id x \<in> pe_id ` set (nt_pits n nt)" "pe_id x \<in> pe_id ` set (nt_pits n' nt)"
      using that ids by (metis imageI)+
    then show ?thesis using inv unfolding pit_inv_def pit_wf_def by auto
  qed
  moreover have "length (nt_pits m nt') = length (nt_pits m nt)" "nt_pits m nt' = [] \<longleftrightarrow> nt_pits m nt = []" for m
    using p [of m] by auto
  then have "pitCount nt' = pitCount nt" by (simp add: pitCount_def)
  ultimately show ?thesis using inv nt' unfolding pit_inv_def pit_wf_def by auto
qed

lemma strategy_change_inv:
  assumes inv: "fw_inv E s" and c: "changedTo L reg p old x new (fw_nameTree s) nt" and sc: "strategies_ok E (nt, k)"
  shows "fw_inv E (s\<lparr>fw_nameTree := nt, fw_nSc := k\<rparr>)"
proof -
  let ?s = "s\<lparr>fw_nameTree := nt, fw_nSc := k\<rparr>"
  have wf: "fw_wf E s" and t: "timed s" using inv by (simp_all add: fw_inv_def)
  note T = fw_wfD(1) [OF wf, unfolded fw_tables_iff]
  have n: "nt_inv nt" and fib: "nt_fib m nt = nt_fib m (fw_nameTree s)"
    and pits: "nt_pits m nt = nt_pits m (fw_nameTree s) \<or> nt_pits m nt = map pe_clearInfo (nt_pits m (fw_nameTree s))" for m
    using c by (simp_all add: changedTo_def)
  have get: "pit_get r nt = fw_pit s r \<or> pit_get r nt = map_option pe_clearInfo (fw_pit s r)" for r
    using pits [of "fst r"] by (auto simp: pit_get_def find_map)
  have ok: "entry_ok ?s e = entry_ok s e" "valid_face ?s g = valid_face s g" for e g by (simp_all add: entry_ok_def valid_face_def)
  have "entry_ok s e" if e: "pit_get r nt = Some e" for r e
  proof -
    obtain e0 where e0: "fw_pit s r = Some e0" "e = e0 \<or> e = pe_clearInfo e0" using get [of r] e by (cases "fw_pit s r") auto
    then show ?thesis using fw_tables_entry(1) [OF fw_wfD(1) [OF wf] e0(1)] pe_clearInfo_ok(2) by blast
  qed
  moreover have "pit_inv (env_lib E) (nt, fw_nPit s, fw_nextPit s)" using pit_inv_clear [OF _ n pits] T by blast
  moreover have "fib_inv (nt, fw_nFib s)" by (rule fib_inv_views [OF _ n fib]) (use T in blast)
  moreover have "routes_ok s nt" using T fib by (simp add: routes_ok_def fib_routes_def)
  ultimately have "fw_tables (env_lib E) ?s" unfolding fw_tables_iff using ok by (simp add: routes_ok_def)
  moreover have "timed ?s"
    unfolding timed_def
  proof (intro allI impI)
    fix r e
    assume "fw_pit ?s r = Some e"
    then obtain e0 where "fw_pit s r = Some e0" "pe_expiryTimer e = pe_expiryTimer e0"
      using get [of r] by (cases "fw_pit s r") auto
    then show "pe_expiryTimer e \<noteq> None" using t unfolding timed_def by metis
  qed
  ultimately show ?thesis using wf sc by (simp add: fw_inv_def fw_wf_def)
qed

lemma strategy_find_in: "strategy_find L reg n = Some x \<Longrightarrow> x \<in> set reg"
  by (auto simp: strategy_find_def Let_def split: if_splits list.splits
      dest!: arg_cong [where f = set] dest: set_dropWhileD set_takeWhileD)

definition namesStrategy :: "name \<Rightarrow> bool" where
  "namesStrategy n \<longleftrightarrow> (\<exists>x \<in> {''best-route'', ''multicast'', ''random''}. prefix (strategyPath x) n)"

lemma strategyOps_iff: "strategyOps E n \<noteq> None \<longleftrightarrow> namesStrategy n"
  by (auto simp: strategyOps_def namesStrategy_def)

lemma created_names:
  assumes "strategy_create L (strategyRegistry E) n = Some (Inr inst)" and "namesStrategy n"
  shows "namesStrategy inst"
proof -
  obtain x where x: "strategy_find L (strategyRegistry E) n = Some x" "snd x n = Inr inst"
    using assms(1) by (auto simp: strategy_create_def split: option.splits)
  have "inst = n \<or> (\<exists>c. inst = n @ [c])"
    using strategy_find_in [OF x(1)] x(2)
    by (auto simp: strategyRegistry_def newRandomStrategy_def newMulticastStrategy_def newBestRouteStrategy_def
        newStrategy_def Let_def makeInstanceName_def split: if_splits)
  then show ?thesis using assms(2) by (auto simp: namesStrategy_def)
qed

lemma setStrategy_inv:
  assumes inv: "fw_inv E s" and n: "namesStrategy strategy"
  shows "returns (scManager_setStrategy E pfx strategy s) (\<lambda>(s', code). fw_inv E s' \<and> sends s s')"
proof -
  let ?reg = "strategyRegistry E" and ?L = "env_lib E"
  have wf: "fw_wf E s" using inv by (simp add: fw_inv_def)
  have ok: "strategies_ok E (fw_nameTree s, fw_nSc s)" by (rule fw_wfD(5) [OF wf])
  have same: "s\<lparr>fw_nameTree := fw_nameTree s, fw_nSc := fw_nSc s\<rparr> = s" by simp
  show ?thesis
  proof (cases "length pfx \<le> getMaxDepth \<and> (\<exists>inst. strategy_create ?L ?reg strategy = Some (Inr inst))")
    case False
    then have "\<exists>res. res \<noteq> OK \<and> sc_insert ?L ?reg pfx strategy (fw_nameTree s, fw_nSc s) = ((fw_nameTree s, fw_nSc s), res)"
      by (auto simp: sc_insert_def not_le split: option.split sum.split)
    then show ?thesis using inv same by (auto simp: scManager_setStrategy_def Let_def)
  next
    case True
    then obtain inst where len: "length pfx \<le> getMaxDepth" and cr: "strategy_create ?L ?reg strategy = Some (Inr inst)" by blast
    have sc: "sc_inv (fw_nameTree s, fw_nSc s)" using ok by (simp add: strategies_ok_def)
    obtain nt k where r: "sc_insert ?L ?reg pfx strategy (fw_nameTree s, fw_nSc s) = ((nt, k), OK)" "sc_inv (nt, k)"
      and c: "changedTo ?L ?reg pfx (the (findEffectiveStrategy pfx (fw_nameTree s))) (Some \<lparr>sc_prefix = pfx, sc_strategy = inst\<rparr>) inst (fw_nameTree s) nt"
      using sc_insert_spec [OF sc len cr] by blast
    have nsc: "nt_sc q nt = (if q = pfx then Some \<lparr>sc_prefix = pfx, sc_strategy = inst\<rparr> else nt_sc q (fw_nameTree s))" for q
      using c by (simp add: changedTo_def)
    have "strategyOps E inst \<noteq> None" unfolding strategyOps_iff by (rule created_names [OF cr n])
    then have "strategies_ok E (nt, k)"
      using r(2) ok nsc by (auto simp: strategies_ok_def split: if_splits)
    from strategy_change_inv [OF inv c this] have "fw_inv E (s\<lparr>fw_nameTree := nt, fw_nSc := k\<rparr>)" .
    moreover have "fst (sc_get pfx nt)"
    proof -
      have "nt_inv nt" using r(2) by (simp add: sc_inv_def)
      moreover have "nt_get pfx nt \<noteq> None" using nsc [of pfx] by (auto simp: nt_sc_def split: option.splits)
      ultimately show ?thesis using nsc [of pfx] by (auto simp: sc_get_def findExactMatch_full)
    qed
    ultimately show ?thesis using r(1) by (simp add: scManager_setStrategy_def Let_def sends_def)
  qed
qed

lemma unsetStrategy_inv:
  assumes inv: "fw_inv E s" and p: "pfx \<noteq> []"
  shows "fw_inv E (fst (scManager_unsetStrategy E pfx s))" and "sends s (fst (scManager_unsetStrategy E pfx s))"
proof -
  let ?reg = "strategyRegistry E" and ?L = "env_lib E"
  have wf: "fw_wf E s" using inv by (simp add: fw_inv_def)
  have ok: "strategies_ok E (fw_nameTree s, fw_nSc s)" by (rule fw_wfD(5) [OF wf])
  then have sc: "sc_inv (fw_nameTree s, fw_nSc s)" by (simp add: strategies_ok_def)
  show "sends s (fst (scManager_unsetStrategy E pfx s))" by (simp add: scManager_unsetStrategy_def sends_def split: prod.split)
  show "fw_inv E (fst (scManager_unsetStrategy E pfx s))"
  proof (cases "nt_sc pfx (fw_nameTree s)")
    case None
    then have "sc_erase ?L ?reg pfx (fw_nameTree s, fw_nSc s) = (fw_nameTree s, fw_nSc s)"
      using findExactMatch_full [OF fw_wfD(2) [OF wf], of pfx] by (auto simp: sc_erase_def)
    then show ?thesis using inv by (simp add: scManager_unsetStrategy_def)
  next
    case (Some e)
    from sc_erase_spec [OF sc p Some, of ?L ?reg] obtain nt k where
      r: "sc_erase ?L ?reg pfx (fw_nameTree s, fw_nSc s) = (nt, k)" "sc_inv (nt, k)"
      and c: "changedTo ?L ?reg pfx (sc_strategy e) None (the (findEffectiveStrategy (butlast pfx) (fw_nameTree s))) (fw_nameTree s) nt"
      by blast
    have "strategies_ok E (nt, k)" using r(2) ok c by (auto simp: strategies_ok_def changedTo_def split: if_splits)
    from strategy_change_inv [OF inv c this] show ?thesis using r(1) by (simp add: scManager_unsetStrategy_def)
  qed
qed

text \<open>Content store commands.\<close>

lemma store_setLimit:
  assumes L: "cs_lib_laws L" and cs: "store_ok L cs"
  shows "\<exists>cs'. cs_setLimit policyOps n cs = Some cs' \<and> store_ok L cs'"
proof -
  note store = cs_store.intro [OF dispatch.cs_policy_laws_axioms L]
  have inv: "cs_table_ok L (cs_table cs)" "policy_tracks (cs_policy cs) (table_keys (cs_table cs))"
    using cs by (simp_all add: store_ok_def cs_inv_def)
  obtain cs' where c: "cs_setLimit policyOps n cs = Some cs'" "cs_inv policy_tracks L cs'" "evictedTo n (cs_table cs) (cs_table cs')"
    using cs_store.setLimit_spec [OF store inv, of n] by blast
  have "set (cs_table cs') \<subseteq> set (cs_table cs)" using c(3) by (auto simp: evictedTo_def dest: list_emb_set)
  then show ?thesis using c(1,2) cs by (auto simp: store_ok_def)
qed

lemma store_flags [simp]: "store_ok L (cs_enableAdmit b cs) = store_ok L cs" "store_ok L (cs_enableServe b cs) = store_ok L cs"
  by (simp_all add: store_ok_def cs_enableAdmit_def cs_enableServe_def cs_inv_def)

lemma store_erase:
  assumes L: "cs_lib_laws L" and cs: "store_ok L cs"
  shows "\<exists>cs' n. cs_eraseImpl policyOps L p limit cs = Some (cs', n) \<and> store_ok L cs' \<and> n \<le> limit"
proof -
  note store = cs_store.intro [OF dispatch.cs_policy_laws_axioms L]
  have inv: "cs_inv policy_tracks L cs" using cs by (simp add: store_ok_def)
  obtain cs' n where c: "cs_eraseImpl policyOps L p limit cs = Some (cs', n)" "cs_inv policy_tracks L cs'"
    "set (cs_table cs') \<subseteq> set (cs_table cs)" "n \<le> limit"
    using cs_store.erase_spec [OF store inv, of p limit] by fastforce
  then show ?thesis using cs by (auto simp: store_ok_def)
qed

lemma changeConfig_inv:
  assumes E: "fw_env_laws E" and inv: "fw_inv E s"
  shows "returns (csManager_changeConfig capacity admit serve s) (\<lambda>(s', code). fw_inv E s' \<and> sends s s')"
proof -
  have wf: "fw_wf E s" and t: "timed s" using inv by (simp_all add: fw_inv_def)
  have "\<exists>cs. (case capacity of None \<Rightarrow> Some (fw_cs s) | Some n \<Rightarrow> cs_setLimit policyOps n (fw_cs s)) = Some cs \<and> store_ok (env_lib E) cs"
    using store_setLimit [OF fw_env_laws.axioms(1) [OF E] fw_wfD(4) [OF wf]] fw_wfD(4) [OF wf] by (cases capacity) auto
  then obtain cs where cs: "(case capacity of None \<Rightarrow> Some (fw_cs s) | Some n \<Rightarrow> cs_setLimit policyOps n (fw_cs s)) = Some cs"
    "store_ok (env_lib E) cs" by blast
  then show ?thesis using fw_wf_cs [OF wf] t
    by (auto simp: csManager_changeConfig_def Let_def fw_inv_def sends_def split: option.split)
qed

lemma csErase_inv:
  assumes E: "fw_env_laws E" and inv: "fw_inv E s"
  shows "returns (csManager_erase E now query n0 s) (\<lambda>(s', n, more). fw_inv E s' \<and> sends s s' \<and> n \<le> ERASE_LIMIT)"
proof -
  have wf: "fw_wf E s" and t: "timed s" using inv by (simp_all add: fw_inv_def)
  have L: "cs_lib_laws (env_lib E)" by (rule fw_env_laws.axioms(1) [OF E])
  let ?c = "case n0 of None \<Rightarrow> 2 ^ 64 - 1 | Some n \<Rightarrow> n"
  obtain cs n where cs: "cs_eraseImpl policyOps (env_lib E) (i_name query) (min ?c ERASE_LIMIT) (fw_cs s) = Some (cs, n)"
    "store_ok (env_lib E) cs" "n \<le> min ?c ERASE_LIMIT"
    using store_erase [OF L fw_wfD(4) [OF wf]] by blast
  obtain cs' m where m: "cs_find policyOps (env_lib E) now query cs = Some (cs', m)" "store_ok (env_lib E) cs'"
    using store_find [OF L cs(2)] by blast
  show ?thesis using cs m t fw_wf_cs [OF wf cs(2)] fw_wf_cs [OF wf m(2)]
    by (simp add: csManager_erase_def Let_def fw_inv_def sends_def)
qed

end
