(* ===== verification/FwEvents.thy ===== *)
theory FwEvents
  imports Management
begin

text \<open>
  The forwarder as a state machine: its construction, the events that reach it from faces, timers
  and management, and what holds in every state it can reach.
\<close>

section \<open>Construction\<close>

lemma bestRoute_create:
  assumes E: "fw_env_laws E"
  shows "strategy_create (env_lib E) [(bestRoute_getStrategyName E, newBestRouteStrategy E)] (bestRoute_getStrategyName E) =
    Some (Inr (bestRoute_getStrategyName E))"
proof -
  let ?n = "bestRoute_getStrategyName E" and ?L = "env_lib E"
  have L: "ndn_lib_laws ?L" by (rule cs_lib_laws.axioms(1) [OF fw_env_laws.axioms(1) [OF E]])
  have v: "isVersion ?L (last ?n)"
    by (simp add: bestRoute_getStrategyName_def fw_env_laws.isVersion_type [OF E] fw_env_laws.appendVersion_type [OF E])
  have len: "length ?n = 5" by (simp add: bestRoute_getStrategyName_def strategyPath_def)
  then have p: "parseInstanceName ?L ?n = \<lparr>pi_strategyName = ?n, pi_version = Some (last ?n), pi_parameters = []\<rparr>"
    using v by (simp add: parseInstanceName_def last_conv_nth eval_nat_numeral flip: length_0_conv)
  have "list_ex (isVersion ?L) ?n" using v len by (auto simp: list_ex_iff intro!: bexI [of _ "last ?n"] last_in_set)
  then have "newBestRouteStrategy E ?n = Inr ?n" by (simp add: newBestRouteStrategy_def newStrategy_def p makeInstanceName_def)
  moreover have "\<not> compareName ?L ?n ?n < 0" using ndn_lib_laws.compare_refl [OF L] by simp
  then have "strategy_find ?L [(?n, newBestRouteStrategy E)] ?n = Some (?n, newBestRouteStrategy E)"
    by (simp add: strategy_find_def p prefixeq_butlast)
  ultimately show ?thesis by (simp add: strategy_create_def)
qed

lemma initial_tables:
  assumes nt: "nt_inv nt" and v: "\<And>m. nt_pits m nt = []" "\<And>m. nt_fib m nt = None"
      "\<And>m. nt_sc m nt = (if m = [] then Some e else None)"
    and e: "strategyOps E (sc_strategy e) \<noteq> None" "sc_prefix e = []"
  shows "strategies_ok E (nt, 1)" "pit_inv L (nt, 0, 0)" "fib_inv (nt, 0)" "pit_get r nt = None"
proof -
  have "{m. nt_sc m nt \<noteq> None} = {[]}" using v(3) by auto
  then have "sc_inv (nt, 1)" using nt v(3) e(2) by (simp add: sc_inv_def scCount_def)
  then show "strategies_ok E (nt, 1)" using e(1) v(3) by (auto simp: strategies_ok_def split: if_splits)
  show "pit_inv L (nt, 0, 0)" using nt v(1) by (simp add: pit_inv_def pit_wf_def pits_ok_def pitCount_def)
  show "fib_inv (nt, 0)" using nt v(2) by (simp add: fib_inv_def fib_wf_def)
  show "pit_get r nt = None" by (simp add: pit_get_def v(1))
qed

lemma newForwarder_inv:
  assumes E: "fw_env_laws E" and F: "\<And>f. f_id (F f) = INVALID_FACEID"
  shows "returns (newForwarder E F csFace) (\<lambda>s. fw_inv E s \<and> fw_out s = [])"
proof -
  let ?b = "bestRoute_getStrategyName E" and ?L = "env_lib E"
  obtain t where t: "ft_addReserved csFace FACEID_CONTENT_STORE (newFaceTable F) = Some t" "ft_inv t"
    using ft_addImpl_inv [OF ft_inv_new [of F, OF F], of csFace FACEID_CONTENT_STORE] F
    by (auto simp: ft_addReserved_def newFaceTable_def FACEID_CONTENT_STORE_def FACEID_RESERVED_MAX_def INVALID_FACEID_def)
  have L: "cs_lib_laws ?L" by (rule fw_env_laws.axioms(1) [OF E])
  note store = cs_store.intro [OF dispatch.cs_policy_laws_axioms L]
  have p: "policy_create ''lru'' = Some (LruPolicy [])" by (simp add: policy_create_def)
  obtain cs where cs: "newCs policyOps (LruPolicy []) 10 = Some cs" "cs_inv policy_tracks ?L cs" "cs_table cs = []"
    using cs_store.newCs_spec [OF store tracks_create [OF p], of 10] by blast
  obtain dnl where dnl: "newDeadNonceList DNL_DEFAULT_LIFETIME = Inr dnl"
    by (simp add: newDeadNonceList_def DNL_DEFAULT_LIFETIME_def DNL_MIN_LIFETIME_def ms_def)
  let ?l = "lookup [] 0 []" and ?e = "sc_setStrategy ?b (newScEntry [])"
  let ?nt = "setStrategyChoiceEntry [] (Some ?e) ?l"
  have l: "nt_inv ?l" "sameTables [] ?l" "nt_get [] ?l \<noteq> None"
    using lookup_spec [OF nt_inv_empty, of 0 "[]"] by simp_all
  have nt: "nt_inv ?nt" by (rule nt_inv_setters [OF l(1)])
  have empty: "nt_pits m [] = []" "nt_fib m [] = None" "nt_sc m [] = None" for m by (simp_all add: nt_views nt_get_def)
  have v: "nt_pits m ?nt = []" "nt_fib m ?nt = None" "nt_sc m ?nt = (if m = [] then Some ?e else None)" for m
    using l(2,3) empty by (simp_all add: sameTables_def)
  have sc: "sc_setDefaultStrategy ?L [(?b, newBestRouteStrategy E)] ?b ([], 0) = Some (Inr (?nt, 1))"
    by (simp add: sc_setDefaultStrategy_def bestRoute_create [OF E])
  have "namesStrategy ?b" by (simp add: namesStrategy_def bestRoute_getStrategyName_def)
  then have "strategyOps E (sc_strategy ?e) \<noteq> None" unfolding strategyOps_iff by (simp add: sc_setStrategy_def)
  moreover have "sc_prefix ?e = []" by (simp add: sc_setStrategy_def newScEntry_def)
  ultimately have init: "strategies_ok E (?nt, 1)" "pit_inv ?L (?nt, 0, 0)" "fib_inv (?nt, 0)" "pit_get r ?nt = None" for r
    using initial_tables [OF nt v] by blast+
  show ?thesis
    using t cs p dnl sc init v(2)
    by (simp add: newForwarder_def fw_inv_def fw_wf_def fw_tables_def timed_def store_ok_def del: lookup.simps)
qed

section \<open>Events\<close>

datatype fw_event =
    RecvInterest interest faceRef
  | RecvData data faceRef nat
  | RecvNack nack faceRef
  | ExpiryTimer pitRef
  | AddFace faceRef
  | CloseFace faceId
  | AddNextHop "faceId option" name faceId nat
  | RemoveNextHop "faceId option" name faceId
  | SetStrategy name name
  | UnsetStrategy name
  | CsConfig "nat option" "bool option" "bool option"
  | CsErase interest "nat option"
  | CsStale name
  | DnlMark
  | DnlAdjust

fun fw_handle :: "fw_env \<Rightarrow> time \<Rightarrow> fw_event \<Rightarrow> forwarder \<Rightarrow> forwarder option" where
  "fw_handle E now (RecvInterest i f) s = onIncomingInterest E now i f s"
| "fw_handle E now (RecvData d f ep) s = onIncomingData E now d f ep s"
| "fw_handle E now (RecvNack n f) s = onIncomingNack E now n f s"
| "fw_handle E now (ExpiryTimer r) s = onInterestFinalize E r s"
| "fw_handle E now (AddFace f) s = fw_addFace f s"
| "fw_handle E now (CloseFace i) s = fw_removeFace i s"
| "fw_handle E now (AddNextHop tag p i c) s = map_option fst (fibManager_addNextHop E now tag p i c s)"
| "fw_handle E now (RemoveNextHop tag p i) s = map_option fst (fibManager_removeNextHop tag p i s)"
| "fw_handle E now (SetStrategy p n) s = map_option fst (scManager_setStrategy E p n s)"
| "fw_handle E now (UnsetStrategy p) s = Some (fst (scManager_unsetStrategy E p s))"
| "fw_handle E now (CsConfig c a v) s = map_option fst (csManager_changeConfig c a v s)"
| "fw_handle E now (CsErase q n) s = map_option fst (csManager_erase E now q n s)"
| "fw_handle E now (CsStale i) s = map_option (\<lambda>cs. s\<lparr>fw_cs := cs\<rparr>) (cs_moveStale i (fw_cs s))"
| "fw_handle E now DnlMark s = Some (s\<lparr>fw_dnl := dnl_mark (fw_dnl s)\<rparr>)"
| "fw_handle E now DnlAdjust s = Some (s\<lparr>fw_dnl := dnl_adjustCapacity (fw_dnl s)\<rparr>)"

text \<open>
  When an event can happen: packets come from faces of the face table, with names and freshness
  as the decoder lets them through; a timer fires once its time has come; commands carry what
  their validation asks for.
\<close>

fun fw_enabled :: "fw_env \<Rightarrow> time \<Rightarrow> fw_event \<Rightarrow> forwarder \<Rightarrow> bool" where
  "fw_enabled E now (RecvInterest i f) s \<longleftrightarrow> valid_face s f"
| "fw_enabled E now (RecvData d f ep) s \<longleftrightarrow> valid_face s f \<and> plainName (env_lib E) (d_name d) \<and> 0 \<le> d_freshnessPeriod d"
| "fw_enabled E now (RecvNack n f) s \<longleftrightarrow> valid_face s f"
| "fw_enabled E now (ExpiryTimer r) s \<longleftrightarrow> (case Option.bind (fw_pit s r) pe_expiryTimer of None \<Rightarrow> False | Some t \<Rightarrow> t \<le> now)"
| "fw_enabled E now (CloseFace i) s \<longleftrightarrow> ft_get i (fw_faceTable s) \<noteq> None"
| "fw_enabled E now (AddNextHop tag p i c) s \<longleftrightarrow> (i = 0 \<longrightarrow> tag \<noteq> None)"
| "fw_enabled E now (RemoveNextHop tag p i) s \<longleftrightarrow> (i = 0 \<longrightarrow> tag \<noteq> None)"
| "fw_enabled E now (SetStrategy p n) s \<longleftrightarrow> namesStrategy n"
| "fw_enabled E now (UnsetStrategy p) s \<longleftrightarrow> p \<noteq> []"
| "fw_enabled E now _ s \<longleftrightarrow> True"

inductive reachable :: "fw_env \<Rightarrow> (faceRef \<Rightarrow> face) \<Rightarrow> faceRef \<Rightarrow> time \<Rightarrow> forwarder \<Rightarrow> bool"
  for E :: fw_env and F :: "faceRef \<Rightarrow> face" and csFace :: faceRef where
  start: "newForwarder E F csFace = Some s \<Longrightarrow> reachable E F csFace now s"
| step: "reachable E F csFace t s \<Longrightarrow> t \<le> now \<Longrightarrow> fw_enabled E now ev s \<Longrightarrow> fw_handle E now ev s = Some s' \<Longrightarrow>
    reachable E F csFace now s'"

text \<open>The packets a handler adds to the output are safe at the faces as they were.\<close>

definition emitsSafe :: "forwarder \<Rightarrow> forwarder \<Rightarrow> bool" where
  "emitsSafe s s' \<longleftrightarrow> (\<exists>os. fw_out s' = fw_out s @ os \<and> list_all (safe_out (fw_face s)) os)"

lemma sends_emitsSafe: "sends s s' \<Longrightarrow> emitsSafe s s'"
  by (simp add: sends_def emitsSafe_def)

lemma emitsSafe_same: "fw_out s' = fw_out s \<Longrightarrow> emitsSafe s s'"
  by (simp add: emitsSafe_def)

lemma keeps_emits: "returns m (\<lambda>s'. fw_inv E s' \<and> sends s s') \<Longrightarrow> returns m (\<lambda>s'. fw_inv E s' \<and> emitsSafe s s')"
  by (erule returns_mono) (simp add: sends_emitsSafe)

lemma keeps_emits_fst:
  "returns m (\<lambda>(s', x). fw_inv E s' \<and> sends s s') \<Longrightarrow> returns (map_option fst m) (\<lambda>s'. fw_inv E s' \<and> emitsSafe s s')"
  by (auto elim!: returns_mono intro: sends_emitsSafe)

lemma fw_handle_inv:
  assumes E: "fw_env_laws E" and inv: "fw_inv E s" and en: "fw_enabled E now ev s"
  shows "returns (fw_handle E now ev s) (\<lambda>s'. fw_inv E s' \<and> emitsSafe s s')"
proof (cases ev)
  case (RecvInterest i f)
  then show ?thesis using onIncomingInterest_inv [OF E inv, of f now i] en by (simp add: keeps_emits)
next
  case (RecvData d f ep)
  then have "plainName (env_lib E) (d_name d)" "0 \<le> d_freshnessPeriod d" using en by simp_all
  from onIncomingData_spec [OF E inv this, of now f ep] show ?thesis
    unfolding RecvData fw_handle.simps by (rule returns_mono) (simp add: sends_emitsSafe)
next
  case (RecvNack n f)
  then show ?thesis using onIncomingNack_inv [OF E inv, of now n f] by (simp add: keeps_emits)
next
  case (ExpiryTimer r)
  then obtain e where "fw_pit s r = Some e" using en by (cases "fw_pit s r") auto
  from onInterestFinalize_inv [OF E inv this] show ?thesis
    unfolding ExpiryTimer fw_handle.simps by (rule returns_mono) (simp add: sends_emitsSafe)
next
  case (AddFace f)
  then show ?thesis using fw_addFace_inv [OF inv, of f] emitsSafe_same by (auto elim!: returns_mono)
next
  case (CloseFace i)
  then obtain f where "ft_faces (fw_faceTable s) i = Some f" using en by (auto simp: ft_get_def)
  then show ?thesis using fw_removeFace_inv [OF inv, of i f] CloseFace emitsSafe_same by (auto elim!: returns_mono)
next
  case (AddNextHop tag p i c)
  then show ?thesis using addNextHop_inv [OF E inv, of i tag now p c] en by (simp add: keeps_emits_fst del: returns_map)
next
  case (RemoveNextHop tag p i)
  then show ?thesis using removeNextHop_inv [OF inv, of i tag p] en by (simp add: keeps_emits_fst del: returns_map)
next
  case (SetStrategy p n)
  then show ?thesis using setStrategy_inv [OF inv, of n p] en by (simp add: keeps_emits_fst del: returns_map)
next
  case (UnsetStrategy p)
  then show ?thesis using unsetStrategy_inv [OF inv, of p] en by (simp add: sends_emitsSafe)
next
  case (CsConfig c a v)
  then show ?thesis using changeConfig_inv [OF E inv, of c a v] by (simp add: keeps_emits_fst del: returns_map)
next
  case (CsErase q n)
  then show ?thesis using csErase_inv [OF E inv, of now q n] by (auto elim!: returns_mono intro: sends_emitsSafe)
next
  case (CsStale i)
  have wf: "fw_wf E s" and t: "timed s" using inv by (simp_all add: fw_inv_def)
  have "cs_inv policy_tracks (env_lib E) (fw_cs s)" using fw_wfD(4) [OF wf] by (simp add: store_ok_def)
  from moveStale_spec [OF this, of i] obtain cs where cs: "cs_moveStale i (fw_cs s) = Some cs" "cs_inv policy_tracks (env_lib E) cs" by blast
  have "cs_table cs = cs_table (fw_cs s)"
    using cs(1) by (auto simp: cs_moveStale_def split: policy.splits if_splits bind_splits)
  then have "store_ok (env_lib E) cs" using cs(2) fw_wfD(4) [OF wf] by (simp add: store_ok_def)
  then show ?thesis using CsStale cs(1) fw_wf_cs [OF wf] t emitsSafe_same by (simp add: fw_inv_def)
qed (use inv emitsSafe_same in simp_all)

lemma reachable_inv:
  assumes "reachable E F csFace now s" and "fw_env_laws E" and "\<And>f. f_id (F f) = INVALID_FACEID"
  shows "fw_inv E s"
  using assms(1)
proof (induction rule: reachable.induct)
  case (start s now)
  then show ?case using newForwarder_inv [of E F csFace] assms(2,3) by simp
next
  case (step t s now ev s')
  then show ?case using fw_handle_inv [OF assms(2)] by (fastforce elim!: returnsE)
qed

end
