(* ===== verification/FwTheorems.thy ===== *)
theory FwTheorems
  imports FwEvents "HOL-Library.Code_Target_Nat"
begin

text \<open>
  What the forwarder promises, in every reachable state: no handler fails, packets sent are safe,
  loops are cut, Data reaches those who wait for it, Nacks are aggregated, and pending Interests
  end. The witnesses run the model on the canonical packet library.
\<close>

declare split_paired_All [simp del] split_paired_Ex [simp del]

section \<open>Runs\<close>

text \<open>A sequence of events, each enabled when it happens.\<close>

fun fw_run :: "fw_env \<Rightarrow> (time \<times> fw_event) list \<Rightarrow> time \<times> forwarder \<Rightarrow> (time \<times> forwarder) option" where
  "fw_run E [] x = Some x"
| "fw_run E ((now, ev) # evs) (t, s) =
     (if t \<le> now \<and> fw_enabled E now ev s then do { s' \<leftarrow> fw_handle E now ev s; fw_run E evs (now, s') } else None)"

lemma fw_run_reachable:
  "reachable E F csFace t s \<Longrightarrow> fw_run E evs (t, s) = Some (t', s') \<Longrightarrow> reachable E F csFace t' s'"
proof (induction evs arbitrary: t s)
  case (Cons x evs)
  obtain now ev where x: "x = (now, ev)" by (cases x)
  obtain s1 where s1: "t \<le> now" "fw_enabled E now ev s" "fw_handle E now ev s = Some s1" "fw_run E evs (now, s1) = Some (t', s')"
    using Cons.prems(2) by (auto simp: x split: if_splits bind_splits)
  show ?case by (rule Cons.IH [OF reachable.step [OF Cons.prems(1) s1(1-3)] s1(4)])
qed simp

section \<open>Looped Interests\<close>

text \<open>When the PIT shows that an Interest has been here before.\<close>

definition loopedInPit :: "forwarder \<Rightarrow> interest \<Rightarrow> faceRef \<Rightarrow> pit_entry \<Rightarrow> bool" where
  "loopedInPit s i f e \<longleftrightarrow>
     (list_ex (\<lambda>x. fr_lastNonce x = i_nonce i) (pe_inRecords e) \<or> list_ex (\<lambda>x. fr_lastNonce x = i_nonce i) (pe_outRecords e)) \<and>
     (f_linkType (fw_face s f) = LINK_TYPE_POINT_TO_POINT \<longrightarrow>
        \<not> list_ex (\<lambda>x. fr_lastNonce x = i_nonce i \<and> fr_face x = f) (pe_inRecords e))"

lemma hasDuplicateNonceInPit_iff: "hasDuplicateNonceInPit s e (i_nonce i) f \<longleftrightarrow> loopedInPit s i f e"
  unfolding hasDuplicateNonceInPit_def loopedInPit_def Let_def findDuplicateNonce_none and_in_same bit_findDuplicateNonce
  by (auto simp: list_all_iff list_ex_iff)

lemma pit_key_unique:
  assumes T: "fw_tables L s" and "fw_pit s r = Some e" and "fw_pit s r' = Some e'" and "pe_key e = pe_key e'"
  shows "r = r'"
proof -
  have wf: "pit_wf L (fw_nextPit s) (fw_nameTree s)" using T by (simp add: fw_tables_def pit_inv_def)
  have n: "fst r = fst r'"
    using fw_tables_entry(4) [OF T assms(2)] fw_tables_entry(4) [OF T assms(3)] assms(4) by (simp add: i_key_def pe_name_def)
  have "e \<in> set (nt_pits (fst r) (fw_nameTree s))"
    using pit_get_Some_iff [OF wf, of "fst r" "snd r" e] assms(2) by simp
  moreover have "e' \<in> set (nt_pits (fst r) (fw_nameTree s))"
    using pit_get_Some_iff [OF wf, of "fst r'" "snd r'" e'] assms(3) unfolding n by simp
  moreover have "distinct (map pe_key (nt_pits (fst r) (fw_nameTree s)))" using wf by (simp add: pit_wf_def pits_ok_def)
  ultimately have "e = e'" using assms(4) by (auto simp: distinct_map dest: inj_onD)
  then show ?thesis using n fw_tables_entry(3) [OF T assms(2)] fw_tables_entry(3) [OF T assms(3)] by (auto intro: prod_eqI)
qed

lemma onInterestLoop_out:
  "fw_out (onInterestLoop i f s) = fw_out s @ (if f_linkType (fw_face s f) = LINK_TYPE_POINT_TO_POINT
     then [SendNack f \<lparr>n_interest = i, n_reason = DUPLICATE\<rparr>] else [])"
  by (simp add: onInterestLoop_def)

lemma looped_aux:
  assumes E: "fw_env_laws E" and inv: "fw_inv E s" and v: "valid_face s f"
    and hop: "i_hopLimit i \<noteq> Some 0" and scope: "\<not> (f_scope (fw_face s f) = FACE_SCOPE_NON_LOCAL \<and> prefix LOCALHOST (i_name i))"
    and dup: "dnl_has (env_wireEncode E) (i_name i) (i_nonce i) (fw_dnl s) = Some True \<or>
      (\<exists>r e. fw_pit s r = Some e \<and> pe_key e = i_key i \<and> loopedInPit s i f e)"
  shows "\<exists>s' i'. onIncomingInterest E now i f s = Some s' \<and> i_name i' = i_name i \<and> i_nonce i' = i_nonce i \<and>
    fw_out s' = fw_out s @ (if f_linkType (fw_face s f) = LINK_TYPE_POINT_TO_POINT
      then [SendNack f \<lparr>n_interest = i', n_reason = DUPLICATE\<rparr>] else []) \<and> (\<forall>r. fw_pit s' r = fw_pit s r)"
proof -
  let ?s0 = "fw_count (\<lambda>c. c\<lparr>nInInterests := nInInterests c + 1\<rparr>) s"
  let ?i1 = "i\<lparr>i_incomingFaceId := Some (f_id (fw_face s f)), i_hopLimit := map_option (\<lambda>h. h - 1) (i_hopLimit i)\<rparr>"
  define i2 where "i2 = stripForwardingHint (fw_networkRegions s) ?i1"
  have i2: "i_name i2 = i_name i" "i_nonce i2 = i_nonce i" "i_key i2 = i_key i" by (simp_all add: i2_def stripForwardingHint_def i_key_def)
  have wf0: "fw_wf E ?s0" using inv by (simp add: fw_inv_def)
  have reg: "fw_networkRegions ?s0 = fw_networkRegions s" by (simp add: fw_count_def)
  obtain b where b: "dnl_has (env_wireEncode E) (i_name i) (i_nonce i) (fw_dnl s) = Some b" using dnl_has_returns [OF E] by blast
  show ?thesis
  proof (cases b)
    case True
    then have "onIncomingInterest E now i f s = Some (onInterestLoop ?i1 f ?s0)"
      using hop scope b by (auto simp: onIncomingInterest_def Let_def)
    moreover have "fw_nameTree (onInterestLoop ?i1 f ?s0) = fw_nameTree s" by (simp add: onInterestLoop_def)
    ultimately show ?thesis using onInterestLoop_out [of ?i1 f ?s0] by (intro exI [of _ "onInterestLoop ?i1 f ?s0"] exI [of _ ?i1]) simp
  next
    case False
    then obtain r e where e: "fw_pit s r = Some e" "pe_key e = i_key i" "loopedInPit s i f e" using dup b by auto
    have "\<not> isInProducerRegion (fw_networkRegions ?s0) (i_forwardingHint i2)"
      unfolding i2_def reg by (rule stripForwardingHint_ok)
    from fw_pitInsert_returns [OF wf0 this] obtain s1 r1 isNew e1 where
      c: "fw_pitInsert E i2 ?s0 = Some (s1, r1, isNew) \<and> fw_wf E s1 \<and> fw_pit s1 r1 = Some e1 \<and> pe_key e1 = i_key i2 \<and>
        (if isNew then e1 = newPitEntry (fw_nextPit ?s0) i2 \<and> fw_pit ?s0 r1 = None else fw_pit ?s0 r1 = Some e1) \<and>
        (\<forall>r'. r' \<noteq> r1 \<longrightarrow> fw_pit s1 r' = fw_pit ?s0 r') \<and> sends ?s0 s1 \<and> fw_out s1 = fw_out ?s0 \<and> fw_cs s1 = fw_cs ?s0 \<and>
        fw_dnl s1 = fw_dnl ?s0"
      by (elim exE)
    have p: "fw_pitInsert E i2 ?s0 = Some (s1, r1, isNew)" "fw_wf E s1" "fw_pit s1 r1 = Some e1" "pe_key e1 = i_key i2"
      "\<forall>r'. r' \<noteq> r1 \<longrightarrow> fw_pit s1 r' = fw_pit ?s0 r'" "sends ?s0 s1" "fw_out s1 = fw_out ?s0"
      using c by - (elim conjE, assumption)+
    have same: "r1 = r"
    proof (rule ccontr)
      assume "r1 \<noteq> r"
      then have "fw_pit s1 r = Some e" using p(5) e(1) by simp
      from pit_key_unique [OF fw_wfD(1) [OF p(2)] this p(3)] e(2) p(4) i2(3) \<open>r1 \<noteq> r\<close> show False by simp
    qed
    then have e1: "e1 = e" "\<not> isNew" using c e(1) by (auto split: if_splits)
    have pit: "fw_pit s1 r' = fw_pit s r'" for r' using p(5,3) same e1 e(1) by (cases "r' = r") simp_all
    have F: "fw_face s1 = fw_face s" using p(6) by (simp add: sends_def)
    have "hasDuplicateNonceInPit s1 e (i_nonce i2) f"
      using e(3) unfolding hasDuplicateNonceInPit_iff by (simp add: loopedInPit_def F i2(2))
    moreover obtain ops where "effectiveStrategy E r (onInterestLoop i2 f s1) = Some ops"
    proof -
      have "valid_face s1 f" using v sends_valid [OF p(6)] by (simp add: valid_face_def)
      note l = onInterestLoop_inv [OF this, where i = i2]
      show ?thesis
        using effectiveStrategy_contract [OF E, of "onInterestLoop i2 f s1" r e] l p(2) pit [of r] e(1) that by auto
    qed
    ultimately have "onPitInserted E now i2 isNew f r s1 = Some (onInterestLoop i2 f s1)"
      using pit [of r] e(1) by (simp add: onPitInserted_def Let_def)
    then have "onIncomingInterest E now i f s = Some (onInterestLoop i2 f s1)"
      using hop scope b False p(1) same reg by (auto simp: onIncomingInterest_def Let_def i2_def)
    moreover have "fw_nameTree (onInterestLoop i2 f s1) = fw_nameTree s1" by (simp add: onInterestLoop_def)
    ultimately show ?thesis using onInterestLoop_out [of i2 f s1] p(7) F pit i2(1,2)
      by (intro exI [of _ "onInterestLoop i2 f s1"] exI [of _ i2]) simp
  qed
qed

section \<open>Aggregation of Nacks\<close>

definition nackReasons :: "out_record list \<Rightarrow> nackReason list" where
  "nackReasons rs = List.map_filter or_incomingNack rs"

definition notNacked :: "out_record list \<Rightarrow> out_record list" where
  "notNacked rs = filter (\<lambda>x. or_incomingNack x = None) rs"

definition leastSevere :: "fw_env \<Rightarrow> nackReason list \<Rightarrow> nackReason \<Rightarrow> bool" where
  "leastSevere E reasons x \<longleftrightarrow> (\<forall>y \<in> set reasons. y = x \<or> env_isLessSevere E x y) \<and> (x = NONE \<or> x \<in> set reasons)"

lemma nackFold_spec:
  assumes E: "fw_env_laws E"
  shows "foldl (\<lambda>(n, lastFace, reason) x.
        case or_incomingNack x of
          None \<Rightarrow> (Suc n, Some (fr_face x), reason)
        | Some nk \<Rightarrow> (n, lastFace, if env_isLessSevere E nk reason then nk else reason)) (n0, f0, x0) rs = (n, f, x) \<Longrightarrow>
    n = n0 + length (notNacked rs) \<and> f = (if notNacked rs = [] then f0 else Some (fr_face (last (notNacked rs)))) \<and>
    (\<forall>y \<in> set (nackReasons rs). y = x \<or> env_isLessSevere E x y) \<and>
    (x = x0 \<or> x \<in> set (nackReasons rs) \<and> env_isLessSevere E x x0)"
proof (induction rs arbitrary: n0 f0 x0)
  case (Cons r rs)
  show ?case
  proof (cases "or_incomingNack r")
    case None
    then show ?thesis using Cons.IH [of "Suc n0" "Some (fr_face r)" x0] Cons.prems
      by (auto simp: notNacked_def nackReasons_def map_filter_simps)
  next
    case (Some nk)
    let ?x1 = "if env_isLessSevere E nk x0 then nk else x0"
    have ih: "n = n0 + length (notNacked rs)" "f = (if notNacked rs = [] then f0 else Some (fr_face (last (notNacked rs))))"
      "\<forall>y \<in> set (nackReasons rs). y = x \<or> env_isLessSevere E x y"
      "x = ?x1 \<or> x \<in> set (nackReasons rs) \<and> env_isLessSevere E x ?x1"
      using Cons.IH [of n0 f0 ?x1] Cons.prems Some by simp_all
    have "nk = x \<or> env_isLessSevere E x nk"
    proof (cases "env_isLessSevere E nk x0")
      case True
      then show ?thesis using ih(4) by auto
    next
      case False
      then have "nk = x0 \<or> env_isLessSevere E x0 nk" using fw_env_laws.severity_total [OF E, of nk x0] by blast
      then show ?thesis using ih(4) False fw_env_laws.severity_trans [OF E, of x x0 nk] by auto
    qed
    moreover have "x = x0 \<or> x \<in> insert nk (set (nackReasons rs)) \<and> env_isLessSevere E x x0"
      using ih(4) fw_env_laws.severity_trans [OF E, of x nk x0] by (auto split: if_splits)
    moreover have "notNacked (r # rs) = notNacked rs" "set (nackReasons (r # rs)) = insert nk (set (nackReasons rs))"
      using Some by (simp_all add: notNacked_def nackReasons_def map_filter_simps)
    ultimately show ?thesis using ih(1-3) by simp
  qed
qed (simp add: notNacked_def nackReasons_def map_filter_simps)

lemma nackSummary_spec:
  assumes E: "fw_env_laws E"
  shows "\<exists>reason. nackSummary E rs =
      (length (notNacked rs), (if notNacked rs = [] then None else Some (fr_face (last (notNacked rs)))), reason) \<and>
    leastSevere E (nackReasons rs) reason"
proof -
  obtain n f x where k: "nackSummary E rs = (n, f, x)" by (metis prod.exhaust)
  then have "foldl (\<lambda>(n, lastFace, reason) x.
        case or_incomingNack x of
          None \<Rightarrow> (Suc n, Some (fr_face x), reason)
        | Some nk \<Rightarrow> (n, lastFace, if env_isLessSevere E nk reason then nk else reason)) (0, None, NONE) rs = (n, f, x)"
    by (simp add: nackSummary_def)
  from nackFold_spec [OF E this] show ?thesis using k by (auto simp: leastSevere_def)
qed

definition nackFor :: "nackReason \<Rightarrow> in_record \<Rightarrow> packetOut" where
  "nackFor reason x = SendNack (fr_face x) \<lparr>n_interest = the (ir_interest x), n_reason = reason\<rparr>"

definition nackable :: "forwarder \<Rightarrow> in_record \<Rightarrow> bool" where
  "nackable s x \<longleftrightarrow> f_linkType (fw_face s (fr_face x)) = LINK_TYPE_POINT_TO_POINT"

lemma getInRecord_in: "pe_inv e \<Longrightarrow> x \<in> set (pe_inRecords e) \<Longrightarrow> getInRecord (fr_face x) e = Some x"
  by (simp add: pe_inv_def getInRecord_def find_key_Some_iff)

lemma entry_faces_valid: "fw_tables L s \<Longrightarrow> fw_pit s r = Some e \<Longrightarrow> x \<in> set (pe_inRecords e) \<Longrightarrow> valid_face s (fr_face x)"
  using fw_tables_entry(1) [of L s r e] by (auto simp: entry_ok_def list_all_iff)

lemma onOutgoingNack_record:
  assumes T: "fw_tables L s" and e: "fw_pit s r = Some e" and x: "x \<in> set (pe_inRecords e)"
  shows "\<exists>s'. onOutgoingNack reason (fr_face x) r s = Some (s', nackable s x) \<and> fw_tables L s' \<and> fw_face s' = fw_face s \<and>
    fw_pit s' r = Some (if nackable s x then deleteInRecord (fr_face x) e else e) \<and>
    fw_out s' = fw_out s @ (if nackable s x then [nackFor reason x] else [])"
proof -
  have g: "getInRecord (fr_face x) e = Some x" by (rule getInRecord_in [OF fw_tables_entry(2) [OF T e] x])
  have v: "valid_face s (fr_face x)" by (rule entry_faces_valid [OF T e x])
  from onOutgoingNack_acts [OF T e, of reason "fr_face x"] obtain s' b where
    s': "onOutgoingNack reason (fr_face x) r s = Some (s', b)" "fw_tables L s'" "fw_acts s s'"
      "fw_pit s' r = Some (if b then deleteInRecord (fr_face x) e else e)"
      "if nackable s x then b \<and> fw_out s' = fw_out s @ [nackFor reason x] else \<not> b \<and> s' = s"
    using g v by (auto simp: nackable_def nackFor_def elim!: returnsE split: if_splits)
  then show ?thesis using fw_acts_face(1) [OF s'(3)] by (auto split: if_splits)
qed

lemma sendNackEach_out:
  "fw_tables L s \<Longrightarrow> fw_pit s r = Some e \<Longrightarrow> distinct (map fr_face xs) \<Longrightarrow> set xs \<subseteq> set (pe_inRecords e) \<Longrightarrow>
   \<exists>s'. sendNackEach reason r (map fr_face xs) s = Some s' \<and>
     fw_out s' = fw_out s @ map (nackFor reason) (filter (nackable s) xs)"
proof (induction xs arbitrary: s e)
  case (Cons x xs)
  have x: "x \<in> set (pe_inRecords e)" using Cons.prems(4) by simp
  from onOutgoingNack_record [OF Cons.prems(1,2) x, of reason] obtain s1 where
    s1: "onOutgoingNack reason (fr_face x) r s = Some (s1, nackable s x)" "fw_tables L s1" "fw_face s1 = fw_face s"
      "fw_pit s1 r = Some (if nackable s x then deleteInRecord (fr_face x) e else e)"
      "fw_out s1 = fw_out s @ (if nackable s x then [nackFor reason x] else [])" by blast
  let ?e = "if nackable s x then deleteInRecord (fr_face x) e else e"
  have inv: "pe_inv e" by (rule fw_tables_entry(2) [OF Cons.prems(1,2)])
  have "set xs \<subseteq> set (pe_inRecords ?e)"
    using Cons.prems(3,4) deleteInRecord_filter [OF inv, of "fr_face x"] by (auto simp: image_iff)
  from Cons.IH [OF s1(2,4) _ this] Cons.prems(3) obtain s' where
    "sendNackEach reason r (map fr_face xs) s1 = Some s'"
    "fw_out s' = fw_out s1 @ map (nackFor reason) (filter (nackable s1) xs)" by auto
  moreover have "nackable s1 = nackable s" using s1(3) by (simp add: nackable_def fun_eq_iff)
  ultimately show ?case using s1(1,5) by (simp add: sendNack_def)
qed simp

lemma filter_key_single: "distinct (map g xs) \<Longrightarrow> y \<in> set xs \<Longrightarrow> filter (\<lambda>z. g z = g y) xs = [y]"
proof (induction xs)
  case (Cons x xs)
  then show ?case by (cases "x = y") (auto simp: filter_empty_conv image_iff)
qed simp

lemma processNack_out:
  assumes E: "fw_env_laws E" and T: "fw_tables L s" and e: "fw_pit s r = Some e"
  shows "\<exists>s' reason. processNack E r s = Some s' \<and> leastSevere E (nackReasons (pe_outRecords e)) reason \<and>
    fw_out s' = fw_out s @ map (nackFor reason) (filter (nackable s)
      (case notNacked (pe_outRecords e) of
         [] \<Rightarrow> pe_inRecords e
       | [x] \<Rightarrow> filter (\<lambda>y. fr_face y = fr_face x) (pe_inRecords e)
       | _ \<Rightarrow> []))"
proof -
  have inv: "pe_inv e" by (rule fw_tables_entry(2) [OF T e])
  then have d: "distinct (map fr_face (pe_inRecords e))" by (simp add: pe_inv_def)
  obtain reason where k: "nackSummary E (pe_outRecords e) = (length (notNacked (pe_outRecords e)),
      (if notNacked (pe_outRecords e) = [] then None else Some (fr_face (last (notNacked (pe_outRecords e))))), reason)"
    "leastSevere E (nackReasons (pe_outRecords e)) reason" using nackSummary_spec [OF E] by blast
  consider "notNacked (pe_outRecords e) = []" | x where "notNacked (pe_outRecords e) = [x]" |
    x y zs where "notNacked (pe_outRecords e) = x # y # zs" by (metis list.exhaust)
  then show ?thesis
  proof cases
    case 1
    then show ?thesis using sendNackEach_out [OF T e d subset_refl, of reason] k e
      by (auto simp: processNack_def sendNacks_def distinct_remdups_id [OF d])
  next
    case (2 x)
    show ?thesis
    proof (cases "getInRecord (fr_face x) e")
      case None
      then have "filter (\<lambda>y. fr_face y = fr_face x) (pe_inRecords e) = []"
        by (auto simp: getInRecord_def find_None_iff filter_empty_conv)
      then show ?thesis using 2 k e None by (auto simp: processNack_def)
    next
      case (Some y)
      then have y: "y \<in> set (pe_inRecords e)" "fr_face y = fr_face x"
        using find_Some_iff2 [of "\<lambda>r. fr_face r = fr_face x" "pe_inRecords e" y] by (auto simp: getInRecord_def)
      have "filter (\<lambda>z. fr_face z = fr_face x) (pe_inRecords e) = [y]"
        using filter_key_single [OF d y(1)] unfolding y(2) .
      then show ?thesis using onOutgoingNack_record [OF T e y(1), of reason] 2 k e Some y(2)
        by (auto simp: processNack_def sendNack_def)
    qed
  next
    case (3 x y zs)
    then show ?thesis using k e by (auto simp: processNack_def)
  qed
qed

section \<open>Best route\<close>

lemma updateFirst_id: "(\<And>x. x \<in> set xs \<Longrightarrow> f x = x) \<Longrightarrow> updateFirst p f xs = xs"
  by (induction xs) auto

lemma pit_modify_id: "pit_modify r (\<lambda>p. p) nt = nt"
  by (simp add: pit_modify_def nt_update_def updateFirst_id split_def cong: if_cong)

lemma fw_write_same:
  assumes T: "fw_tables L s" and e: "fw_pit s r = Some e"
  shows "fw_write r e s = s"
proof -
  have "nt_inv (fw_nameTree s)" using T by (simp add: fw_tables_def fib_inv_def)
  from pit_modify_cong [OF this, of r e "\<lambda>_. e" "\<lambda>p. p"] e show ?thesis
    by (simp add: fw_write_def fw_modify_def pit_modify_id)
qed

lemma fib_entryAt_inv: "fw_tables L s \<Longrightarrow> fe_inv (fib_entryAt x (fw_nameTree s))"
  using fib_entryAt_cases [of x "fw_nameTree s"]
  by (auto simp: fw_tables_def fib_inv_def fib_wf_def s_emptyEntry_def newFibEntry_def fe_inv_def)

lemma lookupDelegations_inv:
  "fw_tables L s \<Longrightarrow> lookupDelegations fh (fw_nameTree s) found = Some fe \<Longrightarrow> (\<And>x. found = Some x \<Longrightarrow> fe_inv x) \<Longrightarrow> fe_inv fe"
proof (induction fh arbitrary: found)
  case Nil
  then show ?case by (auto split: bind_splits if_splits)
next
  case (Cons d fh)
  have "fe_inv (fib_findLongestPrefixMatch d (fw_nameTree s))"
    unfolding fib_findLongestPrefixMatch_def by (rule fib_entryAt_inv [OF Cons.prems(1)])
  with Cons show ?case by (auto simp: Let_def split: if_splits)
qed

lemma lookupFib_inv:
  assumes T: "fw_tables L s" and fe: "lookupFib r s = Some fe"
  shows "fe_inv fe"
proof -
  obtain e where e: "fw_pit s r = Some e" using fe by (cases "fw_pit s r") (simp_all add: lookupFib_def)
  have d: "fe_inv fe" if "lookupDelegations fh (fw_nameTree s) None = Some fe" for fh
    by (rule lookupDelegations_inv [OF T that]) simp
  show ?thesis
    using fe e fib_entryAt_inv [OF T] d
    by (auto simp: lookupFib_def fib_findLongestPrefixMatch_pit_def Let_def split: if_splits)
qed

lemma find_least: "find P xs = Some x \<Longrightarrow> sorted (map c xs) \<Longrightarrow> y \<in> set xs \<Longrightarrow> P y \<Longrightarrow> (c x :: nat) \<le> c y"
  by (induction xs) (auto split: if_splits)

definition cheapest :: "nextHop list \<Rightarrow> nextHop \<Rightarrow> bool" where
  "cheapest hops nh \<longleftrightarrow> nh \<in> set hops \<and> list_all (\<lambda>nh'. nh_cost nh \<le> nh_cost nh') hops"

lemma bestRoute_new:
  assumes T: "fw_tables L s" and e: "fw_pit s r = Some e" and new: "\<not> hasPendingOutRecords now e"
    and x: "x \<in> set (pe_inRecords e)"
  shows "\<exists>s' fe. bestRoute_afterReceiveInterest now i (fr_face x) r s = Some s' \<and> lookupFib r s = Some fe \<and>
    (if \<not> list_ex (nextHopEligible (fw_face s) (fr_face x) i e) (fe_nextHops fe)
     then fw_out s' = fw_out s @ (if nackable s x then [nackFor NO_ROUTE x] else []) \<and>
       map_option pe_expiryTimer (fw_pit s' r) = Some (Some now)
     else \<exists>nh. cheapest (filter (nextHopEligible (fw_face s) (fr_face x) i e) (fe_nextHops fe)) nh \<and>
       fw_out s' = fw_out s @ (if i_hopLimit i = Some 0 \<and> f_scope (fw_face s (nh_face nh)) = FACE_SCOPE_NON_LOCAL then []
         else [SendInterest (nh_face nh) (i\<lparr>i_pitToken := None\<rparr>)]))"
proof -
  let ?ok = "nextHopEligible (fw_face s) (fr_face x) i e"
  obtain fe where fe: "lookupFib r s = Some fe" "list_all (\<lambda>nh. valid_face s (nh_face nh)) (fe_nextHops fe)"
    using lookupFib_returns [OF T e] by (auto elim!: returnsE)
  have sorted: "sorted (map nh_cost (fe_nextHops fe))" using lookupFib_inv [OF T fe(1)] by (simp add: fe_inv_def)
  have run: "bestRoute_afterReceiveInterest now i (fr_face x) r s =
      (case find ?ok (fe_nextHops fe) of None \<Rightarrow> sendNoRoute now (fr_face x) r s | Some nh \<Rightarrow> sendTo now i nh r s)"
    using e new fe(1) by (simp add: bestRoute_afterReceiveInterest_def decidePerPitEntry_def fw_write_same [OF T e] Let_def
        split: option.split)
  show ?thesis
  proof (cases "find ?ok (fe_nextHops fe)")
    case None
    from onOutgoingNack_record [OF T e x, of NO_ROUTE] obtain s1 e1 where
      s1: "onOutgoingNack NO_ROUTE (fr_face x) r s = Some (s1, nackable s x)" "fw_tables L s1" "fw_pit s1 r = Some e1"
        "fw_out s1 = fw_out s @ (if nackable s x then [nackFor NO_ROUTE x] else [])" by blast
    have "\<not> list_ex ?ok (fe_nextHops fe)" using None by (simp add: find_None_iff list_ex_iff)
    then show ?thesis using run None s1 fe(1) setExpiryTimer_acts(3) [OF s1(2,3), of now 0]
      by (simp add: sendNoRoute_def sendNack_def rejectPendingInterest_def ms_def)
  next
    case (Some nh)
    have nh: "nh \<in> set (fe_nextHops fe)" "?ok nh" using find_Some_iff2 [OF Some] by simp_all
    have "cheapest (filter ?ok (fe_nextHops fe)) nh"
      using nh find_least [OF Some sorted] by (auto simp: cheapest_def list_all_iff)
    moreover have "list_ex ?ok (fe_nextHops fe)" using nh by (auto simp: list_ex_iff)
    moreover have v: "valid_face s (nh_face nh)" using fe(2) nh(1) by (simp add: list_all_iff)
    from sendInterest_acts [OF T e v, of i now] obtain s' sent where "sendInterest now i (nh_face nh) r s = Some (s', sent)"
      "sent \<longleftrightarrow> \<not> (i_hopLimit i = Some 0 \<and> f_scope (fw_face s (nh_face nh)) = FACE_SCOPE_NON_LOCAL)"
      "fw_out s' = fw_out s @ (if sent then [SendInterest (nh_face nh) (i\<lparr>i_pitToken := None\<rparr>)] else [])"
      using violates_local [OF eligible_scope [OF nh(2)]] by (auto elim!: returnsE)
    ultimately show ?thesis using run Some fe(1) by (auto simp: sendTo_def intro!: exI [of _ nh])
  qed
qed

section \<open>The strategy in charge\<close>

lemma effectiveStrategy_eq:
  assumes T: "fw_tables (env_lib E) s" and e: "fw_pit s r = Some e"
  shows "effectiveStrategy E r s =
    (case longestMatch (take getMaxDepth (pe_name e)) (\<lambda>m. nt_sc m (fw_nameTree s) \<noteq> None) of
       None \<Rightarrow> None
     | Some m \<Rightarrow> Option.bind (map_option sc_strategy (nt_sc m (fw_nameTree s))) (strategyOps E))"
proof -
  let ?nt = "fw_nameTree s"
  have inv: "nt_inv ?nt" using T by (simp add: fw_tables_def fib_inv_def)
  have "fst r = nteName (env_lib E) (pe_name e)" by (rule fw_tables_entry(4) [OF T e])
  then have pre: "prefix (fst r) (pe_name e)" by (simp add: nteName_def take_is_prefix)
  have present: "nt_get (fst r) ?nt \<noteq> None" using e by (auto simp: pit_get_def nt_pits_def split: option.splits)
  have "hit nteHasStrategyChoiceEntry ?nt = (\<lambda>m. nt_sc m ?nt \<noteq> None)"
    by (simp add: hit_def nteHasStrategyChoiceEntry_def nt_sc_def fun_eq_iff split: option.split)
  then have "findLongestPrefixMatch_pit (fst r) (pe_name e) nteHasStrategyChoiceEntry ?nt =
      longestMatch (take getMaxDepth (pe_name e)) (\<lambda>m. nt_sc m ?nt \<noteq> None)"
    using findLongestPrefixMatch_pit_aux [OF inv pre present] by (simp add: findLongestPrefixMatch_aux)
  then show ?thesis using e by (simp add: effectiveStrategy_def findEffectiveStrategy_pit_def split: option.split)
qed

lemma effectiveStrategy_acts:
  assumes T: "fw_tables (env_lib E) s" "fw_tables (env_lib E) s'" and a: "fw_acts s s'" and e: "fw_pit s r = Some e"
  shows "effectiveStrategy E r s' = effectiveStrategy E r s"
proof -
  obtain e' where e': "fw_pit s' r = Some e'" "entry_step e e'" using fw_acts_pit [OF a e] by blast
  have "nt_sc m (fw_nameTree s') = nt_sc m (fw_nameTree s)" for m using a by (simp add: fw_acts_def fw_frame_def)
  moreover have "pe_name e' = pe_name e" using e'(2) by (simp add: entry_step_def pe_name_def)
  ultimately show ?thesis unfolding effectiveStrategy_eq [OF T(1) e] effectiveStrategy_eq [OF T(2) e'(1)]
    by (simp cong: option.case_cong)
qed

lemma pit_find_complete:
  assumes T: "fw_tables L s" and e: "fw_pit s r = Some e" and k: "pe_key e = i_key i"
  shows "pit_find L i (fw_nameTree s, fw_nPit s, fw_nextPit s) = Some r"
proof -
  have inv: "pit_inv L (fw_nameTree s, fw_nPit s, fw_nextPit s)" using T by (simp add: fw_tables_def)
  then have wf: "pit_wf L (fw_nextPit s) (fw_nameTree s)" by (simp add: pit_inv_def)
  have n: "nteName L (i_name i) = fst r" using fw_tables_entry(4) [OF T e] k by (simp add: i_key_def pe_name_def)
  have "e \<in> set (nt_pits (nteName L (i_name i)) (fw_nameTree s))"
    using pit_get_Some_iff [OF wf, of "fst r" "snd r" e] e unfolding n by simp
  then obtain r' where r': "pit_find L i (fw_nameTree s, fw_nPit s, fw_nextPit s) = Some r'"
    using k by (cases "find (\<lambda>e. pe_key e = i_key i) (nt_pits (nteName L (i_name i)) (fw_nameTree s))")
      (auto simp: pit_find_def pit_find_spec [OF inv] find_None_iff)
  from pit_find_get [OF inv r'] obtain e' where "fw_pit s r' = Some e'" "pe_key e' = i_key i" by blast
  from pit_key_unique [OF T e this(1)] this(2) k r' show ?thesis by simp
qed

text \<open>The entry once the Nack is recorded.\<close>

definition withNack :: "nack \<Rightarrow> faceRef \<Rightarrow> pit_entry \<Rightarrow> pit_entry" where
  "withNack n f = updateOutRecord f (\<lambda>x. fst (setIncomingNack n x))"

lemma onIncomingNack_bestRoute:
  assumes E: "fw_env_laws E" and T: "fw_tables (env_lib E) s"
    and p2p: "f_linkType (fw_face s f) = LINK_TYPE_POINT_TO_POINT"
    and e: "fw_pit s r = Some e" "pe_key e = i_key (n_interest n)"
    and x: "getOutRecord f e = Some x" "fr_lastNonce x = i_nonce (n_interest n)"
    and strategy: "effectiveStrategy E r s = Some (bestRouteOps E)"
  shows "\<exists>s1 e1. onIncomingNack E now n f s = processNack E r s1 \<and> fw_tables (env_lib E) s1 \<and> fw_pit s1 r = Some e1 \<and>
    pe_inRecords e1 = pe_inRecords e \<and> pe_outRecords e1 = pe_outRecords (withNack n f e) \<and>
    fw_out s1 = fw_out s \<and> fw_face s1 = fw_face s"
proof -
  let ?s0 = "fw_count (\<lambda>c. c\<lparr>nInNacks := nInNacks c + 1\<rparr>) s"
  have ch: "entry_change ?s0 (withNack n f) e"
    unfolding withNack_def by (rule entry_change_updateOut) (simp_all add: setIncomingNack_def)
  have T0: "fw_tables (env_lib E) ?s0" and e0: "fw_pit ?s0 r = Some e" using T e(1) by simp_all
  let ?s1 = "fw_modify r (withNack n f) ?s0" and ?e1 = "withNack n f e"
  note m = fw_modify_acts [OF T0 e0 ch]
  have e1: "fw_pit ?s1 r = Some ?e1" using m(3) by simp
  define s2 where "s2 = (if \<not> hasPendingOutRecords now ?e1 then setExpiryTimer now r 0 ?s1 else ?s1)"
  define e2 where "e2 = (if \<not> hasPendingOutRecords now ?e1 then ?e1\<lparr>pe_expiryTimer := Some (now + ms (max 0 0))\<rparr> else ?e1)"
  note t = setExpiryTimer_acts [OF m(1) e1, of now 0]
  have s2: "fw_tables (env_lib E) s2" "fw_acts ?s1 s2" "fw_pit s2 r = Some e2" "fw_out s2 = fw_out s"
    using m(1) t e1 by (simp_all add: s2_def e2_def)
  have acts: "fw_acts s s2" by (rule fw_acts_trans [OF fw_acts_count(1) fw_acts_trans [OF m(2) s2(2)]])
  have "effectiveStrategy E r s2 = Some (bestRouteOps E)"
    using effectiveStrategy_acts [OF T s2(1) acts e(1)] strategy by simp
  moreover have "pit_find (env_lib E) (n_interest n) (fw_nameTree s, fw_nPit s, fw_nextPit s) = Some r"
    by (rule pit_find_complete [OF T e])
  then have "pit_find (env_lib E) (n_interest n) (fw_nameTree ?s0, fw_nPit ?s0, fw_nextPit ?s0) = Some r"
    by (simp add: fw_count_def)
  then have "onIncomingNack E now n f s = Option.bind (effectiveStrategy E r s2) (\<lambda>ops. so_afterReceiveNack ops now n f r s2)"
    using p2p e0 x e1 by (simp add: onIncomingNack_def Let_def s2_def withNack_def)
  ultimately have "onIncomingNack E now n f s = processNack E r s2"
    by (simp add: bestRouteOps_def bestRoute_afterReceiveNack_def)
  moreover have "pe_inRecords e2 = pe_inRecords e" "pe_outRecords e2 = pe_outRecords (withNack n f e)"
    by (simp_all add: e2_def withNack_def updateOutRecord_def)
  ultimately show ?thesis using s2 fw_acts_face(1) [OF acts] by auto
qed

section \<open>An example\<close>

text \<open>
  Three faces; \<open>/a\<close> is routed to the second, and the first has asked for \<open>/a\<close>. Face objects are
  numbers here, and face 0 is that of the content store.
\<close>

declare lru_evictEntries.simps [code] pf_evictEntries.simps [code] partialFrom.simps [code] partialLoop.simps [code]
  city64Loop.simps [code]

definition exampleFaces :: "faceRef \<Rightarrow> face" where
  "exampleFaces f = \<lparr>f_id = INVALID_FACEID, f_scope = (if f < 3 then FACE_SCOPE_LOCAL else FACE_SCOPE_NON_LOCAL),
     f_linkType = LINK_TYPE_POINT_TO_POINT\<rparr>"

definition exampleEvents :: "(time \<times> fw_event) list" where
  "exampleEvents = [(0, AddFace 1), (0, AddFace 2), (0, AddFace 3), (0, AddNextHop None [compA] 257 10),
     (1, RecvInterest (exampleInterest [compA]) 1)]"

definition examplePending :: "forwarder option" where
  "examplePending = do {
     s \<leftarrow> newForwarder canonicalEnv exampleFaces 0;
     (_, s') \<leftarrow> fw_run canonicalEnv exampleEvents (0, s);
     Some s' }"

definition exampleNack :: nack where
  "exampleNack = \<lparr>n_interest = exampleInterest [compA], n_reason = CONGESTION\<rparr>"

definition exampleRef :: pitRef where "exampleRef = ([compA], 0)"

definition exampleFacts :: "forwarder \<Rightarrow> bool" where
  "exampleFacts s \<longleftrightarrow>
     fw_out s = [SendInterest 2 ((exampleInterest [compA])\<lparr>i_incomingFaceId := Some 256\<rparr>)] \<and>
     list_all (\<lambda>f. f_id (fw_face s f) = 255 + f \<and> f_linkType (fw_face s f) = LINK_TYPE_POINT_TO_POINT) [1, 2, 3] \<and>
     f_scope (fw_face s 1) = FACE_SCOPE_LOCAL \<and> f_scope (fw_face s 2) = FACE_SCOPE_LOCAL \<and>
     findEffectiveStrategy_pit [compA] [compA] (fw_nameTree s) = Some (bestRoute_getStrategyName canonicalEnv) \<and>
     (case fw_pit s exampleRef of
        None \<Rightarrow> False
      | Some e \<Rightarrow>
          map (\<lambda>x. (fr_face x, fr_lastNonce x, fr_expiry x, ir_interest x)) (pe_inRecords e) =
            [(1, 7, 4000000001, Some ((exampleInterest [compA])\<lparr>i_incomingFaceId := Some 256\<rparr>))] \<and>
          map (\<lambda>x. (fr_face x, fr_lastNonce x, fr_expiry x, or_incomingNack x)) (pe_outRecords e) = [(2, 7, 4000000001, None)] \<and>
          pe_key e = i_key (exampleInterest [compA]) \<and> matchesData canonicalLib (pe_interest e) (exampleData [compA]) \<and>
          map_option (\<lambda>fe. map nh_face (filter (nextHopEligible (fw_face s) 1 (exampleInterest [compA]) e) (fe_nextHops fe)))
            (lookupFib exampleRef s) = Some [2])"

lemma exampleFacts_pending: "map_option exampleFacts examplePending = Some True"
  by code_simp

lemma exampleFaces_new: "\<forall>f. f_id (exampleFaces f) = INVALID_FACEID"
  by (simp add: exampleFaces_def)

lemma example_reachable:
  obtains s where "examplePending = Some s" "reachable canonicalEnv exampleFaces 0 1 s" "exampleFacts s"
proof -
  obtain s where s: "examplePending = Some s" "exampleFacts s" using exampleFacts_pending by (cases examplePending) auto
  then obtain s0 t where "newForwarder canonicalEnv exampleFaces 0 = Some s0" "fw_run canonicalEnv exampleEvents (0, s0) = Some (t, s)"
    by (auto simp: examplePending_def split: bind_splits)
  moreover from this(2) have "t = 1" by (auto simp: exampleEvents_def split: if_splits bind_splits)
  ultimately have "reachable canonicalEnv exampleFaces 0 1 s"
    using fw_run_reachable [OF reachable.start] by blast
  with s that show thesis by blast
qed

lemmas canonical_laws = canonical_env.fw_env_laws_axioms

section \<open>Correctness of the forwarder\<close>



text \<open>
  C5: Every pending Interest ends. In every reachable state each PIT entry has a running timer, and
  once its time has come the timer's handler removes exactly that entry and sends nothing.
\<close>

theorem pending_interests_end:
  assumes "fw_env_laws E" and "\<forall>f. f_id (F f) = INVALID_FACEID" and "reachable E F csFace now s"
    and "fw_pit s r = Some e"
  shows "\<exists>expiry. pe_expiryTimer e = Some expiry \<and>
    (\<forall>now' \<ge> max now expiry. \<exists>s'. fw_enabled E now' (ExpiryTimer r) s \<and> fw_handle E now' (ExpiryTimer r) s = Some s' \<and>
       reachable E F csFace now' s' \<and> fw_out s' = fw_out s \<and> (\<forall>r'. fw_pit s' r' = (if r' = r then None else fw_pit s r')))"
proof -
  have inv: "fw_inv E s" using reachable_inv [OF assms(3,1)] assms(2) by simp
  then obtain expiry where t: "pe_expiryTimer e = Some expiry" using assms(4) by (auto simp: fw_inv_def timed_def)
  from onInterestFinalize_inv [OF assms(1) inv assms(4)] obtain s' where
    s': "onInterestFinalize E r s = Some s'" "fw_out s' = fw_out s" "\<forall>r'. fw_pit s' r' = (if r' = r then None else fw_pit s r')"
    by (auto elim: returnsE)
  have "fw_enabled E now' (ExpiryTimer r) s \<and> reachable E F csFace now' s'" if "max now expiry \<le> now'" for now'
    using that t assms(4) s'(1) reachable.step [OF assms(3), of now' "ExpiryTimer r" s'] by simp
  then show ?thesis using t s' by auto
qed

theorem pending_interests_end_witness:
  "\<exists>s e expiry s'. examplePending = Some s \<and> fw_pit s exampleRef = Some e \<and> pe_expiryTimer e = Some expiry \<and>
     fw_handle canonicalEnv (max 1 expiry) (ExpiryTimer exampleRef) s = Some s' \<and> fw_pit s' exampleRef = None"
proof -
  obtain s where s: "examplePending = Some s" "reachable canonicalEnv exampleFaces 0 1 s" "exampleFacts s"
    by (rule example_reachable)
  obtain e where e: "fw_pit s exampleRef = Some e" using s(3) by (cases "fw_pit s exampleRef") (auto simp: exampleFacts_def)
  from pending_interests_end [OF canonical_laws exampleFaces_new s(2) e] s(1) e show ?thesis by fastforce
qed



definition awaits :: "fw_env \<Rightarrow> time \<Rightarrow> data \<Rightarrow> forwarder \<Rightarrow> faceRef \<Rightarrow> bool" where
  "awaits E now d s g \<longleftrightarrow> (\<exists>r e. fw_pit s r = Some e \<and> matchesData (env_lib E) (pe_interest e) d \<and>
     list_ex (\<lambda>x. fr_face x = g \<and> now < fr_expiry x) (pe_inRecords e))"

definition satisfiedAt :: "time \<Rightarrow> faceRef \<Rightarrow> pit_entry \<Rightarrow> bool" where
  "satisfiedAt now f e \<longleftrightarrow> pe_isSatisfied e \<and> pe_expiryTimer e = Some now \<and>
     list_all (\<lambda>x. fr_expiry x \<le> now) (pe_inRecords e) \<and> getOutRecord f e = None"

lemma dataDone_satisfied:
  assumes inv: "pe_inv e" and d: "dataDone now d f fs e e'" "pendingFaces now e \<subseteq> fs"
  shows "satisfiedAt now f e'"
proof -
  obtain h where e': "e' = deleteOutRecord f (e\<lparr>pe_info := h, pe_expiryTimer := Some (now + ms 0), pe_isSatisfied := True,
      pe_dataFreshnessPeriod := d_freshnessPeriod d, pe_inRecords := filter (\<lambda>y. fr_face y \<notin> fs) (pe_inRecords e)\<rparr>)" (is "e' = deleteOutRecord f ?e")
    using d(1) by (auto simp: dataDone_def)
  have "find (\<lambda>x. fr_face x = f) (removeFirst (\<lambda>x. fr_face x = f) (pe_outRecords e)) = None"
    using inv by (simp add: pe_inv_def find_removeFirst_key)
  moreover have "fr_expiry x \<le> now" if "x \<in> set (pe_inRecords e)" "fr_face x \<notin> fs" for x
    using that d(2) by (force simp: pendingFaces_def)
  ultimately show ?thesis
    by (auto simp: satisfiedAt_def e' deleteOutRecord_def getOutRecord_def list_all_iff ms_def)
qed

lemma face_id_inj: "ft_inv (fw_faceTable s) \<Longrightarrow> valid_face s f \<Longrightarrow> f_id (fw_face s g) = f_id (fw_face s f) \<Longrightarrow> g = f"
  by (simp add: ft_inv_def valid_face_def) (metis option.inject)

lemma takesData_iff:
  assumes "ft_inv (fw_faceTable s)" and "valid_face s f" and "valid_face s g"
  shows "takesData (fw_face s) d f 0 (g, 0) \<longleftrightarrow> (g \<noteq> f \<or> f_linkType (fw_face s f) = LINK_TYPE_AD_HOC) \<and>
    \<not> (f_scope (fw_face s g) = FACE_SCOPE_NON_LOCAL \<and> prefix LOCALHOST (d_name d))"
  using face_id_inj [OF assms(1,2), of g] assms(3) by (auto simp: takesData_def valid_face_def)

lemma data_aux:
  assumes E: "fw_env_laws E" and inv: "fw_inv E s" and v: "valid_face s f"
    and d: "plainName (env_lib E) (d_name d)" "0 \<le> d_freshnessPeriod d"
    and scope: "\<not> (f_scope (fw_face s f) = FACE_SCOPE_NON_LOCAL \<and> prefix LOCALHOST (d_name d))"
  shows "\<exists>s' fs. onIncomingData E now d f 0 s = Some s' \<and> distinct fs \<and>
    fw_out s' = fw_out s @ map (\<lambda>g. SendData g (d\<lparr>d_incomingFaceId := Some (f_id (fw_face s f))\<rparr>)) fs \<and>
    (\<forall>g. g \<in> set fs \<longleftrightarrow> awaits E now d s g \<and> (g \<noteq> f \<or> f_linkType (fw_face s f) = LINK_TYPE_AD_HOC) \<and>
       \<not> (f_scope (fw_face s g) = FACE_SCOPE_NON_LOCAL \<and> prefix LOCALHOST (d_name d))) \<and>
    (\<forall>r e. fw_pit s r = Some e \<and> matchesData (env_lib E) (pe_interest e) d \<longrightarrow>
       (\<exists>e'. fw_pit s' r = Some e' \<and> satisfiedAt now f e'))"
proof -
  let ?d = "d\<lparr>d_incomingFaceId := Some (f_id (fw_face s f))\<rparr>"
  let ?M = "{r. \<exists>e. fw_pit s r = Some e \<and> matchesData (env_lib E) (pe_interest e) ?d}"
  have T: "fw_tables (env_lib E) s" and F: "ft_inv (fw_faceTable s)" using inv fw_wfD by (auto simp: fw_inv_def)
  have md: "matchesData (env_lib E) i ?d = matchesData (env_lib E) i d" for i
    using fw_env_laws.matches_tags [OF E, where i = i and d = d and a = "Some (f_id (fw_face s f))" and b = "d_pitToken d"] by simp
  from onIncomingData_spec [OF E inv d, of now f 0] scope obtain s' sat where
    s': "onIncomingData E now d f 0 s = Some s'"
      "fw_out s' = fw_out s @ map (\<lambda>x. SendData (fst x) ?d) (filter (takesData (fw_face s) ?d f 0) sat)"
      "distinct sat" "set sat = (\<Union>r \<in> ?M. pendingAt now s r) \<times> {0}"
      "\<forall>r \<in> ?M. matchedAt now ?d f s s' r"
    by (auto elim!: returnsE)
  let ?fs = "map fst (filter (takesData (fw_face s) ?d f 0) sat)"
  have "inj_on fst (set sat)" unfolding s'(4) by (auto simp: inj_on_def)
  then have dist: "distinct ?fs" using s'(3) by (auto simp: distinct_map intro: inj_on_subset)
  have aw: "g \<in> (\<Union>r \<in> ?M. pendingAt now s r) \<longleftrightarrow> awaits E now d s g" for g
    by (auto simp: awaits_def md pendingAt_def pendingFaces_def list_ex_iff split: option.splits) blast
  have av: "valid_face s g" if "awaits E now d s g" for g
    using that entry_faces_valid [OF T] by (auto simp: awaits_def list_ex_iff)
  have set0: "(g, 0) \<in> set sat \<longleftrightarrow> awaits E now d s g" for g unfolding s'(4) using aw [of g] by simp
  have snd0: "x = (fst x, 0)" if "x \<in> set sat" for x using that unfolding s'(4) by (cases x) simp
  have "g \<in> set ?fs \<longleftrightarrow> (g, 0) \<in> set sat \<and> takesData (fw_face s) ?d f 0 (g, 0)" for g
    using snd0 by (auto simp: image_iff intro!: bexI [of _ "(g, 0)"]) metis+
  then have set: "g \<in> set ?fs \<longleftrightarrow> awaits E now d s g \<and> (g \<noteq> f \<or> f_linkType (fw_face s f) = LINK_TYPE_AD_HOC) \<and>
       \<not> (f_scope (fw_face s g) = FACE_SCOPE_NON_LOCAL \<and> prefix LOCALHOST (d_name d))" for g
    unfolding set0 using takesData_iff [OF F v av, of g ?d] by auto
  have sat: "\<exists>e'. fw_pit s' r = Some e' \<and> satisfiedAt now f e'"
    if "fw_pit s r = Some e" "matchesData (env_lib E) (pe_interest e) d" for r e
  proof -
    have "matchedAt now ?d f s s' r" using s'(5) that md by auto
    then show ?thesis using dataDone_satisfied [OF fw_tables_entry(2) [OF T that(1)]] that(1) by (auto simp: matchedAt_def)
  qed
  show ?thesis using s'(1,2) dist set sat by (intro exI [of _ s'] exI [of _ ?fs]) simp
qed



text \<open>
  C4: Nacks are aggregated. When a Nack arrives for an Interest under the best-route strategy, Nacks go
  downstream only as far as it is certain that no Data will come: while two or more upstreams have not
  answered with a Nack nothing is sent; when one is left, only that face itself is told, if it is also
  waiting; when none is left, every downstream on a point-to-point link gets a Nack for its own
  Interest. The reason is the least severe of those received.
\<close>

theorem nacks_aggregated:
  assumes "fw_env_laws E" and "\<forall>f. f_id (F f) = INVALID_FACEID" and "reachable E F csFace t s"
    and "f_linkType (fw_face s f) = LINK_TYPE_POINT_TO_POINT"
    and "fw_pit s r = Some e" and "pe_key e = i_key (n_interest n)"
    and "getOutRecord f e = Some x" and "fr_lastNonce x = i_nonce (n_interest n)"
    and "effectiveStrategy E r s = Some (bestRouteOps E)"
  shows "\<exists>s' reason. fw_handle E now (RecvNack n f) s = Some s' \<and>
    leastSevere E (nackReasons (pe_outRecords (withNack n f e))) reason \<and>
    fw_out s' = fw_out s @ map (nackFor reason) (filter (nackable s)
      (case notNacked (pe_outRecords (withNack n f e)) of
         [] \<Rightarrow> pe_inRecords e
       | [y] \<Rightarrow> filter (\<lambda>z. fr_face z = fr_face y) (pe_inRecords e)
       | _ \<Rightarrow> []))"
proof -
  have T: "fw_tables (env_lib E) s" using reachable_inv [OF assms(3,1)] assms(2) fw_wfD(1) by (simp add: fw_inv_def)
  from onIncomingNack_bestRoute [OF assms(1) T assms(4-9)] obtain s1 e1 where
    s1: "onIncomingNack E now n f s = processNack E r s1" "fw_tables (env_lib E) s1" "fw_pit s1 r = Some e1"
      "pe_inRecords e1 = pe_inRecords e" "pe_outRecords e1 = pe_outRecords (withNack n f e)"
      "fw_out s1 = fw_out s" "fw_face s1 = fw_face s" by blast
  have n: "nackable s1 = nackable s" using s1(7) by (simp add: nackable_def fun_eq_iff)
  show ?thesis using processNack_out [OF assms(1) s1(2,3)] unfolding s1(4,5,6) n by (simp add: s1(1))
qed

theorem nacks_aggregated_witness:
  "\<exists>s s'. examplePending = Some s \<and> fw_handle canonicalEnv 2 (RecvNack exampleNack 2) s = Some s' \<and>
     fw_out s' = fw_out s @ [SendNack 1 \<lparr>n_interest = (exampleInterest [compA])\<lparr>i_incomingFaceId := Some 256\<rparr>, n_reason = CONGESTION\<rparr>]"
proof -
  obtain s where s: "examplePending = Some s" "reachable canonicalEnv exampleFaces 0 1 s" "exampleFacts s"
    by (rule example_reachable)
  obtain e where e: "fw_pit s exampleRef = Some e" using s(3) by (cases "fw_pit s exampleRef") (auto simp: exampleFacts_def)
  obtain y where y: "pe_inRecords e = [y]" "fr_face y = 1" "ir_interest y = Some ((exampleInterest [compA])\<lparr>i_incomingFaceId := Some 256\<rparr>)"
    using s(3) e by (auto simp: exampleFacts_def)
  obtain x where x: "pe_outRecords e = [x]" "fr_face x = 2" "fr_lastNonce x = 7" using s(3) e by (auto simp: exampleFacts_def)
  have k: "pe_key e = i_key (exampleInterest [compA])" using s(3) e by (simp add: exampleFacts_def)
  then have "pe_name e = [compA]" by (simp add: i_key_def pe_name_def exampleInterest_def)
  then have st: "effectiveStrategy canonicalEnv exampleRef s = Some (bestRouteOps canonicalEnv)"
    using s(3) e by (simp add: exampleFacts_def effectiveStrategy_def exampleRef_def strategyOps_def bestRoute_getStrategyName_def)
  have g: "getOutRecord 2 e = Some x" using x by (simp add: getOutRecord_def)
  have w: "pe_outRecords (withNack exampleNack 2 e) = [x\<lparr>or_incomingNack := Some CONGESTION\<rparr>]"
    using x by (simp add: withNack_def updateOutRecord_def setIncomingNack_def exampleNack_def exampleInterest_def)
  have n: "nackable s y" "f_linkType (fw_face s 2) = LINK_TYPE_POINT_TO_POINT" using s(3) y(2) by (simp_all add: exampleFacts_def nackable_def)
  have nk: "pe_key e = i_key (n_interest exampleNack)" "fr_lastNonce x = i_nonce (n_interest exampleNack)"
    using k x(3) by (simp_all add: exampleNack_def exampleInterest_def)
  from nacks_aggregated [OF canonical_laws exampleFaces_new s(2) n(2) e nk(1) g nk(2) st, of 2] obtain s' reason where
    s': "fw_handle canonicalEnv 2 (RecvNack exampleNack 2) s = Some s'" "leastSevere canonicalEnv [CONGESTION] reason"
      "fw_out s' = fw_out s @ [nackFor reason y]"
    using n(1) y(1) by (auto simp: w nackReasons_def notNacked_def map_filter_simps)
  then have "reason = CONGESTION" by (cases reason) (simp_all add: leastSevere_def canonicalEnv_def)
  then show ?thesis using s(1) s' y by (auto simp: nackFor_def)
qed

text \<open>
  C6: Best route forwards a new Interest along the cheapest path. When the entry has no pending
  out-record, the strategy sends the Interest to an eligible next hop of least cost of the FIB entry that
  the lookup yields (unless the hop limit keeps it from leaving the host); where no next hop is eligible
  the downstream gets a NoRoute Nack and the entry expires at once.
\<close>

theorem best_route_forwards_cheapest:
  assumes "fw_wf E s" and "fw_pit s r = Some e" and "\<not> hasPendingOutRecords now e" and "x \<in> set (pe_inRecords e)"
  shows "\<exists>s' fe. bestRoute_afterReceiveInterest now i (fr_face x) r s = Some s' \<and> lookupFib r s = Some fe \<and>
    (if \<not> list_ex (nextHopEligible (fw_face s) (fr_face x) i e) (fe_nextHops fe)
     then fw_out s' = fw_out s @ (if nackable s x then [nackFor NO_ROUTE x] else []) \<and>
       map_option pe_expiryTimer (fw_pit s' r) = Some (Some now)
     else \<exists>nh. cheapest (filter (nextHopEligible (fw_face s) (fr_face x) i e) (fe_nextHops fe)) nh \<and>
       fw_out s' = fw_out s @ (if i_hopLimit i = Some 0 \<and> f_scope (fw_face s (nh_face nh)) = FACE_SCOPE_NON_LOCAL then []
         else [SendInterest (nh_face nh) (i\<lparr>i_pitToken := None\<rparr>)]))"
  by (rule bestRoute_new [OF fw_wfD(1) [OF assms(1)] assms(2-4)])

theorem best_route_forwards_cheapest_witness:
  "\<exists>s s'. examplePending = Some s \<and>
     bestRoute_afterReceiveInterest 5000000000 (exampleInterest [compA]) 1 exampleRef s = Some s' \<and>
     fw_out s' = fw_out s @ [SendInterest 2 (exampleInterest [compA])]"
proof -
  let ?i = "exampleInterest [compA]"
  obtain s where s: "examplePending = Some s" "reachable canonicalEnv exampleFaces 0 1 s" "exampleFacts s"
    by (rule example_reachable)
  have wf: "fw_wf canonicalEnv s" using reachable_inv [OF s(2) canonical_laws] exampleFaces_new by (simp add: fw_inv_def)
  obtain e where e: "fw_pit s exampleRef = Some e" using s(3) by (cases "fw_pit s exampleRef") (auto simp: exampleFacts_def)
  obtain y where y: "y \<in> set (pe_inRecords e)" "fr_face y = 1" using s(3) e by (auto simp: exampleFacts_def)
  obtain x where "pe_outRecords e = [x]" "fr_expiry x = 4000000001" using s(3) e by (auto simp: exampleFacts_def)
  then have p: "\<not> hasPendingOutRecords 5000000000 e" by (simp add: hasPendingOutRecords_def)
  obtain fe nh where fe: "lookupFib exampleRef s = Some fe" "filter (nextHopEligible (fw_face s) 1 ?i e) (fe_nextHops fe) = [nh]"
    "nh_face nh = 2" using s(3) e by (auto simp: exampleFacts_def)
  then have "nh \<in> set (filter (nextHopEligible (fw_face s) 1 ?i e) (fe_nextHops fe))" by simp
  then have l: "list_ex (nextHopEligible (fw_face s) 1 ?i e) (fe_nextHops fe)" by (auto simp: list_ex_iff)
  have i: "i_hopLimit ?i = None" "?i\<lparr>i_pitToken := None\<rparr> = ?i" by (simp_all add: exampleInterest_def)
  show ?thesis using best_route_forwards_cheapest [OF wf e p y(1), of ?i] y(2) fe l i s(1) by (auto simp: cheapest_def)
qed

end
