(* ===== verification/Spec2Isabelle.thy ===== *)
theory Spec2Isabelle
  imports Measurements FwTheorems
begin

text \<open>
  \<^bold>\<open>A verified model of the NDN Forwarding Daemon.\<close>

  The program is a fork of NFD, a forwarder for Named Data Networking. Packets arrive on faces. An
  Interest asks for a name, a Data packet carries the content of a name, and a Nack says that an
  Interest could not be forwarded. The forwarder (\<^verbatim>\<open>daemon/fw/forwarder.cpp\<close>) passes each packet
  through a pipeline that reads and writes tables (\<^verbatim>\<open>daemon/table\<close>), and asks a strategy
  (\<^verbatim>\<open>daemon/fw/*-strategy.cpp\<close>) where an Interest goes.

  \<^bold>\<open>Theories, from the bottom up.\<close>

  \<^item> \<^verbatim>\<open>Prelude\<close>: lemmas on lists, options and association lists the components share.
  \<^item> \<^verbatim>\<open>NdnTypes\<close>: names, packets, faces and the packet library (a record of functions with its
    documented laws as the locale \<open>ndn_lib_laws\<close>), scope prefixes and face identifiers.
  \<^item> \<^verbatim>\<open>NameTreeHashtable\<close>: \<^verbatim>\<open>name-tree-hashtable.cpp\<close>. The table implements a set of names through all
    resizes, and the hash sequence computed once agrees with hashing each prefix.
  \<^item> \<^verbatim>\<open>NameTree\<close>: \<^verbatim>\<open>name-tree.cpp\<close>, \<^verbatim>\<open>name-tree-entry.cpp\<close> and \<^verbatim>\<open>name-tree-iterator.cpp\<close>. The tree is
    closed under prefixes, trimming leaves no useless entry, the match functions return the longest
    match, and the partial enumeration is a pre-order.
  \<^item> \<^verbatim>\<open>FibEntry\<close>, \<^verbatim>\<open>Fib\<close>: \<^verbatim>\<open>fib-entry.cpp\<close> and \<^verbatim>\<open>fib.cpp\<close>. The FIB refines a routing table.
  \<^item> \<^verbatim>\<open>PitEntry\<close>, \<^verbatim>\<open>Pit\<close>: \<^verbatim>\<open>pit-entry.cpp\<close> with its records, and \<^verbatim>\<open>pit.cpp\<close>. An insertion finds or
    creates the one entry of an Interest, and Data matches exactly the entries it satisfies.
  \<^item> \<^verbatim>\<open>Measurements\<close>: \<^verbatim>\<open>measurements.cpp\<close>, a refinement of a map from names to expiry times.
  \<^item> \<^verbatim>\<open>StrategyRegistry\<close>, \<^verbatim>\<open>StrategyChoice\<close>: the registry of \<^verbatim>\<open>strategy.cpp\<close> and \<^verbatim>\<open>strategy-choice.cpp\<close>.
  \<^item> \<^verbatim>\<open>Cleanup\<close>: \<^verbatim>\<open>cleanup.cpp\<close> and \<^verbatim>\<open>network-region-table.cpp\<close>.
  \<^item> \<^verbatim>\<open>CsEntry\<close>, \<^verbatim>\<open>CsPolicy\<close>, \<^verbatim>\<open>Cs\<close>: the content store. A policy is an interface (\<open>cs_policy_laws\<close>),
    the store is verified against it (\<open>cs_store\<close>), and LRU and priority FIFO provide it.
  \<^item> \<^verbatim>\<open>CityHash\<close>, \<^verbatim>\<open>DeadNonceList\<close>: \<^verbatim>\<open>common/city-hash.cpp\<close> and \<^verbatim>\<open>dead-nonce-list.cpp\<close>.
  \<^item> \<^verbatim>\<open>FwAlgorithm\<close>, \<^verbatim>\<open>RetxSuppression\<close>, \<^verbatim>\<open>FaceTable\<close>: \<^verbatim>\<open>algorithm.cpp\<close>, \<^verbatim>\<open>retx-suppression-*.cpp\<close> and
    \<^verbatim>\<open>face-table.cpp\<close>.
  \<^item> \<^verbatim>\<open>FwCore\<close>: the state of the forwarder, the outgoing pipelines, the actions of a strategy in
    \<^verbatim>\<open>strategy.cpp\<close>, \<^verbatim>\<open>process-nack-traits.cpp\<close> and \<^verbatim>\<open>unsolicited-data-policy.cpp\<close>.
  \<^item> \<^verbatim>\<open>Strategies\<close>: the base class triggers and the best route, multicast and random strategies.
  \<^item> \<^verbatim>\<open>Forwarder\<close>: the incoming pipelines, the reaction to new next hops and to the removal of faces,
    the configuration section and the construction.
  \<^item> \<^verbatim>\<open>FwInv\<close>, \<^verbatim>\<open>StrategyLaws\<close>, \<^verbatim>\<open>FwSafety\<close>: the invariant of the forwarder, the contract of a strategy
    with its proof for each strategy, and the pipelines against that contract.

  \<^bold>\<open>Correspondence.\<close> A class is a record of its members, an operation a function that returns the
  new state. The name tree is an association list from names to entries; a pointer to a PIT entry
  is the name of its name tree entry with a number that is unique over time; a face is a number
  that refers to an object of the face table. Times are integers in nanoseconds; a scheduled event
  is its time. Counters of type \<^verbatim>\<open>size_t\<close> are 64-bit words. An operation whose assertion fails, or
  that dereferences a null pointer, has the value \<open>None\<close>; that this does not happen is proved, not
  assumed. Loops are recursive functions; those whose end depends on an invariant are
  \<open>partial_function\<close>s, and that they end is a theorem. No definition uses fuel.

  \<^bold>\<open>Parameters.\<close> What the daemon takes from ndn-cxx and boost is a parameter with its documented
  behaviour as the assumptions of a locale, which is interpreted on a concrete library: comparison
  and digests of names and packets, the encoding of names, the severity order of Nack reasons, the
  version component of a strategy name, the shuffle of next hops.

  \<^bold>\<open>Not modelled.\<close> Channels, transports, link services and the WebSocket library are asynchronous
  input and output over operating system interfaces. The management protocol, the RIB daemon and
  the tools are clients of the tables through ndn-cxx dispatchers. The access, self-learning and ASF
  strategies and the experimental strategies of the fork (\<^verbatim>\<open>amif\<close>, \<^verbatim>\<open>lamdp\<close>, \<^verbatim>\<open>smdp\<close>, \<^verbatim>\<open>rfa\<close>, \<^verbatim>\<open>saf\<close>,
  \<^verbatim>\<open>soltani\<close>, \<^verbatim>\<open>topsis\<close>) compute with floating point numbers and random draws. The policy
  \<^verbatim>\<open>cs-policy-soltani.cpp\<close> does not compile. Logging has no effect on the state.
\<close>

end
